(* ===== verification/Palimpsest_Prelude.thy ===== *)
theory Palimpsest_Prelude
  imports Main "HOL-Library.Word" "HOL-Library.Char_ord" "HOL-Library.List_Lexorder"
    "HOL-Library.Multiset" "HOL-Library.Signed_Division" "HOL-Library.Product_Lexorder"
begin

text \<open>
  Shared vocabulary of the development.

  \<^item> \<^verbatim>\<open>result\<close>: a Rust \<^verbatim>\<open>Result\<close> with a third outcome for a panic.
  \<^item> Bytes: \<^verbatim>\<open>u8\<close> is HOL's 8-bit type \<^typ>\<open>char\<close>; \<^verbatim>\<open>Bytes\<close>, \<^verbatim>\<open>Vec<u8>\<close> and
    \<^verbatim>\<open>String\<close> (UTF-8 bytes) are \<^typ>\<open>string\<close>.  \<^verbatim>\<open>utf8_valid\<close> is the check of
    \<^verbatim>\<open>std::str::from_utf8\<close>, \<^verbatim>\<open>utf8_chars\<close> the iterator \<^verbatim>\<open>str::chars\<close>.
  \<^item> The pieces of \<^verbatim>\<open>std::str\<close> the sources use: splitting, trimming, integer
    parsing and decimal printing.
  \<^item> \<^verbatim>\<open>BTreeMap\<close> as an association list with strictly increasing keys, behind
    the interface \<^verbatim>\<open>ordered_map\<close>.
\<close>

named_theorems decode_simps "unfolding rules of the decoders"
named_theorems state_simps "unfolding rules of the state transitions"

section \<open>Results\<close>

datatype ('a, 'e) result = Ok 'a | Err 'e | Panic

fun rbind :: "('a, 'e) result \<Rightarrow> ('a \<Rightarrow> ('b, 'e) result) \<Rightarrow> ('b, 'e) result" where
  "rbind (Ok x) f = f x"
| "rbind (Err e) f = Err e"
| "rbind Panic f = Panic"

definition rmap :: "('a \<Rightarrow> 'b) \<Rightarrow> ('a, 'e) result \<Rightarrow> ('b, 'e) result" where
  "rmap f m = rbind m (\<lambda>x. Ok (f x))"

definition ok_or :: "'e \<Rightarrow> 'a option \<Rightarrow> ('a, 'e) result" where
  "ok_or e x = (case x of None \<Rightarrow> Err e | Some v \<Rightarrow> Ok v)"

fun is_ok :: "('a, 'e) result \<Rightarrow> bool" where
  "is_ok (Ok _) = True"
| "is_ok _ = False"

text \<open>\<^verbatim>\<open>collect::<Result<Vec<_>>>\<close>: the first failure wins.\<close>

fun mapr :: "('a \<Rightarrow> ('b, 'e) result) \<Rightarrow> 'a list \<Rightarrow> ('b list, 'e) result" where
  "mapr f [] = Ok []"
| "mapr f (x # xs) = rbind (f x) (\<lambda>y. rbind (mapr f xs) (\<lambda>ys. Ok (y # ys)))"

lemma rmap_simps [simp]:
  "rmap f (Ok x) = Ok (f x)" "rmap f (Err e) = Err e" "rmap f Panic = Panic"
  by (simp_all add: rmap_def)

lemma ok_or_simps [simp]: "ok_or e None = Err e" "ok_or e (Some v) = Ok v"
  by (simp_all add: ok_or_def)

lemma rbind_eq_Ok: "rbind m f = Ok y \<longleftrightarrow> (\<exists>x. m = Ok x \<and> f x = Ok y)"
  by (cases m) auto

lemma rmap_eq_Ok: "rmap f m = Ok y \<longleftrightarrow> (\<exists>x. m = Ok x \<and> y = f x)"
  by (cases m) auto

lemma rbind_eq_Panic: "rbind m f = Panic \<longleftrightarrow> m = Panic \<or> (\<exists>x. m = Ok x \<and> f x = Panic)"
  by (cases m) auto

lemma rmap_eq_Panic [simp]: "rmap f m = Panic \<longleftrightarrow> m = Panic"
  by (cases m) auto

lemma ok_or_not_Panic [simp]: "ok_or e x \<noteq> Panic"
  by (cases x) auto

lemma ok_or_eq_Ok [simp]: "ok_or e x = Ok y \<longleftrightarrow> x = Some y"
  by (cases x) auto

lemma mapr_eq_Ok: "mapr f xs = Ok ys \<longleftrightarrow> list_all2 (\<lambda>x y. f x = Ok y) xs ys"
  by (induction xs arbitrary: ys) (auto simp: rbind_eq_Ok list_all2_Cons1)

lemma mapr_length: "mapr f xs = Ok ys \<Longrightarrow> length ys = length xs"
  by (auto simp: mapr_eq_Ok dest: list_all2_lengthD)

lemma mapr_Panic: "mapr f xs = Panic \<Longrightarrow> \<exists>x \<in> set xs. f x = Panic"
  by (induction xs) (auto simp: rbind_eq_Panic)

lemma mapr_map: "(\<And>x. x \<in> set xs \<Longrightarrow> f (g x) = Ok x) \<Longrightarrow> mapr f (map g xs) = Ok xs"
  by (induction xs) auto

lemma mapr_cong [fundef_cong]:
  "xs = ys \<Longrightarrow> (\<And>x. x \<in> set ys \<Longrightarrow> f x = g x) \<Longrightarrow> mapr f xs = mapr g ys"
  by (induction ys arbitrary: xs) auto

section \<open>Stable sorting\<close>

lemma insort_key_map: "insort_key f (g x) (map g xs) = map g (insort_key (\<lambda>x. f (g x)) x xs)"
  by (induction xs) auto

lemma sort_key_map: "sort_key f (map g xs) = map g (sort_key (\<lambda>x. f (g x)) xs)"
  by (induction xs) (auto simp: insort_key_map)

lemma insort_key_last: "\<forall>x \<in> set xs. f x < f y \<Longrightarrow> insort_key f y xs = xs @ [y]"
  by (induction xs) (auto simp: not_le)

lemma sort_key_snoc: "\<forall>x \<in> set xs. f x < f y \<Longrightarrow> sort_key f (xs @ [y]) = sort_key f xs @ [y]"
proof -
  assume less: "\<forall>x \<in> set xs. f x < f y"
  have "sort_key f (xs @ [y]) = sort_key f (y # xs)"
    using less by (induction xs) (auto simp: insort_key_left_comm less_imp_neq)
  then show ?thesis using less by (simp add: insort_key_last)
qed

lemma sort_key_perm:
  assumes "mset xs = mset ys" "distinct (map f xs)"
  shows "sort_key f xs = sort_key f ys"
proof -
  have "inj_on f (set xs)" using assms(2) by (simp add: distinct_map)
  then show ?thesis using assms(1) by (intro sort_key_inj_key_eq) simp_all
qed

section \<open>Bytes and UTF-8\<close>

abbreviation byte :: "char \<Rightarrow> nat" where
  "byte c \<equiv> of_char c"

lemma byte_less [simp]: "byte c < 256"
  by simp

definition utf8_cont :: "char \<Rightarrow> bool" where
  "utf8_cont c = (128 \<le> byte c \<and> byte c < 192)"

definition utf8_width :: "char \<Rightarrow> nat" where
  "utf8_width c = (if byte c < 192 then 1 else if byte c < 224 then 2 else if byte c < 240 then 3 else 4)"

fun utf8_second_ok :: "char \<Rightarrow> char \<Rightarrow> bool" where
  "utf8_second_ok b0 b1 = (utf8_cont b1 \<and>
     (byte b0 = 224 \<longrightarrow> 160 \<le> byte b1) \<and> (byte b0 = 237 \<longrightarrow> byte b1 < 160) \<and>
     (byte b0 = 240 \<longrightarrow> 144 \<le> byte b1) \<and> (byte b0 = 244 \<longrightarrow> byte b1 < 144))"

fun utf8_chars :: "string \<Rightarrow> string list" where
  "utf8_chars [] = []"
| "utf8_chars (b # bs) = (b # take (utf8_width b - 1) bs) # utf8_chars (drop (utf8_width b - 1) bs)"

definition utf8_char_ok :: "string \<Rightarrow> bool" where
  "utf8_char_ok ch = (case ch of [] \<Rightarrow> False | b # bs \<Rightarrow>
     (byte b < 128 \<or> 194 \<le> byte b \<and> byte b \<le> 244) \<and> length bs = utf8_width b - 1 \<and>
     (case bs of [] \<Rightarrow> True | b1 # _ \<Rightarrow> utf8_second_ok b b1) \<and> list_all utf8_cont bs)"

text \<open>\<^verbatim>\<open>std::str::from_utf8(bytes).is_ok()\<close>: every character is a well-formed sequence.\<close>

definition utf8_valid :: "string \<Rightarrow> bool" where
  "utf8_valid s = list_all utf8_char_ok (utf8_chars s)"

text \<open>A byte offset is a boundary when it is an end of the text or the byte there is not a
  continuation byte; slicing a \<^verbatim>\<open>str\<close> elsewhere panics.\<close>

definition is_char_boundary :: "string \<Rightarrow> nat \<Rightarrow> bool" where
  "is_char_boundary s i = (i = 0 \<or> i = length s \<or> (i < length s \<and> \<not> utf8_cont (s ! i)))"

definition str_slice :: "string \<Rightarrow> nat \<Rightarrow> nat \<Rightarrow> (string, 'e) result" where
  "str_slice s i j = (if i \<le> j \<and> j \<le> length s \<and> is_char_boundary s i \<and> is_char_boundary s j
     then Ok (take (j - i) (drop i s)) else Panic)"

fun code_point :: "string \<Rightarrow> nat" where
  "code_point [b0] = byte b0"
| "code_point [b0, b1] = (byte b0 mod 32) * 64 + byte b1 mod 64"
| "code_point [b0, b1, b2] = (byte b0 mod 16) * 4096 + (byte b1 mod 64) * 64 + byte b2 mod 64"
| "code_point [b0, b1, b2, b3] =
     (byte b0 mod 8) * 262144 + (byte b1 mod 64) * 4096 + (byte b2 mod 64) * 64 + byte b3 mod 64"
| "code_point _ = 0"

text \<open>\<^verbatim>\<open>char::is_whitespace\<close>: the Unicode property White_Space.\<close>

definition is_whitespace :: "string \<Rightarrow> bool" where
  "is_whitespace ch = (let n = code_point ch in
     (9 \<le> n \<and> n \<le> 13) \<or> n = 32 \<or> n = 133 \<or> n = 160 \<or> n = 5760 \<or> (8192 \<le> n \<and> n \<le> 8202) \<or>
     n = 8232 \<or> n = 8233 \<or> n = 8239 \<or> n = 8287 \<or> n = 12288)"

lemma concat_utf8_chars [simp]: "concat (utf8_chars s) = s"
  by (induction s rule: utf8_chars.induct) auto

lemma utf8_chars_ascii:
  "list_all (\<lambda>b. byte b < 128) s \<Longrightarrow> utf8_chars s = map (\<lambda>b. [b]) s"
  by (induction s) (auto simp: utf8_width_def)

lemma utf8_valid_ascii: "list_all (\<lambda>b. byte b < 128) s \<Longrightarrow> utf8_valid s"
  by (force simp: utf8_valid_def utf8_chars_ascii list_all_iff utf8_char_ok_def utf8_width_def)

section \<open>Strings\<close>

definition str_trim :: "string \<Rightarrow> string" where
  "str_trim s = concat (rev (dropWhile is_whitespace (rev (dropWhile is_whitespace (utf8_chars s)))))"

text \<open>\<^verbatim>\<open>str::split(c)\<close>: always at least one piece.\<close>

fun split_on :: "'a \<Rightarrow> 'a list \<Rightarrow> 'a list list" where
  "split_on c [] = [[]]"
| "split_on c (x # xs) = (if x = c then [] # split_on c xs
     else (case split_on c xs of [] \<Rightarrow> [[x]] | p # ps \<Rightarrow> (x # p) # ps))"

fun split_once :: "'a \<Rightarrow> 'a list \<Rightarrow> ('a list \<times> 'a list) option" where
  "split_once c [] = None"
| "split_once c (x # xs) = (if x = c then Some ([], xs)
     else map_option (\<lambda>(l, r). (x # l, r)) (split_once c xs))"

text \<open>\<^verbatim>\<open>str::split_whitespace\<close>: the maximal runs of characters that are not white space.\<close>

fun ws_words :: "string list \<Rightarrow> string \<Rightarrow> string list" where
  "ws_words [] acc = (if acc = [] then [] else [acc])"
| "ws_words (ch # chs) acc =
     (if is_whitespace ch then (if acc = [] then ws_words chs [] else acc # ws_words chs [])
      else ws_words chs (acc @ ch))"

definition split_whitespace :: "string \<Rightarrow> string list" where
  "split_whitespace s = ws_words (utf8_chars s) []"

fun strip_prefix :: "'a list \<Rightarrow> 'a list \<Rightarrow> 'a list option" where
  "strip_prefix [] s = Some s"
| "strip_prefix (p # ps) [] = None"
| "strip_prefix (p # ps) (x # xs) = (if p = x then strip_prefix ps xs else None)"

definition strip_suffix :: "'a list \<Rightarrow> 'a list \<Rightarrow> 'a list option" where
  "strip_suffix p s = map_option rev (strip_prefix (rev p) (rev s))"

lemma strip_prefix_eq_Some: "strip_prefix p s = Some r \<longleftrightarrow> s = p @ r"
  by (induction p s rule: strip_prefix.induct) auto

lemma strip_prefix_append [simp]: "strip_prefix p (p @ r) = Some r" "strip_prefix p p = Some []"
  by (simp_all add: strip_prefix_eq_Some)

lemma strip_suffix_eq_Some: "strip_suffix p s = Some r \<longleftrightarrow> s = r @ p"
  unfolding strip_suffix_def
  by (auto simp: strip_prefix_eq_Some rev_eq_append_conv intro: exI [of _ "rev r"])

text \<open>\<^verbatim>\<open>str::trim_end_matches\<close> with a non-empty pattern removes it as often as it occurs at the end.\<close>

function trim_end_matches :: "'a list \<Rightarrow> 'a list \<Rightarrow> 'a list" where
  "trim_end_matches p s = (case strip_suffix p s of
     None \<Rightarrow> s | Some r \<Rightarrow> if p = [] then s else trim_end_matches p r)"
  by pat_completeness auto
termination
  by (relation "measure (\<lambda>(p, s). length s)") (auto simp: strip_suffix_eq_Some)

declare trim_end_matches.simps [simp del]

definition trim_matches :: "'a \<Rightarrow> 'a list \<Rightarrow> 'a list" where
  "trim_matches c s = rev (dropWhile ((=) c) (rev (dropWhile ((=) c) s)))"

lemma split_on_not_Nil [simp]: "split_on c s \<noteq> []"
  by (induction s) (auto split: list.splits)

lemma split_on_absent: "c \<notin> set s \<Longrightarrow> split_on c s = [s]"
  by (induction s) auto

lemma split_on_append: "c \<notin> set p \<Longrightarrow> split_on c (p @ c # s) = p # split_on c s"
  by (induction p) auto

lemma split_once_append: "c \<notin> set p \<Longrightarrow> split_once c (p @ c # s) = Some (p, s)"
  by (induction p) auto

lemma split_once_None: "split_once c s = None \<longleftrightarrow> c \<notin> set s"
  by (induction s) auto

lemma split_once_SomeD: "split_once c s = Some (l, r) \<Longrightarrow> s = l @ c # r \<and> c \<notin> set l"
proof (induction s arbitrary: l)
  case (Cons x xs)
  then show ?case by (cases "x = c") auto
qed simp

section \<open>Integers\<close>

fun digit_val :: "nat \<Rightarrow> char \<Rightarrow> nat option" where
  "digit_val radix c = (let n = byte c in
     let d = (if 48 \<le> n \<and> n \<le> 57 then n - 48 else if 97 \<le> n \<and> n \<le> 122 then n - 87
       else if 65 \<le> n \<and> n \<le> 90 then n - 55 else 256)
     in if d < radix then Some d else None)"

fun parse_digits :: "nat \<Rightarrow> nat \<Rightarrow> string \<Rightarrow> nat option" where
  "parse_digits radix acc [] = Some acc"
| "parse_digits radix acc (c # cs) = (case digit_val radix c of
     None \<Rightarrow> None | Some d \<Rightarrow> parse_digits radix (acc * radix + d) cs)"

text \<open>\<^verbatim>\<open>from_str_radix\<close> of the unsigned types: an optional plus sign and at least one digit;
  of the signed types: also a minus sign.\<close>

fun parse_nat :: "nat \<Rightarrow> string \<Rightarrow> nat option" where
  "parse_nat radix [] = None"
| "parse_nat radix (c # cs) = (if c = CHR ''+'' then (if cs = [] then None else parse_digits radix 0 cs)
     else parse_digits radix 0 (c # cs))"

fun parse_int :: "nat \<Rightarrow> string \<Rightarrow> int option" where
  "parse_int radix [] = None"
| "parse_int radix (c # cs) = (if c = CHR ''-''
     then (if cs = [] then None else map_option (\<lambda>n. - int n) (parse_digits radix 0 cs))
     else map_option int (parse_nat radix (c # cs)))"

definition parse_unsigned :: "nat \<Rightarrow> string \<Rightarrow> 'a::len word option" where
  "parse_unsigned radix s = (case parse_nat radix s of None \<Rightarrow> None
     | Some n \<Rightarrow> if n < 2 ^ LENGTH('a) then Some (word_of_nat n) else None)"

definition parse_signed :: "string \<Rightarrow> 'a::len word option" where
  "parse_signed s = (case parse_int 10 s of None \<Rightarrow> None
     | Some n \<Rightarrow> if - (2 ^ (LENGTH('a) - 1)) \<le> n \<and> n < 2 ^ (LENGTH('a) - 1)
         then Some (word_of_int n) else None)"

text \<open>\<^verbatim>\<open>saturating_add\<close> and \<^verbatim>\<open>saturating_sub\<close> of the unsigned types.\<close>

definition sat_add :: "'a::len word \<Rightarrow> 'a word \<Rightarrow> 'a word" where
  "sat_add a b = (if unat a + unat b < 2 ^ LENGTH('a) then a + b else - 1)"

definition sat_sub :: "'a::len word \<Rightarrow> 'a word \<Rightarrow> 'a word" where
  "sat_sub a b = (if b \<le> a then a - b else 0)"

lemma unat_sat_add: "unat (sat_add a b) = min (unat a + unat b) (2 ^ LENGTH('a) - 1)"
  for a b :: "'a::len word"
  by (auto simp: sat_add_def unat_word_ariths unsigned_minus_1_eq_mask mask_eq_exp_minus_1)

lemma unat_sat_sub: "unat (sat_sub a b) = unat a - unat b"
  by (simp add: sat_sub_def unat_sub_if_size word_le_nat_alt)

lemma sat_add_mono: "a \<le> sat_add a b"
  for a b :: "'a::len word"
proof -
  have "unat a < 2 ^ LENGTH('a)" by (rule unsigned_less)
  then have "unat a \<le> 2 ^ LENGTH('a) - 1" by linarith
  then show ?thesis by (simp add: word_le_nat_alt unat_sat_add)
qed

definition digit_char :: "nat \<Rightarrow> char" where
  "digit_char d = char_of (48 + d)"

fun show_nat :: "nat \<Rightarrow> string" where
  "show_nat n = (if n < 10 then [digit_char n] else show_nat (n div 10) @ [digit_char (n mod 10)])"

declare show_nat.simps [simp del]

definition show_int :: "int \<Rightarrow> string" where
  "show_int i = (if i < 0 then CHR ''-'' # show_nat (nat (- i)) else show_nat (nat i))"

lemma digit_char_simps:
  "digit_char 0 = CHR ''0''" "digit_char (Suc 0) = CHR ''1''" "digit_char 1 = CHR ''1''" "digit_char 2 = CHR ''2''"
  "digit_char 3 = CHR ''3''" "digit_char 4 = CHR ''4''" "digit_char 5 = CHR ''5''" "digit_char 6 = CHR ''6''"
  "digit_char 7 = CHR ''7''" "digit_char 8 = CHR ''8''" "digit_char 9 = CHR ''9''"
  by (simp_all add: digit_char_def char_of_eq_iff)

lemma byte_digit_char: "d < 10 \<Longrightarrow> byte (digit_char d) = 48 + d"
  by (simp add: digit_char_def)

lemma digit_val_digit_char: "d < 10 \<Longrightarrow> digit_val 10 (digit_char d) = Some d"
  by (simp add: byte_digit_char)

lemma parse_digits_append:
  "parse_digits r a (xs @ ys) = (case parse_digits r a xs of None \<Rightarrow> None | Some b \<Rightarrow> parse_digits r b ys)"
  by (induction xs arbitrary: a) (auto split: option.splits)

lemma parse_digits_show_nat: "parse_digits 10 0 (show_nat n) = Some n"
proof (induction n rule: show_nat.induct)
  case (1 n)
  show ?case
  proof (cases "n < 10")
    case True
    then show ?thesis by (simp add: show_nat.simps [of n] digit_val_digit_char del: digit_val.simps)
  next
    case False
    then show ?thesis
      using 1 by (simp add: show_nat.simps [of n] parse_digits_append digit_val_digit_char
          div_mult_mod_eq del: digit_val.simps)
  qed
qed

lemma show_nat_digits: "c \<in> set (show_nat n) \<Longrightarrow> 48 \<le> byte c \<and> byte c \<le> 57"
proof (induction n rule: show_nat.induct)
  case (1 n)
  then show ?case
    by (cases "n < 10") (auto simp: show_nat.simps [of n] byte_digit_char)
qed

lemma show_nat_not_Nil [simp]: "show_nat n \<noteq> []"
  by (subst show_nat.simps) simp

lemma show_nat_inject [simp]: "show_nat m = show_nat n \<longleftrightarrow> m = n"
  by (metis option.inject parse_digits_show_nat)

lemma parse_nat_show_nat: "parse_nat 10 (show_nat n) = Some n"
proof (cases "show_nat n")
  case (Cons c cs)
  then have "c \<noteq> CHR ''+''" using show_nat_digits [of c n] by auto
  then show ?thesis using Cons parse_digits_show_nat [of n] by simp
qed simp

lemma parse_int_show_int: "parse_int 10 (show_int i) = Some i"
proof (cases "i < 0")
  case True
  then show ?thesis by (simp add: show_int_def parse_digits_show_nat)
next
  case False
  obtain c cs where c: "show_nat (nat i) = c # cs" by (cases "show_nat (nat i)") simp_all
  then have "c \<noteq> CHR ''-''" using show_nat_digits [of c "nat i"] by auto
  then show ?thesis using False c parse_nat_show_nat [of "nat i"] by (simp add: show_int_def)
qed

lemma parse_signed_show_int: "parse_signed (show_int (sint w)) = Some (w :: 'a::len word)"
  using sint_greater_eq [of w] sint_lt [of w]
  by (simp add: parse_signed_def parse_int_show_int)

section \<open>Ordered maps\<close>

text \<open>\<^verbatim>\<open>std::collections::BTreeMap\<close>: what a client may rely on, and the association list that
  provides it.  Iteration is in increasing key order.\<close>

locale ordered_map =
  fixes emp :: 'm
    and get :: "'m \<Rightarrow> 'k::linorder \<rightharpoonup> 'v"
    and put :: "'k \<Rightarrow> 'v \<Rightarrow> 'm \<Rightarrow> 'm"
    and del :: "'k \<Rightarrow> 'm \<Rightarrow> 'm"
    and entries :: "'m \<Rightarrow> ('k \<times> 'v) list"
    and invar :: "'m \<Rightarrow> bool"
  assumes get_emp: "get emp k = None"
    and get_put: "invar m \<Longrightarrow> get (put k v m) = (get m)(k \<mapsto> v)"
    and get_del: "invar m \<Longrightarrow> get (del k m) = (get m)(k := None)"
    and invar_emp: "invar emp"
    and invar_put: "invar m \<Longrightarrow> invar (put k v m)"
    and invar_del: "invar m \<Longrightarrow> invar (del k m)"
    and entries_get: "invar m \<Longrightarrow> (k, v) \<in> set (entries m) \<longleftrightarrow> get m k = Some v"
    and entries_sorted: "invar m \<Longrightarrow> sorted_wrt (<) (map fst (entries m))"
begin

lemma dom_keys: "invar m \<Longrightarrow> dom (get m) = fst ` set (entries m)"
  using entries_get [of m] by (auto simp: dom_def image_iff) (metis fst_conv)+

lemma keys_sorted_list: "invar m \<Longrightarrow> map fst (entries m) = sorted_list_of_set (dom (get m))"
  using entries_sorted [of m] dom_keys [of m]
  by (metis finite_set list.set_map sorted_list_of_set.idem_if_sorted_distinct
      strict_sorted_iff)

lemma finite_dom: "invar m \<Longrightarrow> finite (dom (get m))"
  by (simp add: dom_keys)

lemma entries_values: "invar m \<Longrightarrow> snd ` set (entries m) = ran (get m)"
  using entries_get [of m] by (auto simp: ran_def image_iff) (metis snd_conv)+

lemma invar_put_all: "invar m \<Longrightarrow> invar (fold (\<lambda>(k, v). put k v) kvs m)"
  by (induction kvs arbitrary: m) (auto simp: invar_put)

lemma get_put_all: "invar m \<Longrightarrow> get (fold (\<lambda>(k, v). put k v) kvs m) = get m ++ map_of (rev kvs)"
proof (induction kvs arbitrary: m)
  case (Cons kv kvs)
  then show ?case by (cases kv) (simp add: get_put invar_put fun_eq_iff map_add_def split: option.splits)
qed simp

end

type_synonym ('k, 'v) btree = "('k \<times> 'v) list"

fun bt_insert :: "'k::linorder \<Rightarrow> 'v \<Rightarrow> ('k, 'v) btree \<Rightarrow> ('k, 'v) btree" where
  "bt_insert k v [] = [(k, v)]"
| "bt_insert k v ((k', v') # m) = (if k < k' then (k, v) # (k', v') # m
     else if k = k' then (k, v) # m else (k', v') # bt_insert k v m)"

fun bt_remove :: "'k::linorder \<Rightarrow> ('k, 'v) btree \<Rightarrow> ('k, 'v) btree" where
  "bt_remove k [] = []"
| "bt_remove k ((k', v') # m) = (if k = k' then m else (k', v') # bt_remove k m)"

definition bt_invar :: "('k::linorder, 'v) btree \<Rightarrow> bool" where
  "bt_invar m = sorted_wrt (<) (map fst m)"

lemma bt_invar_simps [simp]:
  "bt_invar []" "bt_invar ((k, v) # m) \<longleftrightarrow> (\<forall>k' \<in> fst ` set m. k < k') \<and> bt_invar m"
  by (auto simp: bt_invar_def)

lemma fst_bt_insert: "fst ` set (bt_insert k v m) = insert k (fst ` set m)"
proof (induction m)
  case (Cons kv m)
  then show ?case by (cases kv) (simp add: insert_commute)
qed simp

lemma set_bt_remove: "set (bt_remove k m) \<subseteq> set m"
proof (induction m)
  case (Cons kv m)
  then show ?case by (cases kv) auto
qed simp

lemma bt_invar_insert: "bt_invar m \<Longrightarrow> bt_invar (bt_insert k v m)"
proof (induction m)
  case (Cons kv m)
  then show ?case
    by (cases kv) (auto simp: fst_bt_insert dest: less_trans)
qed simp

lemma bt_invar_remove: "bt_invar m \<Longrightarrow> bt_invar (bt_remove k m)"
proof (induction m)
  case (Cons kv m)
  then show ?case using set_bt_remove [of k m] by (cases kv) auto
qed simp

lemma map_of_bt_insert: "bt_invar m \<Longrightarrow> map_of (bt_insert k v m) = (map_of m)(k \<mapsto> v)"
  by (induction m) auto

lemma bt_invar_absent: "bt_invar ((k, v) # m) \<Longrightarrow> map_of m k = None"
  by (metis bt_invar_simps(2) map_of_eq_None_iff order_less_irrefl)

lemma map_of_bt_remove: "bt_invar m \<Longrightarrow> map_of (bt_remove k m) = (map_of m)(k := None)"
proof (induction m)
  case (Cons kv m)
  then show ?case by (cases kv) (auto simp: bt_invar_absent fun_eq_iff)
qed simp

lemma bt_invar_distinct: "bt_invar m \<Longrightarrow> distinct (map fst m)"
  by (simp add: bt_invar_def strict_sorted_iff)

interpretation bt: ordered_map "[]" map_of bt_insert bt_remove id bt_invar
  by unfold_locales
    (auto simp: map_of_bt_insert map_of_bt_remove bt_invar_insert bt_invar_remove
      bt_invar_distinct bt_invar_def [symmetric])

end
