(* ===== verification/Wal_Datum.thy ===== *)
theory Wal_Datum
  imports Palimpsest_Prelude
begin

text \<open>
  Column values of the write-ahead log: \<^verbatim>\<open>palimpsest-wal/src/datum.rs\<close>, with the basic types of
  \<^verbatim>\<open>types.rs\<close> and the errors of \<^verbatim>\<open>error.rs\<close>.  Integers have the source's widths and wrap, as
  in the release profile.  Parsing decimal floating-point literals (\<^verbatim>\<open>str::parse::<f32>\<close>) is a
  parameter, a record of two functions.
\<close>

section \<open>Types\<close>

type_synonym i16 = "16 word"
type_synonym i32 = "32 word"
type_synonym i64 = "64 word"
type_synonym u32 = "32 word"
type_synonym u64 = "64 word"
type_synonym lsn = "64 word"
type_synonym table_id = "32 word"

datatype big_decimal = BigDecimal string

record date =
  days_since_unix_epoch :: i32

record time =
  micros_since_midnight :: i64

record timestamp =
  micros_since_unix_epoch :: i64

record timestamp_tz =
  tz_micros_since_unix_epoch :: i64

record interval =
  months :: i32
  days :: i32
  micros :: i64

datatype uuid = Uuid string

datatype datum =
    DBool bool
  | DI16 i16
  | DI32 i32
  | DI64 i64
  | DF32 u32
  | DF64 u64
  | DNumeric big_decimal
  | DText string
  | DBytea string
  | DDate date
  | DTime time
  | DTimestamp timestamp
  | DTimestampTz timestamp_tz
  | DInterval interval
  | DUuid uuid
  | DJson string
  | DJsonb string
  | DArray "datum list"
  | DNull
  | DUnchanged

datatype datum_type =
    TBool | TI16 | TI32 | TI64 | TF32 | TF64 | TNumeric | TText | TBytea | TDate | TTime
  | TTimestamp | TTimestampTz | TInterval | TUuid | TJson | TJsonb | TArray datum_type

datatype column_value = CText string | CBinary string | CNull | CUnchanged

type_synonym tuple = "datum list"

record column_def =
  cd_name :: string
  type_oid :: u32
  cd_datum_type :: datum_type
  nullable :: bool
  key :: bool

datatype wal_error =
    UnsupportedTypeOid u32
  | Decode datum_type string
  | Utf8
  | IntError
  | BoolError string
  | BinaryError datum_type
  | DateError string
  | TimeError string
  | TimestampError string
  | IntervalError string
  | UuidError string
  | UnexpectedEof string
  | Malformed string
  | UnknownRelation table_id
  | SlotGone string
  | TupleArity table_id nat nat
  | UnsupportedMessage char
  | InvalidRestartLsn
  | IoError

record float_env =
  parse_f32 :: "string \<Rightarrow> u32 option"
  parse_f64 :: "string \<Rightarrow> u64 option"

section \<open>Type identifiers\<close>

definition stock_postgres_16_type :: "u32 \<Rightarrow> datum_type option" where
  "stock_postgres_16_type oid = map_of
    [(16, TBool), (17, TBytea),
     (18, TText), (19, TText), (25, TText), (1042, TText), (1043, TText),
     (20, TI64), (21, TI16),
     (22, TArray TI16), (1005, TArray TI16),
     (23, TI32),
     (30, TArray TI32), (1007, TArray TI32),
     (700, TF32), (701, TF64),
     (790, TNumeric), (1700, TNumeric),
     (2950, TUuid), (114, TJson), (3802, TJsonb),
     (1082, TDate), (1083, TTime), (1114, TTimestamp), (1184, TTimestampTz), (1186, TInterval),
     (1000, TArray TBool), (1001, TArray TBytea),
     (1002, TArray TText), (1003, TArray TText), (1014, TArray TText), (1015, TArray TText),
     (1009, TArray TText),
     (1016, TArray TI64), (1021, TArray TF32), (1022, TArray TF64),
     (791, TArray TNumeric), (1231, TArray TNumeric),
     (1182, TArray TDate), (1183, TArray TTime), (1115, TArray TTimestamp),
     (1185, TArray TTimestampTz), (1187, TArray TInterval),
     (2951, TArray TUuid), (199, TArray TJson), (3807, TArray TJsonb),
     (1006, TArray (TArray TI16)), (1013, TArray (TArray TI32))] oid"

section \<open>UUIDs\<close>

definition hex_nibble :: "char \<Rightarrow> nat option" where
  "hex_nibble c = (let n = byte c in
     if 48 \<le> n \<and> n \<le> 57 then Some (n - 48)
     else if 97 \<le> n \<and> n \<le> 102 then Some (n - 97 + 10)
     else if 65 \<le> n \<and> n \<le> 70 then Some (n - 65 + 10) else None)"

fun uuid_slots :: "nat \<Rightarrow> string \<Rightarrow> (string \<times> string) option" where
  "uuid_slots 0 ns = Some ([], ns)"
| "uuid_slots (Suc n) (h # l # ns) = (case (hex_nibble h, hex_nibble l) of
     (Some hi, Some lo) \<Rightarrow> map_option (\<lambda>(out, rest). (char_of (hi * 16 + lo) # out, rest)) (uuid_slots n ns)
   | _ \<Rightarrow> None)"
| "uuid_slots (Suc n) _ = None"

definition uuid_parse_text :: "string \<Rightarrow> uuid option" where
  "uuid_parse_text raw = (
     let t = str_trim raw;
         t = (case Option.bind (strip_prefix ''{'' t) (strip_suffix ''}'') of None \<Rightarrow> t | Some b \<Rightarrow> b)
     in if length t = 36 \<and> t ! 8 = CHR ''-'' \<and> t ! 13 = CHR ''-'' \<and> t ! 18 = CHR ''-'' \<and> t ! 23 = CHR ''-''
           \<or> length t = 32
        then (case uuid_slots 16 (filter (\<lambda>b. b \<noteq> CHR ''-'') t) of
                Some (out, []) \<Rightarrow> Some (Uuid out) | _ \<Rightarrow> None)
        else None)"

definition hex_digit :: "nat \<Rightarrow> char" where
  "hex_digit d = (if d < 10 then char_of (48 + d) else char_of (87 + d))"

definition hex_byte :: "char \<Rightarrow> string" where
  "hex_byte b = [hex_digit (byte b div 16), hex_digit (byte b mod 16)]"

fun uuid_fmt :: "nat \<Rightarrow> string \<Rightarrow> string" where
  "uuid_fmt i [] = []"
| "uuid_fmt i (b # bs) =
     (if i = 4 \<or> i = 6 \<or> i = 8 \<or> i = 10 then ''-'' else []) @ hex_byte b @ uuid_fmt (Suc i) bs"

fun uuid_to_string :: "uuid \<Rightarrow> string" where
  "uuid_to_string (Uuid bs) = uuid_fmt 0 bs"

section \<open>Text format\<close>

fun parse_bool :: "string \<Rightarrow> (bool, wal_error) result" where
  "parse_bool s = (if s = ''t'' \<or> s = ''true'' \<or> s = ''1'' then Ok True
     else if s = ''f'' \<or> s = ''false'' \<or> s = ''0'' then Ok False else Err (BoolError s))"

definition parse_f32_bits :: "float_env \<Rightarrow> string \<Rightarrow> (u32, wal_error) result" where
  "parse_f32_bits fl s = ok_or (Decode TF32 ''text'') (parse_f32 fl s)"

definition parse_f64_bits :: "float_env \<Rightarrow> string \<Rightarrow> (u64, wal_error) result" where
  "parse_f64_bits fl s = ok_or (Decode TF64 ''text'') (parse_f64 fl s)"

definition parse_u8 :: "nat \<Rightarrow> string \<Rightarrow> char option" where
  "parse_u8 radix s = (case parse_nat radix s of None \<Rightarrow> None
     | Some n \<Rightarrow> if n < 256 then Some (char_of n) else None)"

text \<open>Two hexadecimal digits per byte, read by slicing the text at the even offsets.\<close>

definition hex_pairs :: "wal_error \<Rightarrow> string \<Rightarrow> nat list \<Rightarrow> (string, wal_error) result" where
  "hex_pairs e s = mapr (\<lambda>i. rbind (str_slice s (2 * i) (2 * i + 2)) (\<lambda>p. ok_or e (parse_u8 16 p)))"

definition parse_text_bytea :: "string \<Rightarrow> (string, wal_error) result" where
  "parse_text_bytea text = (case strip_prefix [CHR 0x5C, CHR ''x''] text of
     None \<Rightarrow> Ok text
   | Some hex \<Rightarrow> if length hex mod 2 \<noteq> 0 then Err (BinaryError TBytea)
       else hex_pairs (BinaryError TBytea) hex [0..<length hex div 2])"

definition parse_uuid :: "string \<Rightarrow> (uuid, wal_error) result" where
  "parse_uuid text = (let compact = concat (filter (\<lambda>ch. ch \<noteq> ''-'') (utf8_chars text)) in
     if length compact \<noteq> 32 then Err (UuidError text)
     else rmap Uuid (hex_pairs (UuidError text) compact [0..<16]))"

definition sdivw :: "'a::len word \<Rightarrow> 'a word \<Rightarrow> 'a word" where
  "sdivw a b = word_of_int (sint a sdiv sint b)"

definition days_from_civil :: "i32 \<Rightarrow> u32 \<Rightarrow> u32 \<Rightarrow> (i32, wal_error) result" where
  "days_from_civil year month day = (
     let year = year - (if month \<le> 2 then 1 else 0);
         era = sdivw (if 0 \<le> sint year then year else year - 399) 400;
         yoe = year - era * 400
     in if unat month < 2 ^ 31 \<and> unat day < 2 ^ 31
        then let doy = sdivw (153 * (month + (if 2 < sint month then - 3 else 9)) + 2) 5 + day - 1;
                 doe = yoe * 365 + sdivw yoe 4 - sdivw yoe 100 + doy
             in Ok (era * 146097 + doe - 719468)
        else Panic)"

definition parse_ymd :: "string \<Rightarrow> (i32 \<times> u32 \<times> u32) option" where
  "parse_ymd text = (case split_on (CHR ''-'') text of
     [y, m, d] \<Rightarrow> (case (parse_signed y, parse_unsigned 10 m, parse_unsigned 10 d) of
        (Some year, Some month, Some day) \<Rightarrow> Some (year, month, day) | _ \<Rightarrow> None)
   | _ \<Rightarrow> None)"

definition resize :: "nat \<Rightarrow> 'a \<Rightarrow> 'a list \<Rightarrow> 'a list" where
  "resize n x xs = take n xs @ replicate (n - length xs) x"

definition parse_seconds :: "string \<Rightarrow> (i64 \<times> i64) option" where
  "parse_seconds part = (case split_once (CHR ''.'') part of
     Some (seconds, fraction) \<Rightarrow>
       (let f = resize 6 (CHR ''0'') fraction in
        if utf8_valid f
        then (case (parse_signed f, parse_signed seconds) of
                (Some us, Some s) \<Rightarrow> Some (s, us) | _ \<Rightarrow> None)
        else None)
   | None \<Rightarrow> map_option (\<lambda>s. (s, 0)) (parse_signed part))"

definition parse_hms_micros :: "string \<Rightarrow> i64 option" where
  "parse_hms_micros text = (case split_on (CHR '':'') text of
     [h, m, sp] \<Rightarrow> (case (parse_signed h, parse_signed m, parse_seconds sp) of
        (Some hours, Some minutes, Some (seconds, us)) \<Rightarrow>
          Some (((hours * 60 + minutes) * 60 + seconds) * 1000000 + us)
      | _ \<Rightarrow> None)
   | _ \<Rightarrow> None)"

definition parse_date :: "string \<Rightarrow> (date, wal_error) result" where
  "parse_date text = rbind (ok_or (DateError text) (parse_ymd text))
     (\<lambda>(year, month, day). rmap (\<lambda>d. \<lparr>days_since_unix_epoch = d\<rparr>) (days_from_civil year month day))"

definition parse_time :: "string \<Rightarrow> (time, wal_error) result" where
  "parse_time text = rmap (\<lambda>us. \<lparr>micros_since_midnight = us\<rparr>)
     (ok_or (TimeError text) (parse_hms_micros text))"

definition parse_timestamp :: "string \<Rightarrow> (timestamp, wal_error) result" where
  "parse_timestamp text = (
     let parts = (case split_once (CHR '' '') text of None \<Rightarrow> split_once (CHR ''T'') text | Some p \<Rightarrow> Some p)
     in rbind (ok_or (TimestampError text) parts) (\<lambda>(date, time).
        rbind (parse_date date) (\<lambda>d. rbind (parse_time time) (\<lambda>t.
          Ok \<lparr>micros_since_unix_epoch =
                 signed (days_since_unix_epoch d) * 86400000000 + micros_since_midnight t\<rparr>))))"

definition parse_timestamp_tz :: "string \<Rightarrow> (timestamp_tz, wal_error) result" where
  "parse_timestamp_tz text =
     rmap (\<lambda>t. \<lparr>tz_micros_since_unix_epoch = micros_since_unix_epoch t\<rparr>)
       (parse_timestamp (trim_end_matches ''Z'' (trim_end_matches ''+00'' text)))"

definition starts_with :: "string \<Rightarrow> string \<Rightarrow> bool" where
  "starts_with s p = (strip_prefix p s \<noteq> None)"

fun interval_parts :: "string \<Rightarrow> i64 \<Rightarrow> string list \<Rightarrow> (i64, wal_error) result" where
  "interval_parts text us [] = Ok us"
| "interval_parts text us (part # rest) = (case parse_signed part of
     Some v \<Rightarrow> (case rest of
         [] \<Rightarrow> Err (IntervalError text)
       | unit # rest' \<Rightarrow>
           if starts_with unit ''day'' then interval_parts text (us + v * 86400000000) rest'
           else if starts_with unit ''hour'' then interval_parts text (us + v * 3600000000) rest'
           else if starts_with unit ''min'' then interval_parts text (us + v * 60000000) rest'
           else if starts_with unit ''sec'' then interval_parts text (us + v * 1000000) rest'
           else Err (IntervalError text))
   | None \<Rightarrow> if CHR '':'' \<in> set part
       then (case parse_hms_micros part of
               Some d \<Rightarrow> interval_parts text (us + d) rest | None \<Rightarrow> Err (IntervalError text))
       else Err (IntervalError text))"

definition parse_interval :: "string \<Rightarrow> (interval, wal_error) result" where
  "parse_interval text = rmap (\<lambda>us. \<lparr>months = 0, days = 0, micros = us\<rparr>)
     (interval_parts text 0 (split_whitespace text))"

function (sequential) decode_text :: "float_env \<Rightarrow> datum_type \<Rightarrow> string \<Rightarrow> (datum, wal_error) result"
  and parse_array :: "float_env \<Rightarrow> datum_type \<Rightarrow> string \<Rightarrow> (datum list, wal_error) result" where
  "decode_text fl ty bytes = (if \<not> utf8_valid bytes then Err Utf8 else (case ty of
     TBool \<Rightarrow> rmap DBool (parse_bool bytes)
   | TI16 \<Rightarrow> rmap DI16 (ok_or IntError (parse_signed bytes))
   | TI32 \<Rightarrow> rmap DI32 (ok_or IntError (parse_signed bytes))
   | TI64 \<Rightarrow> rmap DI64 (ok_or IntError (parse_signed bytes))
   | TF32 \<Rightarrow> rmap DF32 (parse_f32_bits fl bytes)
   | TF64 \<Rightarrow> rmap DF64 (parse_f64_bits fl bytes)
   | TNumeric \<Rightarrow> Ok (DNumeric (BigDecimal bytes))
   | TText \<Rightarrow> Ok (DText bytes)
   | TBytea \<Rightarrow> rmap DBytea (parse_text_bytea bytes)
   | TDate \<Rightarrow> rmap DDate (parse_date bytes)
   | TTime \<Rightarrow> rmap DTime (parse_time bytes)
   | TTimestamp \<Rightarrow> rmap DTimestamp (parse_timestamp bytes)
   | TTimestampTz \<Rightarrow> rmap DTimestampTz (parse_timestamp_tz bytes)
   | TInterval \<Rightarrow> rmap DInterval (parse_interval bytes)
   | TUuid \<Rightarrow> rmap DUuid (parse_uuid bytes)
   | TJson \<Rightarrow> Ok (DJson bytes)
   | TJsonb \<Rightarrow> Ok (DJsonb bytes)
   | TArray inner \<Rightarrow> rmap DArray (parse_array fl inner bytes)))"
| "parse_array fl inner text = (case Option.bind (strip_prefix ''{'' text) (strip_suffix ''}'') of
     None \<Rightarrow> Err (Decode (TArray inner) ''text'')
   | Some body \<Rightarrow> if body = [] then Ok []
       else mapr (\<lambda>item. decode_text fl inner (trim_matches (CHR 0x22) item)) (split_on (CHR '','') body))"
  by pat_completeness auto
termination
  by (relation "measure (case_sum (\<lambda>(fl, ty, s). 2 * size ty) (\<lambda>(fl, ty, s). 2 * size ty + 1))") auto

declare decode_text.simps [simp del] parse_array.simps [simp del]

section \<open>Binary format\<close>

definition be_nat :: "string \<Rightarrow> nat" where
  "be_nat s = foldl (\<lambda>a c. a * 256 + byte c) 0 s"

definition be_word :: "string \<Rightarrow> 'a::len word" where
  "be_word s = word_of_nat (be_nat s)"

definition decode_binary :: "datum_type \<Rightarrow> string \<Rightarrow> (datum, wal_error) result" where
  "decode_binary ty bytes = (let n = length bytes in case ty of
     TBool \<Rightarrow> if n = 1 then Ok (DBool (byte (hd bytes) \<noteq> 0)) else Err (BinaryError ty)
   | TI16 \<Rightarrow> if n = 2 then Ok (DI16 (be_word bytes)) else Err (BinaryError ty)
   | TI32 \<Rightarrow> if n = 4 then Ok (DI32 (be_word bytes)) else Err (BinaryError ty)
   | TI64 \<Rightarrow> if n = 8 then Ok (DI64 (be_word bytes)) else Err (BinaryError ty)
   | TF32 \<Rightarrow> if n = 4 then Ok (DF32 (be_word bytes)) else Err (BinaryError ty)
   | TF64 \<Rightarrow> if n = 8 then Ok (DF64 (be_word bytes)) else Err (BinaryError ty)
   | TDate \<Rightarrow> if n = 4 then Ok (DDate \<lparr>days_since_unix_epoch = be_word bytes + 10957\<rparr>)
       else Err (BinaryError ty)
   | TTime \<Rightarrow> if n = 8 then Ok (DTime \<lparr>micros_since_midnight = be_word bytes\<rparr>) else Err (BinaryError ty)
   | TTimestamp \<Rightarrow> if n = 8
       then Ok (DTimestamp \<lparr>micros_since_unix_epoch = be_word bytes + 946684800000000\<rparr>)
       else Err (BinaryError ty)
   | TTimestampTz \<Rightarrow> if n = 8
       then Ok (DTimestampTz \<lparr>tz_micros_since_unix_epoch = be_word bytes + 946684800000000\<rparr>)
       else Err (BinaryError ty)
   | TInterval \<Rightarrow> if n = 16
       then Ok (DInterval \<lparr>months = be_word (drop 12 bytes), days = be_word (take 4 (drop 8 bytes)),
              micros = be_word (take 8 bytes)\<rparr>)
       else Err (BinaryError ty)
   | TUuid \<Rightarrow> if n = 16 then Ok (DUuid (Uuid bytes)) else Err (BinaryError ty)
   | TText \<Rightarrow> Ok (DText bytes)
   | TBytea \<Rightarrow> Ok (DBytea bytes)
   | TJson \<Rightarrow> Ok (DJson bytes)
   | TJsonb \<Rightarrow> (case bytes of b # rest \<Rightarrow> if byte b = 1 then Ok (DJsonb rest) else Err (BinaryError ty)
       | [] \<Rightarrow> Err (BinaryError ty))
   | TNumeric \<Rightarrow> Err (Decode ty ''binary'')
   | TArray _ \<Rightarrow> Err (Decode ty ''binary''))"

fun decode_column_value :: "float_env \<Rightarrow> datum_type \<Rightarrow> column_value \<Rightarrow> (datum, wal_error) result" where
  "decode_column_value fl ty CNull = Ok DNull"
| "decode_column_value fl ty CUnchanged = Ok DUnchanged"
| "decode_column_value fl ty (CText bytes) = decode_text fl ty bytes"
| "decode_column_value fl ty (CBinary bytes) = decode_binary ty bytes"

section \<open>Decoding is type-correct\<close>

fun datum_has_type :: "datum_type \<Rightarrow> datum \<Rightarrow> bool" where
  "datum_has_type TBool d = (case d of DBool _ \<Rightarrow> True | _ \<Rightarrow> False)"
| "datum_has_type TI16 d = (case d of DI16 _ \<Rightarrow> True | _ \<Rightarrow> False)"
| "datum_has_type TI32 d = (case d of DI32 _ \<Rightarrow> True | _ \<Rightarrow> False)"
| "datum_has_type TI64 d = (case d of DI64 _ \<Rightarrow> True | _ \<Rightarrow> False)"
| "datum_has_type TF32 d = (case d of DF32 _ \<Rightarrow> True | _ \<Rightarrow> False)"
| "datum_has_type TF64 d = (case d of DF64 _ \<Rightarrow> True | _ \<Rightarrow> False)"
| "datum_has_type TNumeric d = (case d of DNumeric _ \<Rightarrow> True | _ \<Rightarrow> False)"
| "datum_has_type TText d = (case d of DText _ \<Rightarrow> True | _ \<Rightarrow> False)"
| "datum_has_type TBytea d = (case d of DBytea _ \<Rightarrow> True | _ \<Rightarrow> False)"
| "datum_has_type TDate d = (case d of DDate _ \<Rightarrow> True | _ \<Rightarrow> False)"
| "datum_has_type TTime d = (case d of DTime _ \<Rightarrow> True | _ \<Rightarrow> False)"
| "datum_has_type TTimestamp d = (case d of DTimestamp _ \<Rightarrow> True | _ \<Rightarrow> False)"
| "datum_has_type TTimestampTz d = (case d of DTimestampTz _ \<Rightarrow> True | _ \<Rightarrow> False)"
| "datum_has_type TInterval d = (case d of DInterval _ \<Rightarrow> True | _ \<Rightarrow> False)"
| "datum_has_type TUuid d = (case d of DUuid (Uuid bs) \<Rightarrow> length bs = 16 | _ \<Rightarrow> False)"
| "datum_has_type TJson d = (case d of DJson _ \<Rightarrow> True | _ \<Rightarrow> False)"
| "datum_has_type TJsonb d = (case d of DJsonb _ \<Rightarrow> True | _ \<Rightarrow> False)"
| "datum_has_type (TArray ty) d = (case d of DArray ds \<Rightarrow> list_all (datum_has_type ty) ds | _ \<Rightarrow> False)"

lemma hex_pairs_length: "hex_pairs e s is = Ok bs \<Longrightarrow> length bs = length is"
  unfolding hex_pairs_def by (rule mapr_length)

lemma parse_uuid_length: "parse_uuid s = Ok (Uuid bs) \<Longrightarrow> length bs = 16"
  by (auto simp: parse_uuid_def Let_def rmap_eq_Ok dest: hex_pairs_length split: if_splits)

lemma decode_text_type:
  "decode_text fl ty s = Ok d \<Longrightarrow> datum_has_type ty d"
  "parse_array fl ty s = Ok ds \<Longrightarrow> list_all (datum_has_type ty) ds"
proof (induction fl ty s and fl ty s arbitrary: d and ds rule: decode_text_parse_array.induct)
  case (1 fl ty bytes)
  then show ?case
    by (cases ty)
      (auto simp: decode_text.simps [of fl] rmap_eq_Ok split: if_splits uuid.splits dest: parse_uuid_length)
next
  case (2 fl inner body)
  show ?case
    using "2.prems" 
    by (auto simp: parse_array.simps [of fl] mapr_eq_Ok list_all2_conv_all_nth list_all_length
        split: option.splits if_splits bind_splits intro!: "2.IH")
qed

lemma decode_binary_type: "decode_binary ty s = Ok d \<Longrightarrow> datum_has_type ty d"
  by (cases ty) (auto simp: decode_binary_def Let_def split: if_splits list.splits)


section \<open>Round trips\<close>

fun be_bytes :: "nat \<Rightarrow> nat \<Rightarrow> string" where
  "be_bytes 0 v = []"
| "be_bytes (Suc n) v = be_bytes n (v div 256) @ [char_of (v mod 256)]"

definition word_bytes :: "'a::len word \<Rightarrow> string" where
  "word_bytes w = be_bytes (LENGTH('a) div 8) (unat w)"

lemma length_be_bytes [simp]: "length (be_bytes n v) = n"
  by (induction n arbitrary: v) auto

lemma be_nat_append: "be_nat (xs @ [c]) = be_nat xs * 256 + byte c"
  by (simp add: be_nat_def)

lemma be_nat_be_bytes: "be_nat (be_bytes n v) = v mod 256 ^ n"
proof (induction n arbitrary: v)
  case (Suc n)
  have "v mod 256 ^ Suc n = v mod 256 + 256 * (v div 256 mod 256 ^ n)"
    by (simp add: mod_mult2_eq)
  then show ?case using Suc by (simp add: be_nat_append)
qed (simp add: be_nat_def)

lemma be_word_word_bytes: "8 dvd LENGTH('a) \<Longrightarrow> be_word (word_bytes w) = (w :: 'a::len word)"
proof -
  assume "8 dvd LENGTH('a)"
  then have "(256 :: nat) ^ (LENGTH('a) div 8) = 2 ^ LENGTH('a)"
    by (auto elim!: dvdE simp: power_mult)
  then show ?thesis
    by (simp add: be_word_def word_bytes_def be_nat_be_bytes)
qed

text \<open>The binary representation Postgres sends (\<^verbatim>\<open>typsend\<close>) of the fixed-width types.\<close>

fun pg_send :: "datum \<Rightarrow> string" where
  "pg_send (DBool b) = [char_of (if b then 1 else 0 :: nat)]"
| "pg_send (DI16 w) = word_bytes w"
| "pg_send (DI32 w) = word_bytes w"
| "pg_send (DI64 w) = word_bytes w"
| "pg_send (DF32 w) = word_bytes w"
| "pg_send (DF64 w) = word_bytes w"
| "pg_send (DText s) = s"
| "pg_send (DBytea s) = s"
| "pg_send (DDate d) = word_bytes (days_since_unix_epoch d - 10957)"
| "pg_send (DTime t) = word_bytes (micros_since_midnight t)"
| "pg_send (DTimestamp t) = word_bytes (micros_since_unix_epoch t - 946684800000000)"
| "pg_send (DTimestampTz t) = word_bytes (tz_micros_since_unix_epoch t - 946684800000000)"
| "pg_send (DInterval i) = word_bytes (micros i) @ word_bytes (days i) @ word_bytes (months i)"
| "pg_send (DUuid (Uuid bs)) = bs"
| "pg_send (DJson s) = s"
| "pg_send (DJsonb s) = char_of (1 :: nat) # s"
| "pg_send _ = []"

fun binary_type :: "datum_type \<Rightarrow> bool" where
  "binary_type TNumeric = False"
| "binary_type (TArray _) = False"
| "binary_type _ = True"

lemma word_bytes_length [simp]: "length (word_bytes (w :: 'a::len word)) = LENGTH('a) div 8"
  by (simp add: word_bytes_def)

lemma decode_binary_roundtrip:
  "datum_has_type ty d \<Longrightarrow> binary_type ty \<Longrightarrow> decode_binary ty (pg_send d) = Ok d"
  by (cases ty) (auto simp: decode_binary_def be_word_word_bytes split: datum.splits uuid.splits)

lemma hex_digit_byte: "d < 16 \<Longrightarrow> byte (hex_digit d) = (if d < 10 then 48 + d else 87 + d)"
  by (simp add: hex_digit_def)

lemma digit_val_hex: "d < 16 \<Longrightarrow> digit_val 16 (hex_digit d) = Some d"
  by (auto simp: hex_digit_byte Let_def)

lemma byte_neq: "byte c \<noteq> byte d \<Longrightarrow> c \<noteq> d"
  by auto

lemma hex_digit_neq:
  assumes "d < 16" shows "hex_digit d \<noteq> CHR ''+''" "hex_digit d \<noteq> CHR ''-''" "byte (hex_digit d) < 128"
proof -
  show "hex_digit d \<noteq> CHR ''+''" by (rule byte_neq) (use assms in \<open>simp add: hex_digit_byte\<close>)
  show "hex_digit d \<noteq> CHR ''-''" by (rule byte_neq) (use assms in \<open>simp add: hex_digit_byte\<close>)
  show "byte (hex_digit d) < 128" using assms by (simp add: hex_digit_byte)
qed

lemma byte_nibbles [simp]: "byte b div 16 < 16" "byte b mod 16 < 16"
  using byte_less [of b] by (simp_all add: less_mult_imp_div_less del: byte_less)

lemma parse_u8_hex_byte: "parse_u8 16 (hex_byte b) = Some b"
  by (simp add: parse_u8_def hex_byte_def hex_digit_neq digit_val_hex del: digit_val.simps)

definition hex_string :: "string \<Rightarrow> string" where
  "hex_string bs = concat (map hex_byte bs)"

lemma hex_string_ascii: "c \<in> set (hex_string bs) \<Longrightarrow> byte c < 128 \<and> c \<noteq> CHR ''-''"
  by (auto simp: hex_string_def hex_byte_def hex_digit_neq)

lemma length_hex_string [simp]: "length (hex_string bs) = 2 * length bs"
  by (induction bs) (auto simp: hex_string_def hex_byte_def)

lemma hex_string_pair: "i < length bs \<Longrightarrow> take 2 (drop (2 * i) (hex_string bs)) = hex_byte (bs ! i)"
proof (induction bs arbitrary: i)
  case (Cons b bs)
  then show ?case by (cases i) (auto simp: hex_string_def hex_byte_def)
qed simp

lemma str_slice_ascii:
  "(\<And>c. c \<in> set s \<Longrightarrow> byte c < 128) \<Longrightarrow> i \<le> j \<Longrightarrow> j \<le> length s \<Longrightarrow>
     str_slice s i j = Ok (take (j - i) (drop i s))"
  by (fastforce simp: str_slice_def is_char_boundary_def utf8_cont_def not_le dest: nth_mem)

lemma hex_pairs_hex_string: "hex_pairs e (hex_string bs) [0..<length bs] = Ok bs"
proof -
  have "str_slice (hex_string bs) (2 * i) (2 * i + 2) = (Ok (hex_byte (bs ! i)) :: (string, wal_error) result)" if "i < length bs" for i
    using that hex_string_ascii [of _ bs] by (subst str_slice_ascii) (auto simp: hex_string_pair)
  then show ?thesis
    by (auto simp: hex_pairs_def mapr_eq_Ok list_all2_conv_all_nth parse_u8_hex_byte)
qed

lemma uuid_fmt_filter: "filter (\<lambda>c. c \<noteq> CHR ''-'') (uuid_fmt i bs) = hex_string bs"
  by (induction bs arbitrary: i) (auto simp: hex_string_def hex_byte_def hex_digit_neq)

lemma uuid_fmt_ascii: "c \<in> set (uuid_fmt i bs) \<Longrightarrow> byte c < 128"
  by (induction bs arbitrary: i) (auto simp: hex_byte_def hex_digit_neq split: if_splits)

lemma parse_uuid_roundtrip:
  assumes "length bs = 16" shows "parse_uuid (uuid_to_string (Uuid bs)) = Ok (Uuid bs)"
proof -
  have "utf8_chars (uuid_fmt 0 bs) = map (\<lambda>b. [b]) (uuid_fmt 0 bs)"
    by (rule utf8_chars_ascii) (auto simp: list_all_iff uuid_fmt_ascii)
  then have "concat (filter (\<lambda>ch. ch \<noteq> ''-'') (utf8_chars (uuid_fmt 0 bs))) = hex_string bs"
    by (simp add: filter_map comp_def uuid_fmt_filter)
  then show ?thesis
    using assms hex_pairs_hex_string [of _ bs] by (simp add: parse_uuid_def)
qed

lemma parse_text_bytea_roundtrip: "parse_text_bytea (CHR 0x5C # CHR ''x'' # hex_string bs) = Ok bs"
  using hex_pairs_hex_string [of _ bs] by (simp add: parse_text_bytea_def)

fun pg_text :: "datum \<Rightarrow> string" where
  "pg_text (DBool b) = (if b then ''t'' else ''f'')"
| "pg_text (DI16 w) = show_int (sint w)"
| "pg_text (DI32 w) = show_int (sint w)"
| "pg_text (DI64 w) = show_int (sint w)"
| "pg_text (DNumeric n) = (case n of BigDecimal s \<Rightarrow> s)"
| "pg_text (DText s) = s"
| "pg_text (DBytea s) = CHR 0x5C # CHR ''x'' # hex_string s"
| "pg_text (DUuid u) = uuid_to_string u"
| "pg_text (DJson s) = s"
| "pg_text (DJsonb s) = s"
| "pg_text _ = []"

lemma show_int_ascii: "c \<in> set (show_int i) \<Longrightarrow> byte c < 128"
  using show_nat_digits by (fastforce simp: show_int_def split: if_splits)

lemma utf8_valid_asciiI: "(\<And>c. c \<in> set s \<Longrightarrow> byte c < 128) \<Longrightarrow> utf8_valid s"
  by (rule utf8_valid_ascii) (auto simp: list_all_iff)

lemma utf8_valid_show_int: "utf8_valid (show_int i)"
  by (rule utf8_valid_asciiI) (rule show_int_ascii)

lemma decode_text_roundtrip:
  assumes "datum_has_type ty d" "utf8_valid (pg_text d)"
    "ty \<in> {TBool, TI16, TI32, TI64, TNumeric, TText, TBytea, TUuid, TJson, TJsonb}"
  shows "decode_text fl ty (pg_text d) = Ok d"
  using assms
  by (auto simp: decode_text.simps parse_signed_show_int parse_uuid_roundtrip parse_text_bytea_roundtrip
      simp del: uuid_to_string.simps split: datum.splits uuid.splits big_decimal.splits)

section \<open>The calendar\<close>

definition is_leap :: "int \<Rightarrow> bool" where
  "is_leap y = (4 dvd y \<and> (\<not> 100 dvd y \<or> 400 dvd y))"

definition month_length :: "int \<Rightarrow> int \<Rightarrow> int" where
  "month_length y m = (if m = 2 then (if is_leap y then 29 else 28)
     else if m \<in> {4, 6, 9, 11} then 30 else 31)"

definition year_length :: "int \<Rightarrow> int" where
  "year_length y = (if is_leap y then 366 else 365)"

definition gregorian_days :: "int \<Rightarrow> int \<Rightarrow> int \<Rightarrow> int" where
  "gregorian_days y m d =
     (if 1970 \<le> y then \<Sum>i \<in> {1970..<y}. year_length i else - (\<Sum>i \<in> {y..<1970}. year_length i))
     + (\<Sum>k \<in> {1..<m}. month_length y k) + d - 1"

definition year_start :: "int \<Rightarrow> int" where
  "year_start y = 365 * y + y div 4 - y div 100 + y div 400"

lemma year_start_era:
  "(y div 400) * 146097 + ((y mod 400) * 365 + (y mod 400) div 4 - (y mod 400) div 100) = year_start y"
proof -
  define q r where "q = y div 400" and "r = y mod 400"
  have y: "y = r + 400 * q" by (simp add: q_def r_def)
  have "(r + 4 * (100 * q)) div 4 = r div 4 + 100 * q"
    and "(r + 100 * (4 * q)) div 100 = r div 100 + 4 * q" by simp_all
  moreover have "r + 4 * (100 * q) = y" "r + 100 * (4 * q) = y" using y by simp_all
  ultimately have "y div 4 = r div 4 + 100 * q" "y div 100 = r div 100 + 4 * q" by (simp_all only:)
  then show ?thesis
    unfolding year_start_def q_def [symmetric] r_def [symmetric] using y by linarith
qed

lemma div_pred:
  assumes "0 < k" shows "(y :: int) div k = (y - 1) div k + (if k dvd y then 1 else 0)"
proof (cases "k dvd y")
  case True
  then have "k * (y div k) = y" by simp
  then have "y - 1 = k * (y div k - 1) + (k - 1)" by (simp add: right_diff_distrib)
  then have "(y - 1) div k = y div k - 1" using assms by (intro int_div_pos_eq [where r = "k - 1"]) auto
  then show ?thesis using True by simp
next
  case False
  then have "0 < y mod k" using assms by (simp add: order.not_eq_order_implies_strict dvd_eq_mod_eq_0)
  then have "(y - 1) div k = y div k"
    using assms pos_mod_bound [OF assms, of y]
    by (intro int_div_pos_eq [where r = "y mod k - 1"]) (simp, linarith+)
  then show ?thesis using False by simp
qed

lemma dvd_100_400: "400 dvd y \<Longrightarrow> 100 dvd (y :: int)" "100 dvd y \<Longrightarrow> 4 dvd (y :: int)"
  using dvd_trans [of 100 400 y] dvd_trans [of 4 100 y] by simp_all

lemma year_start_step: "year_start y = year_start (y - 1) + year_length y"
proof -
  have sums: "365 * y + a - b + c - (365 * (y - 1) + a' - b' + c') = 365 + p - q + r"
    if "a = a' + p" "b = b' + q" "c = c' + r" for a b c a' b' c' p q r :: int
    using that by simp
  have "y div 4 = (y - 1) div 4 + (if 4 dvd y then 1 else 0)"
    "y div 100 = (y - 1) div 100 + (if 100 dvd y then 1 else 0)"
    "y div 400 = (y - 1) div 400 + (if 400 dvd y then 1 else 0)"
    by (rule div_pred, simp)+
  then have "year_start y - year_start (y - 1) =
      365 + (if 4 dvd y then 1 else 0) - (if 100 dvd y then 1 else 0) + (if 400 dvd y then 1 else 0)"
    unfolding year_start_def by (rule sums)
  then show ?thesis
    using dvd_100_400 [of y] unfolding year_length_def is_leap_def
    by (cases "4 dvd y"; cases "100 dvd y"; cases "400 dvd y") simp_all
qed

text \<open>The closed form the code computes, over the integers.\<close>

definition civil_days :: "int \<Rightarrow> int \<Rightarrow> int \<Rightarrow> int" where
  "civil_days y m d = year_start (if m \<le> 2 then y - 1 else y)
     + ((153 * (m + (if 2 < m then - 3 else 9)) + 2) div 5 + d - 1) - 719468"

lemma month_cases:
  assumes "1 \<le> m" "m \<le> (12 :: int)"
  obtains "m = 1" | "m = 2" | "m = 3" | "m = 4" | "m = 5" | "m = 6" | "m = 7" | "m = 8" | "m = 9"
    | "m = 10" | "m = 11" | "m = 12"
  using assms by atomize_elim presburger

lemma civil_days_month:
  assumes "1 \<le> m" "m \<le> 11"
  shows "civil_days y (m + 1) 1 = civil_days y m 1 + month_length y m"
proof -
  have "m \<le> 12" using assms by simp
  from assms(1) this show ?thesis
    by (cases rule: month_cases)
      (use assms in \<open>auto simp: civil_days_def month_length_def year_start_step [of y] year_length_def\<close>)
qed

lemma civil_days_year: "civil_days (y + 1) 1 1 = civil_days y 1 1 + year_length y"
  by (simp add: civil_days_def year_start_step [of y])

lemma sum_months:
  assumes "1 \<le> m" "m \<le> 12"
  shows "(\<Sum>k \<in> {1..<m}. month_length y k) = civil_days y m 1 - civil_days y 1 1"
proof -
  have "m \<le> 12 \<longrightarrow> (\<Sum>k \<in> {1..<m}. month_length y k) = civil_days y m 1 - civil_days y 1 1"
    using assms(1)
  proof (induction m rule: int_ge_induct)
    case (step i)
    have "{1..<i + 1} = insert i {1..<i}" using step by auto
    then show ?case using step civil_days_month [of i y] by auto
  qed simp
  then show ?thesis using assms by simp
qed

lemma year_length_sum:
  "a \<le> b \<Longrightarrow> (\<Sum>i \<in> {a..<b}. year_length i) = civil_days b 1 1 - civil_days a 1 1"
proof (induction b rule: int_ge_induct)
  case (step i)
  have "{a..<i + 1} = insert i {a..<i}" using step by auto
  then show ?case using step civil_days_year [of i] by auto
qed simp

lemma civil_days_gregorian:
  assumes "1 \<le> m" "m \<le> 12" shows "civil_days y m d = gregorian_days y m d"
proof -
  have "civil_days 1970 1 1 = 0" by (simp add: civil_days_def year_start_def)
  moreover have "civil_days y m d = civil_days y m 1 + d - 1" by (simp add: civil_days_def)
  ultimately show ?thesis
    using sum_months [OF assms, of y] year_length_sum [of 1970 y] year_length_sum [of y 1970]
    unfolding gregorian_days_def by (cases "1970 \<le> y") simp_all
qed

lemma sint_word_of_int_small:
  "- (2 ^ 31) \<le> i \<Longrightarrow> i < 2 ^ 31 \<Longrightarrow> sint (word_of_int i :: 32 word) = i"
  by (simp add: sint_sbintrunc' signed_take_bit_int_eq_self)


lemma sdivw_of_int:
  "- (2 ^ 31) \<le> a \<Longrightarrow> a < 2 ^ 31 \<Longrightarrow> - (2 ^ 31) \<le> b \<Longrightarrow> b < 2 ^ 31 \<Longrightarrow>
     sdivw (word_of_int a :: 32 word) (word_of_int b) = word_of_int (a sdiv b)"
  by (simp add: sdivw_def sint_word_of_int_small)

lemma era_floor: "(if 0 \<le> y then y else y - 399) sdiv 400 = (y :: int) div 400"
proof (cases "0 \<le> y")
  case False
  have "(399 - y) div 400 = - (y div 400)" 
    using pos_mod_bound [of 400 y] pos_mod_sign [of 400 y]
    by (intro int_div_pos_eq [where r = "399 - y mod 400"]) (simp_all add: minus_mod_eq_mult_div [symmetric])
  then show ?thesis using False by (simp add: signed_divide_int_def sgn_if)
qed (simp add: signed_divide_int_def sgn_if)

lemma days_from_civil_int:
  assumes y: "- 5000000 \<le> y" "y \<le> 5000000" and m: "1 \<le> m" "m \<le> 12" and d: "1 \<le> d" "d \<le> 31"
  shows "days_from_civil (word_of_int y) (word_of_int m) (word_of_int d) = Ok (word_of_int (civil_days y m d))"
proof -
  define y' where "y' = (if m \<le> 2 then y - 1 else y)"
  define m' where "m' = m + (if 2 < m then - 3 else 9)"
  have y': "- 5000001 \<le> y'" "y' \<le> 5000000" using y by (auto simp: y'_def)
  have m': "0 \<le> m'" "m' \<le> 11" using m by (auto simp: m'_def)
  have wm: "(word_of_int m :: 32 word) \<le> 2 \<longleftrightarrow> m \<le> 2" "sint (word_of_int m :: 32 word) = m"
    "unat (word_of_int m :: 32 word) < 2 ^ 31" "unat (word_of_int d :: 32 word) < 2 ^ 31"
    using m d by (simp_all add: word_le_def uint_word_of_int_eq sint_word_of_int_small
        unat_eq_nat_uint take_bit_int_eq_self nat_less_iff)
  have e: "sdivw (if 0 \<le> sint (word_of_int y' :: 32 word) then word_of_int y' else word_of_int y' - 399) 400
      = (word_of_int (y' div 400) :: 32 word)"
    using y' era_floor [of y'] sdivw_of_int [of y' 400] sdivw_of_int [of "y' - 399" 400]
    by (simp add: sint_word_of_int_small split: if_splits)
  have r: "word_of_int y' - word_of_int (y' div 400) * 400 = (word_of_int (y' mod 400) :: 32 word)"
    using arg_cong [OF minus_div_mult_eq_mod [of y' 400], of "word_of_int :: int \<Rightarrow> 32 word"] by simp
  have b: "0 \<le> y' mod 400" "y' mod 400 < 400" by simp_all
  have q: "sdivw (word_of_int (y' mod 400) :: 32 word) 4 = word_of_int (y' mod 400 div 4)"
    "sdivw (word_of_int (y' mod 400) :: 32 word) 100 = word_of_int (y' mod 400 div 100)"
    using b sdivw_of_int [of "y' mod 400" 4] sdivw_of_int [of "y' mod 400" 100]
    by (simp_all add: signed_divide_int_def sgn_if del: pos_mod_bound)
  have v: "sdivw (153 * word_of_int m' + 2) 5 = (word_of_int ((153 * m' + 2) div 5) :: 32 word)"
    using m' sdivw_of_int [of "153 * m' + 2" 5] by (simp add: signed_divide_int_def sgn_if)
  have s: "word_of_int y - (if m \<le> 2 then 1 else 0) = (word_of_int y' :: 32 word)"
    "word_of_int m + (if 2 < m then - 3 else 9) = (word_of_int m' :: 32 word)"
    by (simp_all add: y'_def m'_def)
  have "civil_days y m d = (y' div 400) * 146097
      + ((y' mod 400) * 365 + (y' mod 400) div 4 - (y' mod 400) div 100 + ((153 * m' + 2) div 5 + d - 1)) - 719468"
    using year_start_era [of y'] by (simp add: civil_days_def y'_def m'_def)
  then show ?thesis
    using wm by (simp only: days_from_civil_def Let_def s e r q v wm if_True simp_thms) simp
qed

lemma year_start_bounds:
  assumes "- 5000001 \<le> y" "y \<le> 5000000"
  shows "- 1840000000 \<le> year_start y" "year_start y \<le> 1840000000"
proof -
  have "- 1250001 \<le> y div 4" "y div 4 \<le> 1250000" "- 50001 \<le> y div 100" "y div 100 \<le> 50000"
    "- 12501 \<le> y div 400" "y div 400 \<le> 12500"
    using assms zdiv_mono1 [of "- 5000001" y 4] zdiv_mono1 [of y 5000000 4]
      zdiv_mono1 [of "- 5000001" y 100] zdiv_mono1 [of y 5000000 100]
      zdiv_mono1 [of "- 5000001" y 400] zdiv_mono1 [of y 5000000 400] by simp_all
  then show "- 1840000000 \<le> year_start y" "year_start y \<le> 1840000000"
    using assms unfolding year_start_def by linarith+
qed

lemma month_length_le: "month_length y m \<le> 31"
  by (simp add: month_length_def)

text \<open>C39: \<^verbatim>\<open>days_from_civil\<close> is the proleptic Gregorian calendar.  For every valid date of the years
  -5000000 to 5000000 it returns, without overflow, the number of days from 1970-01-01 counted
  by whole years and months.\<close>

theorem days_from_civil_gregorian:
  assumes "- 5000000 \<le> sint y" "sint y \<le> 5000000" "1 \<le> uint m" "uint m \<le> 12"
    "1 \<le> uint d" "uint d \<le> month_length (sint y) (uint m)"
  shows "\<exists>r. days_from_civil y m d = Ok r \<and> sint r = gregorian_days (sint y) (uint m) (uint d)"
proof -
  define Y M D where "Y = sint y" and "M = uint m" and "D = uint d"
  have w: "y = word_of_int Y" "m = word_of_int M" "d = word_of_int D"
    by (simp_all add: Y_def M_def D_def)
  have b: "- 5000000 \<le> Y" "Y \<le> 5000000" "1 \<le> M" "M \<le> 12" "1 \<le> D" "D \<le> 31"
    using assms month_length_le [of Y M] by (simp_all add: Y_def M_def D_def)
  define x where "x = 153 * (M + (if 2 < M then - 3 else 9)) + 2"
  have "2 \<le> x" "x \<le> 1685" using b by (auto simp: x_def)
  then have "0 \<le> x div 5" "x div 5 \<le> 337"
    using zdiv_mono1 [of 2 x 5] zdiv_mono1 [of x 1685 5] by simp_all
  then have "- 2147483648 \<le> civil_days Y M D" "civil_days Y M D < 2147483648"
    using b year_start_bounds [of "if M \<le> 2 then Y - 1 else Y"] unfolding civil_days_def x_def [symmetric]
    by (auto split: if_splits)
  then have "sint (word_of_int (civil_days Y M D) :: 32 word) = civil_days Y M D"
    by (intro sint_word_of_int_small) simp_all
  then show ?thesis
    using days_from_civil_int [of Y M D] b civil_days_gregorian [of M Y D]
    by (simp add: w [symmetric] Y_def M_def D_def)
qed

theorem days_from_civil_gregorian_witness:
  "\<exists>r. days_from_civil 2024 2 29 = Ok r \<and> sint r = gregorian_days 2024 2 29"
  using days_from_civil_gregorian [of 2024 2 29] by (simp add: month_length_def is_leap_def)

section \<open>Corner cases of the text format\<close>

lemmas text_eval_simps = split_whitespace_def is_whitespace_def utf8_width_def utf8_valid_def utf8_char_ok_def
  parse_signed_def parse_unsigned_def Let_def utf8_cont_def
  decode_text.simps parse_array.simps strip_suffix_def trim_matches_def

text \<open>The sign of an interval below one hour is lost, and minutes are added to negative hours.\<close>

lemma parse_interval_loses_sign: "parse_interval ''-00:30:00'' = Ok \<lparr>months = 0, days = 0, micros = 1800000000\<rparr>"
  by (simp add: parse_interval_def parse_hms_micros_def parse_seconds_def text_eval_simps)
text \<open>Postgres prints months as \<^verbatim>\<open>mon\<close>, which is not a known unit.\<close>

lemma parse_interval_rejects_months: "parse_interval ''1 mon'' = Err (IntervalError ''1 mon'')"
  by (simp add: parse_interval_def parse_hms_micros_def parse_seconds_def text_eval_simps starts_with_def)
text \<open>A month that does not fit \<^verbatim>\<open>i32\<close> reaches the \<^verbatim>\<open>expect\<close> of \<^verbatim>\<open>days_from_civil\<close>.\<close>

lemma decode_date_panics: "decode_text fl TDate ''2000-4000000000-01'' = Panic"
  by (simp add: parse_date_def parse_ymd_def days_from_civil_def text_eval_simps)
text \<open>Array elements are split at every comma, quoted or not, and \<^verbatim>\<open>NULL\<close> elements are text.\<close>

lemma decode_array_splits_quoted_comma: "decode_text fl (TArray TText) (''{'' @ [CHR 0x22] @ ''a,b'' @ [CHR 0x22] @ ''}'') = Ok (DArray [DText ''a'', DText ''b''])"
  by (simp add: text_eval_simps)
lemma decode_array_null_element: "decode_text fl (TArray TText) ''{NULL}'' = Ok (DArray [DText ''NULL''])"
  by (simp add: text_eval_simps)

text \<open>A character of three bytes that straddles an even offset is sliced in the middle.\<close>

lemma decode_uuid_panics:
  "decode_text fl TUuid (''0'' @ [CHR 0xE2, CHR 0x82, CHR 0xAC] @ replicate 28 (CHR ''0'')) = Panic"
  by (simp add: parse_uuid_def hex_pairs_def str_slice_def is_char_boundary_def upt_rec numeral_eq_Suc text_eval_simps)

section \<open>Properties\<close>

text \<open>C29: decoding a column value is type-correct.  A NULL and an unchanged TOAST marker decode to
  themselves and to nothing else; every other successful decode, in text or binary format, gives a
  datum of the declared column type, arrays element by element and UUIDs of exactly 16 bytes.\<close>

theorem decode_column_value_type:
  "decode_column_value fl ty v = Ok d \<Longrightarrow>
     (case v of CNull \<Rightarrow> d = DNull | CUnchanged \<Rightarrow> d = DUnchanged | _ \<Rightarrow> datum_has_type ty d)"
  by (cases v) (auto simp: decode_text_type decode_binary_type)

theorem decode_column_value_type_witness:
  "datum_has_type (TArray TI32) (DArray [DI32 1, DI32 (- 2)])"
  using decode_column_value_type
    [of "\<lparr>parse_f32 = \<lambda>_. None, parse_f64 = \<lambda>_. None\<rparr>" "TArray TI32" "CText ''{1,-2}''" "DArray [DI32 1, DI32 (- 2)]"]
  by (simp add: text_eval_simps)



end
