(* ===== verification/Wal_Protocol.thy ===== *)
theory Wal_Protocol
  imports Wal_Datum
begin

text \<open>
  The relation catalog (\<^verbatim>\<open>palimpsest-wal/src/catalog.rs\<close>) and the decoder of the logical
  replication protocol (\<^verbatim>\<open>palimpsest-wal/src/protocol.rs\<close>).  A decoder maps the unread bytes to a
  value and the bytes that remain; \<^verbatim>\<open>decode_pgoutput_message\<close> also returns the catalog, which a
  relation message updates even when the message is rejected afterwards.
\<close>

section \<open>Catalog\<close>

datatype replica_identity = RIDefault | RINothing | RIFull | RIIndex

fun replica_identity_try_from :: "char \<Rightarrow> (replica_identity, wal_error) result" where
  "replica_identity_try_from v = (if v = CHR ''d'' then Ok RIDefault else if v = CHR ''n'' then Ok RINothing
     else if v = CHR ''f'' then Ok RIFull else if v = CHR ''i'' then Ok RIIndex
     else Err (Malformed ''unknown replica identity''))"

record relation_schema =
  rs_table :: table_id
  rs_namespace :: string
  rs_name :: string
  rs_replica_identity :: replica_identity
  rs_columns :: "column_def list"

record catalog =
  relations :: "(table_id, relation_schema) btree"

definition catalog_new :: catalog where
  "catalog_new = \<lparr>relations = []\<rparr>"

definition upsert_relation :: "relation_schema \<Rightarrow> catalog \<Rightarrow> catalog" where
  "upsert_relation r c = c\<lparr>relations := bt_insert (rs_table r) r (relations c)\<rparr>"

definition remove_relation :: "table_id \<Rightarrow> catalog \<Rightarrow> relation_schema option \<times> catalog" where
  "remove_relation t c = (map_of (relations c) t, c\<lparr>relations := bt_remove t (relations c)\<rparr>)"

definition relation :: "catalog \<Rightarrow> table_id \<Rightarrow> relation_schema option" where
  "relation c t = map_of (relations c) t"

definition type_or_text :: "u32 \<Rightarrow> datum_type" where
  "type_or_text oid = (case stock_postgres_16_type oid of None \<Rightarrow> TText | Some ty \<Rightarrow> ty)"

definition column_from_pgoutput :: "char \<Rightarrow> string \<Rightarrow> u32 \<Rightarrow> column_def" where
  "column_from_pgoutput flags name oid =
     \<lparr>cd_name = name, type_oid = oid, cd_datum_type = type_or_text oid, nullable = True, key = odd (byte flags)\<rparr>"

record catalog_probe_row =
  pr_table_oid :: u32
  pr_namespace :: string
  pr_table_name :: string
  pr_replica_identity :: replica_identity
  pr_column_name :: string
  pr_type_oid :: u32
  pr_attnum :: i16
  pr_nullable :: bool
  pr_primary_key :: bool

record probe_relation =
  pb_table :: table_id
  pb_namespace :: string
  pb_name :: string
  pb_replica_identity :: replica_identity
  pb_columns :: "(i16 \<times> column_def) list"

definition probe_column :: "catalog_probe_row \<Rightarrow> column_def" where
  "probe_column row = \<lparr>cd_name = pr_column_name row, type_oid = pr_type_oid row,
     cd_datum_type = type_or_text (pr_type_oid row), nullable = pr_nullable row, key = pr_primary_key row\<rparr>"

definition group_probe_row ::
  "catalog_probe_row \<Rightarrow> (table_id, probe_relation) btree \<Rightarrow> (table_id, probe_relation) btree" where
  "group_probe_row row g = (
     let t = pr_table_oid row;
         p = (case map_of g t of Some p \<Rightarrow> p
              | None \<Rightarrow> \<lparr>pb_table = t, pb_namespace = pr_namespace row, pb_name = pr_table_name row,
                         pb_replica_identity = pr_replica_identity row, pb_columns = []\<rparr>)
     in bt_insert t (p\<lparr>pb_columns := pb_columns p @ [(pr_attnum row, probe_column row)]\<rparr>) g)"

definition probe_to_schema :: "probe_relation \<Rightarrow> relation_schema" where
  "probe_to_schema p = \<lparr>rs_table = pb_table p, rs_namespace = pb_namespace p, rs_name = pb_name p,
     rs_replica_identity = pb_replica_identity p,
     rs_columns = map snd (sort_key (\<lambda>(attnum, _). sint attnum) (pb_columns p))\<rparr>"

definition load_catalog_from_probe_rows :: "catalog_probe_row list \<Rightarrow> catalog" where
  "load_catalog_from_probe_rows rows =
     fold (\<lambda>(_, p). upsert_relation (probe_to_schema p)) (fold group_probe_row rows []) catalog_new"

section \<open>Decoded events\<close>

datatype row_op = Insert | Update | Delete

record truncate =
  tr_tables :: "table_id list"
  cascade :: bool
  restart_identity :: bool

record type_info =
  ti_oid :: u32
  ti_namespace :: string
  ti_name :: string

datatype stream_action =
    StreamStart u32 bool
  | StreamStop
  | StreamCommit u32 lsn lsn
  | StreamAbort u32 u32

datatype two_phase_action =
    BeginPrepare u32 string
  | Prepare u32 string
  | CommitPrepared u32 string
  | RollbackPrepared u32 string

datatype decoded_event =
    EvBegin u32 lsn
  | EvRow table_id row_op "tuple option" "tuple option"
  | EvCommit lsn lsn
  | EvSchema table_id "column_def list"
  | EvHeartbeat lsn
  | EvReconnect u32
  | EvResync lsn
  | EvTruncate truncate
  | EvOrigin lsn string
  | EvType type_info
  | EvStream stream_action
  | EvTwoPhase two_phase_action

section \<open>Byte decoder\<close>

type_synonym 'a decoder = "string \<Rightarrow> ('a \<times> string, wal_error) result"

definition dreturn :: "'a \<Rightarrow> 'a decoder" where
  "dreturn x bs = Ok (x, bs)"

definition dbind :: "'a decoder \<Rightarrow> ('a \<Rightarrow> 'b decoder) \<Rightarrow> 'b decoder" where
  "dbind d f bs = rbind (d bs) (\<lambda>(x, rest). f x rest)"

definition dlift :: "('a, wal_error) result \<Rightarrow> 'a decoder" where
  "dlift r bs = rmap (\<lambda>x. (x, bs)) r"

fun drepeat :: "nat \<Rightarrow> 'a decoder \<Rightarrow> 'a list decoder" where
  "drepeat 0 d = dreturn []"
| "drepeat (Suc n) d = dbind d (\<lambda>x. dbind (drepeat n d) (\<lambda>xs. dreturn (x # xs)))"

fun dmap :: "('c \<Rightarrow> 'a decoder) \<Rightarrow> 'c list \<Rightarrow> 'a list decoder" where
  "dmap d [] = dreturn []"
| "dmap d (c # cs) = dbind (d c) (\<lambda>x. dbind (dmap d cs) (\<lambda>xs. dreturn (x # xs)))"

definition dec_take :: "nat \<Rightarrow> string \<Rightarrow> string decoder" where
  "dec_take n context bs = (if length bs < n then Err (UnexpectedEof context) else Ok (take n bs, drop n bs))"

definition dec_u8 :: "string \<Rightarrow> char decoder" where
  "dec_u8 context = dbind (dec_take 1 context) (\<lambda>b. dreturn (hd b))"

definition dec_u16 :: "string \<Rightarrow> 16 word decoder" where
  "dec_u16 context = dbind (dec_take 2 context) (\<lambda>b. dreturn (be_word b))"

definition dec_u32 :: "string \<Rightarrow> u32 decoder" where
  "dec_u32 context = dbind (dec_take 4 context) (\<lambda>b. dreturn (be_word b))"

definition dec_u64 :: "string \<Rightarrow> u64 decoder" where
  "dec_u64 context = dbind (dec_take 8 context) (\<lambda>b. dreturn (be_word b))"

definition dec_bytes_i32 :: "string \<Rightarrow> string decoder" where
  "dec_bytes_i32 context = dbind (dec_u32 context) (\<lambda>n. dec_take (unat n) context)"

definition dec_cstr :: "string \<Rightarrow> string decoder" where
  "dec_cstr context bs = (case split_once (CHR 0x00) bs of
     None \<Rightarrow> Err (UnexpectedEof context)
   | Some (v, rest) \<Rightarrow> if utf8_valid v then Ok (v, rest) else Err Utf8)"

definition dec_expect_tag :: "char \<Rightarrow> string \<Rightarrow> unit decoder" where
  "dec_expect_tag expected context = dbind (dec_u8 context) (\<lambda>actual.
     if actual = expected then dreturn () else dlift (Err (Malformed context)))"

section \<open>Messages\<close>

definition decode_column :: "column_def decoder" where
  "decode_column = dbind (dec_u8 ''relation column flags'') (\<lambda>flags.
     dbind (dec_cstr ''relation column name'') (\<lambda>name.
     dbind (dec_u32 ''relation column type oid'') (\<lambda>oid.
     dbind (dec_u32 ''relation column type modifier'') (\<lambda>_.
       dreturn (column_from_pgoutput flags name oid)))))"

definition decode_relation :: "relation_schema decoder" where
  "decode_relation = dbind (dec_u32 ''relation id'') (\<lambda>table.
     dbind (dec_cstr ''relation namespace'') (\<lambda>namespace.
     dbind (dec_cstr ''relation name'') (\<lambda>name.
     dbind (dec_u8 ''relation replica identity'') (\<lambda>ri.
     dbind (dlift (replica_identity_try_from ri)) (\<lambda>identity.
     dbind (dec_u16 ''relation column count'') (\<lambda>count.
     dbind (drepeat (unat count) decode_column) (\<lambda>columns.
       dreturn \<lparr>rs_table = table, rs_namespace = namespace, rs_name = name,
         rs_replica_identity = identity, rs_columns = columns\<rparr>)))))))"

definition decode_value :: "column_value decoder" where
  "decode_value = dbind (dec_u8 ''tuple column kind'') (\<lambda>k.
     if k = CHR ''n'' then dreturn CNull
     else if k = CHR ''u'' then dreturn CUnchanged
     else if k = CHR ''t'' then dbind (dec_bytes_i32 ''tuple text column'') (\<lambda>b. dreturn (CText b))
     else if k = CHR ''b'' then dbind (dec_bytes_i32 ''tuple binary column'') (\<lambda>b. dreturn (CBinary b))
     else dlift (Err (Malformed ''unknown tuple column kind'')))"

definition decode_tuple :: "float_env \<Rightarrow> catalog \<Rightarrow> table_id \<Rightarrow> tuple decoder" where
  "decode_tuple fl c table = dbind (dlift (ok_or (UnknownRelation table) (relation c table))) (\<lambda>rel.
     dbind (dec_u16 ''tuple column count'') (\<lambda>count.
       if length (rs_columns rel) \<noteq> unat count
       then dlift (Err (TupleArity table (length (rs_columns rel)) (unat count)))
       else dmap (\<lambda>column. dbind decode_value (\<lambda>v.
              dlift (decode_column_value fl (cd_datum_type column) v))) (rs_columns rel)))"

definition decode_insert :: "float_env \<Rightarrow> catalog \<Rightarrow> decoded_event decoder" where
  "decode_insert fl c = dbind (dec_u32 ''insert relation id'') (\<lambda>table.
     dbind (dec_expect_tag (CHR ''N'') ''insert new tuple'') (\<lambda>_.
     dbind (decode_tuple fl c table) (\<lambda>new. dreturn (EvRow table Insert None (Some new)))))"

definition decode_update :: "float_env \<Rightarrow> catalog \<Rightarrow> decoded_event decoder" where
  "decode_update fl c = dbind (dec_u32 ''update relation id'') (\<lambda>table.
     dbind (dec_u8 ''update tuple marker'') (\<lambda>marker.
     dbind (if marker = CHR ''K'' \<or> marker = CHR ''O''
            then dbind (decode_tuple fl c table) (\<lambda>old.
                 dbind (dec_expect_tag (CHR ''N'') ''update new tuple'') (\<lambda>_. dreturn (Some old)))
            else if marker = CHR ''N'' then dreturn None
            else dlift (Err (Malformed ''unexpected update tuple marker''))) (\<lambda>old.
     dbind (decode_tuple fl c table) (\<lambda>new. dreturn (EvRow table Update old (Some new))))))"

definition decode_delete :: "float_env \<Rightarrow> catalog \<Rightarrow> decoded_event decoder" where
  "decode_delete fl c = dbind (dec_u32 ''delete relation id'') (\<lambda>table.
     dbind (dec_u8 ''delete tuple marker'') (\<lambda>marker.
       if marker = CHR ''K'' \<or> marker = CHR ''O''
       then dbind (decode_tuple fl c table) (\<lambda>old. dreturn (EvRow table Delete (Some old) None))
       else dlift (Err (Malformed ''unexpected delete tuple marker''))))"

definition decode_truncate :: "decoded_event decoder" where
  "decode_truncate = dbind (dec_u32 ''truncate relation count'') (\<lambda>count.
     dbind (dec_u8 ''truncate options'') (\<lambda>options.
     dbind (drepeat (unat count) (dec_u32 ''truncate relation id'')) (\<lambda>tables.
       dreturn (EvTruncate \<lparr>tr_tables = tables, cascade = odd (byte options),
         restart_identity = odd (byte options div 2)\<rparr>))))"

definition decode_prepare_prefix :: "u32 decoder" where
  "decode_prepare_prefix = dbind (dec_u8 ''two-phase flags'') (\<lambda>_.
     dbind (dec_u64 ''two-phase prepare lsn'') (\<lambda>_. dbind (dec_u64 ''two-phase end lsn'') (\<lambda>_.
     dbind (dec_u64 ''two-phase timestamp'') (\<lambda>_. dec_u32 ''two-phase xid''))))"

definition decode_two_phase :: "(u32 \<Rightarrow> string \<Rightarrow> two_phase_action) \<Rightarrow> string \<Rightarrow> decoded_event decoder" where
  "decode_two_phase act context = dbind decode_prepare_prefix (\<lambda>xid.
     dbind (dec_cstr context) (\<lambda>gid. dreturn (EvTwoPhase (act xid gid))))"

definition decode_body :: "float_env \<Rightarrow> catalog \<Rightarrow> char \<Rightarrow> decoded_event decoder" where
  "decode_body fl c tag = (
     if tag = CHR ''B'' then dbind (dec_u64 ''begin final lsn'') (\<lambda>commit_lsn.
       dbind (dec_u64 ''begin commit timestamp'') (\<lambda>_.
       dbind (dec_u32 ''begin xid'') (\<lambda>xid. dreturn (EvBegin xid commit_lsn))))
     else if tag = CHR ''C'' then dbind (dec_u8 ''commit flags'') (\<lambda>_.
       dbind (dec_u64 ''commit lsn'') (\<lambda>commit_lsn. dbind (dec_u64 ''commit end lsn'') (\<lambda>end_lsn.
       dbind (dec_u64 ''commit timestamp'') (\<lambda>_. dreturn (EvCommit commit_lsn end_lsn)))))
     else if tag = CHR ''R'' then dbind decode_relation (\<lambda>r. dreturn (EvSchema (rs_table r) (rs_columns r)))
     else if tag = CHR ''Y'' then dbind (dec_u32 ''type oid'') (\<lambda>oid.
       dbind (dec_cstr ''type namespace'') (\<lambda>namespace. dbind (dec_cstr ''type name'') (\<lambda>name.
         dreturn (EvType \<lparr>ti_oid = oid, ti_namespace = namespace, ti_name = name\<rparr>))))
     else if tag = CHR ''I'' then decode_insert fl c
     else if tag = CHR ''U'' then decode_update fl c
     else if tag = CHR ''D'' then decode_delete fl c
     else if tag = CHR ''T'' then decode_truncate
     else if tag = CHR ''O'' then dbind (dec_u64 ''origin lsn'') (\<lambda>lsn.
       dbind (dec_cstr ''origin name'') (\<lambda>name. dreturn (EvOrigin lsn name)))
     else if tag = CHR ''S'' then dbind (dec_u32 ''stream xid'') (\<lambda>xid.
       dbind (dec_u8 ''stream flags'') (\<lambda>flags. dreturn (EvStream (StreamStart xid (odd (byte flags))))))
     else if tag = CHR ''E'' then dreturn (EvStream StreamStop)
     else if tag = CHR ''c'' then dbind (dec_u32 ''stream commit xid'') (\<lambda>xid.
       dbind (dec_u8 ''stream commit flags'') (\<lambda>_. dbind (dec_u64 ''stream commit lsn'') (\<lambda>commit_lsn.
       dbind (dec_u64 ''stream commit end lsn'') (\<lambda>end_lsn. dbind (dec_u64 ''stream commit timestamp'') (\<lambda>_.
         dreturn (EvStream (StreamCommit xid commit_lsn end_lsn)))))))
     else if tag = CHR ''A'' then dbind (dec_u32 ''stream abort xid'') (\<lambda>xid.
       dbind (dec_u32 ''stream abort subxid'') (\<lambda>subxid. dreturn (EvStream (StreamAbort xid subxid))))
     else if tag = CHR ''b'' then decode_two_phase BeginPrepare ''begin prepare gid''
     else if tag = CHR ''P'' then decode_two_phase Prepare ''prepare gid''
     else if tag = CHR ''K'' then decode_two_phase CommitPrepared ''commit prepared gid''
     else if tag = CHR ''r'' then decode_two_phase RollbackPrepared ''rollback prepared gid''
     else dlift (Err (UnsupportedMessage tag)))"

definition decode_message :: "float_env \<Rightarrow> catalog \<Rightarrow> string \<Rightarrow> (decoded_event, wal_error) result" where
  "decode_message fl c bytes = rbind (dbind (dec_u8 ''message tag'') (decode_body fl c) bytes) (\<lambda>(event, rest).
     if rest = [] then Ok event else Err (Malformed ''trailing bytes''))"

text \<open>The catalog after the message: a relation message that is read to the end of its columns
  replaces the entry of its table, also when bytes follow it.\<close>

definition decode_effect :: "catalog \<Rightarrow> string \<Rightarrow> catalog" where
  "decode_effect c bytes = (case bytes of
     tag # rest \<Rightarrow> if tag = CHR ''R''
       then (case decode_relation rest of Ok (r, _) \<Rightarrow> upsert_relation r c | _ \<Rightarrow> c) else c
   | [] \<Rightarrow> c)"

definition decode_pgoutput_message ::
  "float_env \<Rightarrow> catalog \<Rightarrow> string \<Rightarrow> (decoded_event, wal_error) result \<times> catalog" where
  "decode_pgoutput_message fl c bytes = (decode_message fl c bytes, decode_effect c bytes)"

section \<open>Decoders are local\<close>

text \<open>A decoder that succeeds does not depend on the bytes it leaves.\<close>

definition local_dec :: "'a decoder \<Rightarrow> bool" where
  "local_dec d = (\<forall>bs v r ys. d bs = Ok (v, r) \<longrightarrow> d (bs @ ys) = Ok (v, r @ ys))"

named_theorems local_intros "decoders that are local"

lemma local_dreturn [local_intros]: "local_dec (dreturn x)"
  by (simp add: local_dec_def dreturn_def)

lemma local_dlift [local_intros]: "local_dec (dlift r)"
  by (auto simp: local_dec_def dlift_def rmap_eq_Ok)

lemma local_dbind [local_intros]:
  "local_dec d \<Longrightarrow> (\<And>x. local_dec (f x)) \<Longrightarrow> local_dec (dbind d f)"
  unfolding local_dec_def dbind_def by (fastforce simp: rbind_eq_Ok)

lemma local_if [local_intros]: "local_dec d \<Longrightarrow> local_dec e \<Longrightarrow> local_dec (if b then d else e)"
  by simp

lemma local_take [local_intros]: "local_dec (dec_take n c)"
  by (auto simp: local_dec_def dec_take_def split: if_splits)

lemma local_drepeat [local_intros]: "local_dec d \<Longrightarrow> local_dec (drepeat n d)"
  by (induction n) (auto intro!: local_intros)

lemma local_dmap [local_intros]: "(\<And>c. local_dec (d c)) \<Longrightarrow> local_dec (dmap d cs)"
  by (induction cs) (auto intro!: local_intros)

lemma local_cstr [local_intros]: "local_dec (dec_cstr c)"
  unfolding local_dec_def
proof (intro allI impI)
  fix bs v r ys
  assume "dec_cstr c bs = Ok (v, r)"
  then have "split_once (CHR 0x00) bs = Some (v, r)" "utf8_valid v"
    by (auto simp: dec_cstr_def split: option.splits if_splits)
  then show "dec_cstr c (bs @ ys) = Ok (v, r @ ys)"
    by (auto simp: dec_cstr_def split_once_append dest!: split_once_SomeD)
qed

lemmas decoder_defs =
  dec_u8_def dec_u16_def dec_u32_def dec_u64_def dec_bytes_i32_def dec_expect_tag_def
  decode_column_def decode_relation_def decode_value_def decode_tuple_def decode_insert_def
  decode_update_def decode_delete_def decode_truncate_def decode_prepare_prefix_def decode_two_phase_def

lemma local_body: "local_dec (decode_body fl c tag)"
  unfolding decode_body_def decoder_defs by (intro local_intros)

lemma local_message: "local_dec (dbind (dec_u8 context) (decode_body fl c))"
  unfolding dec_u8_def by (intro local_intros local_body)

section \<open>A reference encoder\<close>

datatype pg_message =
    MBegin lsn u64 u32
  | MCommit char lsn lsn u64
  | MRelation table_id string string char "(char \<times> string \<times> u32 \<times> u32) list"
  | MType u32 string string
  | MInsert table_id "column_value list"
  | MUpdate table_id "(char \<times> column_value list) option" "column_value list"
  | MDelete table_id char "column_value list"
  | MTruncate char "table_id list"
  | MOrigin lsn string
  | MStreamStart u32 char
  | MStreamStop
  | MStreamCommit u32 char lsn lsn u64
  | MStreamAbort u32 u32
  | MTwoPhase char char u64 u64 u64 u32 string

definition enc_cstr :: "string \<Rightarrow> string" where
  "enc_cstr s = s @ [CHR 0x00]"

fun enc_value :: "column_value \<Rightarrow> string" where
  "enc_value CNull = ''n''"
| "enc_value CUnchanged = ''u''"
| "enc_value (CText s) = CHR ''t'' # word_bytes (word_of_nat (length s) :: u32) @ s"
| "enc_value (CBinary s) = CHR ''b'' # word_bytes (word_of_nat (length s) :: u32) @ s"

definition enc_tuple :: "column_value list \<Rightarrow> string" where
  "enc_tuple vs = word_bytes (word_of_nat (length vs) :: 16 word) @ concat (map enc_value vs)"

fun enc_column :: "char \<times> string \<times> u32 \<times> u32 \<Rightarrow> string" where
  "enc_column (flags, name, oid, typmod) = flags # enc_cstr name @ word_bytes oid @ word_bytes typmod"

fun encode_message :: "pg_message \<Rightarrow> string" where
  "encode_message (MBegin l ts xid) = CHR ''B'' # word_bytes l @ word_bytes ts @ word_bytes xid"
| "encode_message (MCommit flags l e ts) = CHR ''C'' # flags # word_bytes l @ word_bytes e @ word_bytes ts"
| "encode_message (MRelation t ns nm ri cols) = CHR ''R'' # word_bytes t @ enc_cstr ns @ enc_cstr nm @
     ri # word_bytes (word_of_nat (length cols) :: 16 word) @ concat (map enc_column cols)"
| "encode_message (MType oid ns nm) = CHR ''Y'' # word_bytes oid @ enc_cstr ns @ enc_cstr nm"
| "encode_message (MInsert t vs) = CHR ''I'' # word_bytes t @ CHR ''N'' # enc_tuple vs"
| "encode_message (MUpdate t old vs) = CHR ''U'' # word_bytes t @
     (case old of None \<Rightarrow> [] | Some (k, ws) \<Rightarrow> k # enc_tuple ws) @ CHR ''N'' # enc_tuple vs"
| "encode_message (MDelete t k vs) = CHR ''D'' # word_bytes t @ k # enc_tuple vs"
| "encode_message (MTruncate opts ts) = CHR ''T'' # word_bytes (word_of_nat (length ts) :: u32) @ opts #
     concat (map word_bytes ts)"
| "encode_message (MOrigin l nm) = CHR ''O'' # word_bytes l @ enc_cstr nm"
| "encode_message (MStreamStart xid flags) = CHR ''S'' # word_bytes xid @ [flags]"
| "encode_message MStreamStop = ''E''"
| "encode_message (MStreamCommit xid flags l e ts) = CHR ''c'' # word_bytes xid @ flags #
     word_bytes l @ word_bytes e @ word_bytes ts"
| "encode_message (MStreamAbort xid sub) = CHR ''A'' # word_bytes xid @ word_bytes sub"
| "encode_message (MTwoPhase k flags l e ts xid gid) = k # flags # word_bytes l @ word_bytes e @
     word_bytes ts @ word_bytes xid @ enc_cstr gid"

definition tuple_of_values ::
  "float_env \<Rightarrow> catalog \<Rightarrow> table_id \<Rightarrow> column_value list \<Rightarrow> (tuple, wal_error) result" where
  "tuple_of_values fl c t vs = (case relation c t of
     None \<Rightarrow> Err (UnknownRelation t)
   | Some rel \<Rightarrow> if length (rs_columns rel) \<noteq> length vs
       then Err (TupleArity t (length (rs_columns rel)) (length vs))
       else mapr (\<lambda>(col, v). decode_column_value fl (cd_datum_type col) v) (zip (rs_columns rel) vs))"

definition message_columns :: "(char \<times> string \<times> u32 \<times> u32) list \<Rightarrow> column_def list" where
  "message_columns = map (\<lambda>(flags, name, oid, _). column_from_pgoutput flags name oid)"

fun message_event :: "float_env \<Rightarrow> catalog \<Rightarrow> pg_message \<Rightarrow> (decoded_event, wal_error) result" where
  "message_event fl c (MBegin l ts xid) = Ok (EvBegin xid l)"
| "message_event fl c (MCommit flags l e ts) = Ok (EvCommit l e)"
| "message_event fl c (MRelation t ns nm ri cols) = Ok (EvSchema t (message_columns cols))"
| "message_event fl c (MType oid ns nm) = Ok (EvType \<lparr>ti_oid = oid, ti_namespace = ns, ti_name = nm\<rparr>)"
| "message_event fl c (MInsert t vs) =
     rmap (\<lambda>new. EvRow t Insert None (Some new)) (tuple_of_values fl c t vs)"
| "message_event fl c (MUpdate t old vs) = rbind
     (case old of None \<Rightarrow> Ok None | Some (k, ws) \<Rightarrow> rmap Some (tuple_of_values fl c t ws))
     (\<lambda>o'. rmap (\<lambda>new. EvRow t Update o' (Some new)) (tuple_of_values fl c t vs))"
| "message_event fl c (MDelete t k vs) =
     rmap (\<lambda>old. EvRow t Delete (Some old) None) (tuple_of_values fl c t vs)"
| "message_event fl c (MTruncate opts ts) = Ok (EvTruncate \<lparr>tr_tables = ts, cascade = odd (byte opts),
     restart_identity = odd (byte opts div 2)\<rparr>)"
| "message_event fl c (MOrigin l nm) = Ok (EvOrigin l nm)"
| "message_event fl c (MStreamStart xid flags) = Ok (EvStream (StreamStart xid (odd (byte flags))))"
| "message_event fl c MStreamStop = Ok (EvStream StreamStop)"
| "message_event fl c (MStreamCommit xid flags l e ts) = Ok (EvStream (StreamCommit xid l e))"
| "message_event fl c (MStreamAbort xid sub) = Ok (EvStream (StreamAbort xid sub))"
| "message_event fl c (MTwoPhase k flags l e ts xid gid) = Ok (EvTwoPhase (
     (if k = CHR ''b'' then BeginPrepare else if k = CHR ''P'' then Prepare
      else if k = CHR ''K'' then CommitPrepared else RollbackPrepared) xid gid))"

fun message_catalog :: "catalog \<Rightarrow> pg_message \<Rightarrow> catalog" where
  "message_catalog c (MRelation t ns nm ri cols) = (case replica_identity_try_from ri of
     Ok identity \<Rightarrow> upsert_relation \<lparr>rs_table = t, rs_namespace = ns, rs_name = nm,
       rs_replica_identity = identity, rs_columns = message_columns cols\<rparr> c
   | _ \<Rightarrow> c)"
| "message_catalog c _ = c"

definition text_ok :: "string \<Rightarrow> bool" where
  "text_ok s = (CHR 0x00 \<notin> set s \<and> utf8_valid s)"

fun value_fits :: "column_value \<Rightarrow> bool" where
  "value_fits (CText s) = (length s < 2 ^ 32)"
| "value_fits (CBinary s) = (length s < 2 ^ 32)"
| "value_fits _ = True"

definition values_fit :: "column_value list \<Rightarrow> bool" where
  "values_fit vs = (length vs < 2 ^ 16 \<and> list_all value_fits vs)"

fun message_ok :: "pg_message \<Rightarrow> bool" where
  "message_ok (MRelation t ns nm ri cols) = (text_ok ns \<and> text_ok nm \<and> is_ok (replica_identity_try_from ri)
     \<and> length cols < 2 ^ 16 \<and> list_all (\<lambda>(_, name, _, _). text_ok name) cols)"
| "message_ok (MType oid ns nm) = (text_ok ns \<and> text_ok nm)"
| "message_ok (MInsert t vs) = values_fit vs"
| "message_ok (MUpdate t old vs) = (values_fit vs \<and>
     (case old of None \<Rightarrow> True | Some (k, ws) \<Rightarrow> k \<in> {CHR ''K'', CHR ''O''} \<and> values_fit ws))"
| "message_ok (MDelete t k vs) = (k \<in> {CHR ''K'', CHR ''O''} \<and> values_fit vs)"
| "message_ok (MTruncate opts ts) = (length ts < 2 ^ 32)"
| "message_ok (MOrigin l nm) = text_ok nm"
| "message_ok (MTwoPhase k flags l e ts xid gid) =
     (k \<in> {CHR ''b'', CHR ''P'', CHR ''K'', CHR ''r''} \<and> text_ok gid)"
| "message_ok _ = True"

section \<open>Decoding encoded fields\<close>

lemma dbind_Ok [decode_simps]: "d bs = Ok (v, r) \<Longrightarrow> dbind d f bs = f v r"
  by (simp add: dbind_def)

lemma dbind_dreturn [simp]: "dbind (dreturn x) f = f x"
  by (simp add: dbind_def dreturn_def fun_eq_iff)

lemma dreturn_apply [decode_simps]: "dreturn x bs = Ok (x, bs)"
  by (simp add: dreturn_def)

lemma dec_take_append [decode_simps]: "length xs = n \<Longrightarrow> dec_take n c (xs @ ys) = Ok (xs, ys)"
  by (auto simp: dec_take_def)

lemma dec_u8_Cons [decode_simps]: "dec_u8 c (b # bs) = Ok (b, bs)"
  using dec_take_append [of "[b]" 1 c bs] by (simp add: dec_u8_def decode_simps)

lemma dec_u16_word [decode_simps]: "dec_u16 c (word_bytes w @ bs) = Ok (w, bs)"
  by (simp add: dec_u16_def decode_simps be_word_word_bytes)

lemma dec_u32_word [decode_simps]: "dec_u32 c (word_bytes w @ bs) = Ok (w, bs)"
  by (simp add: dec_u32_def decode_simps be_word_word_bytes)

lemma dec_u64_word [decode_simps]: "dec_u64 c (word_bytes w @ bs) = Ok (w, bs)"
  by (simp add: dec_u64_def decode_simps be_word_word_bytes)

lemma dec_cstr_enc [decode_simps]: "text_ok s \<Longrightarrow> dec_cstr c (enc_cstr s @ bs) = Ok (s, bs)"
  by (simp add: dec_cstr_def enc_cstr_def text_ok_def split_once_append)

lemma dec_bytes_enc [decode_simps]:
  "length s < 2 ^ 32 \<Longrightarrow> dec_bytes_i32 c (word_bytes (word_of_nat (length s) :: u32) @ s @ bs) = Ok (s, bs)"
  by (simp add: dec_bytes_i32_def decode_simps unat_of_nat)

lemma decode_value_enc [decode_simps]: "value_fits v \<Longrightarrow> decode_value (enc_value v @ bs) = Ok (v, bs)"
  by (cases v) (simp_all add: decode_value_def decode_simps)

lemma drepeat_enc:
  "(\<And>x bs. x \<in> set xs \<Longrightarrow> d (enc x @ bs) = Ok (f x, bs)) \<Longrightarrow>
     drepeat (length xs) d (concat (map enc xs) @ bs) = Ok (map f xs, bs)"
  by (induction xs arbitrary: bs) (simp_all add: decode_simps)

lemma decode_column_enc:
  "text_ok name \<Longrightarrow>
     decode_column (enc_column (flags, name, oid, tm) @ bs) = Ok (column_from_pgoutput flags name oid, bs)"
  by (simp add: decode_column_def decode_simps)

lemma decode_relation_enc:
  assumes "message_ok (MRelation t ns nm ri cols)" "replica_identity_try_from ri = Ok identity"
  shows "decode_relation (word_bytes t @ enc_cstr ns @ enc_cstr nm @ ri #
      word_bytes (word_of_nat (length cols) :: 16 word) @ concat (map enc_column cols) @ bs) =
    Ok (\<lparr>rs_table = t, rs_namespace = ns, rs_name = nm, rs_replica_identity = identity,
      rs_columns = message_columns cols\<rparr>, bs)"
proof -
  have "drepeat (length cols) decode_column (concat (map enc_column cols) @ bs) = Ok (message_columns cols, bs)"
    unfolding message_columns_def
  proof (rule drepeat_enc)
    fix x bs
    assume "x \<in> set cols"
    then show "decode_column (enc_column x @ bs) =
        Ok ((\<lambda>(flags, name, oid, _). column_from_pgoutput flags name oid) x, bs)"
      using assms(1) decode_column_enc by (cases x) (auto simp: list_all_iff simp del: enc_column.simps)
  qed
  with assms show ?thesis
    by (simp add: decode_relation_def decode_simps dlift_def unat_of_nat
        del: replica_identity_try_from.simps enc_column.simps)
qed

lemma dmap_enc:
  assumes "length cols = length vs" "list_all value_fits vs"
  shows "dmap (\<lambda>column. dbind decode_value (\<lambda>v. dlift (decode_column_value fl (cd_datum_type column) v))) cols
      (concat (map enc_value vs) @ bs) =
    rmap (\<lambda>ds. (ds, bs)) (mapr (\<lambda>(col, v). decode_column_value fl (cd_datum_type col) v) (zip cols vs))"
  using assms
proof (induction cols vs rule: list_induct2)
  case (Cons col cols v vs)
  have v: "dbind decode_value (\<lambda>v. dlift (decode_column_value fl (cd_datum_type col) v))
      (enc_value v @ concat (map enc_value vs) @ bs)
    = rmap (\<lambda>d. (d, concat (map enc_value vs) @ bs)) (decode_column_value fl (cd_datum_type col) v)"
    using Cons.prems by (simp add: decode_simps dlift_def)
  show ?case
    using Cons v
    by (cases "decode_column_value fl (cd_datum_type col) v";
        cases "mapr (\<lambda>(col, v). decode_column_value fl (cd_datum_type col) v) (zip cols vs)")
      (simp_all add: dbind_def [of "dbind decode_value _"] dbind_def [of "dmap _ _"] dreturn_def)
qed (simp add: decode_simps)

lemma decode_tuple_enc:
  assumes "values_fit vs"
  shows "decode_tuple fl c t (enc_tuple vs @ bs) = rmap (\<lambda>ds. (ds, bs)) (tuple_of_values fl c t vs)"
  using assms dmap_enc [of _ vs fl bs]
  by (cases "relation c t")
    (auto simp: decode_tuple_def enc_tuple_def tuple_of_values_def values_fit_def decode_simps
      dbind_def [of "dlift _"] dlift_def unat_of_nat)

lemma dbind_tuple_enc:
  "values_fit vs \<Longrightarrow> dbind (decode_tuple fl c t) f (enc_tuple vs @ bs) =
     rbind (tuple_of_values fl c t vs) (\<lambda>ds. f ds bs)"
  by (cases "tuple_of_values fl c t vs") (simp_all add: dbind_def decode_tuple_enc)

lemma dbind_tuple_end:
  "values_fit vs \<Longrightarrow> dbind (decode_tuple fl c t) f (enc_tuple vs) =
     rbind (tuple_of_values fl c t vs) (\<lambda>ds. f ds [])"
  using dbind_tuple_enc [of vs fl c t f "[]"] by simp

lemma decode_row_enc:
  "values_fit vs \<Longrightarrow> decode_insert fl c (word_bytes t @ CHR ''N'' # enc_tuple vs) =
     rmap (\<lambda>new. (EvRow t Insert None (Some new), [])) (tuple_of_values fl c t vs)"
  "values_fit vs \<Longrightarrow> k \<in> {CHR ''K'', CHR ''O''} \<Longrightarrow> decode_delete fl c (word_bytes t @ k # enc_tuple vs) =
     rmap (\<lambda>old. (EvRow t Delete (Some old) None, [])) (tuple_of_values fl c t vs)"
  by (auto simp: decode_insert_def decode_delete_def dec_expect_tag_def decode_simps rmap_def dbind_tuple_end)

lemma decode_update_enc:
  assumes "message_ok (MUpdate t old vs)"
  shows "decode_update fl c (word_bytes t @ (case old of None \<Rightarrow> [] | Some (k, ws) \<Rightarrow> k # enc_tuple ws) @
      CHR ''N'' # enc_tuple vs) = rmap (\<lambda>e. (e, [])) (message_event fl c (MUpdate t old vs))"
proof (cases old)
  case None
  then show ?thesis
    using assms by (cases "tuple_of_values fl c t vs") (auto simp: decode_update_def decode_simps dbind_tuple_end)
next
  case (Some kw)
  obtain k ws where kw: "kw = (k, ws)" by (cases kw)
  have "dbind (decode_tuple fl c t) (\<lambda>old. dbind (dec_expect_tag (CHR ''N'') ''update new tuple'')
        (\<lambda>_. dreturn (Some old))) (enc_tuple ws @ CHR ''N'' # enc_tuple vs)
      = rbind (tuple_of_values fl c t ws) (\<lambda>o'. Ok (Some o', enc_tuple vs))"
    using assms Some kw by (simp add: dbind_tuple_enc dec_expect_tag_def decode_simps)
  then show ?thesis
    using assms Some kw
    by (cases "tuple_of_values fl c t ws"; cases "tuple_of_values fl c t vs")
      (auto simp: decode_update_def decode_simps dbind_tuple_end dbind_def [of "dbind (decode_tuple _ _ _) _"])
qed

lemma message_of_body:
  "decode_body fl c tag bs = rmap (\<lambda>e. (e, [])) r \<Longrightarrow> decode_message fl c (tag # bs) = r"
  by (cases r) (simp_all add: decode_message_def decode_simps)

lemma decode_message_encode:
  assumes "message_ok m" shows "decode_message fl c (encode_message m) = message_event fl c m"
proof (cases m)
  case (MRelation t ns nm ri cols)
  then obtain identity where i: "replica_identity_try_from ri = Ok identity"
    using assms by (cases "replica_identity_try_from ri") auto
  then show ?thesis
    using assms MRelation decode_relation_enc [of t ns nm ri cols identity "[]"]
    by (auto intro!: message_of_body simp: decode_body_def decode_simps
        simp del: replica_identity_try_from.simps)
next
  case (MTruncate opts ts)
  then show ?thesis
    using assms drepeat_enc [of ts "dec_u32 _" word_bytes "\<lambda>x. x" "[]"]
    by (auto intro!: message_of_body simp: decode_body_def decode_truncate_def decode_simps unat_of_nat)
next
  case (MTwoPhase k flags l e ts xid gid)
  then show ?thesis
    using assms dec_cstr_enc [of gid _ "[]"]
    by (auto intro!: message_of_body simp: decode_body_def decode_two_phase_def decode_prepare_prefix_def decode_simps)
next
  case (MUpdate t old vs)
  then show ?thesis
    using assms decode_update_enc [of t old vs fl c]
    by (auto intro!: message_of_body simp: decode_body_def simp del: message_event.simps message_ok.simps)
next
  case (MInsert t vs)
  then show ?thesis
    using assms decode_row_enc(1) [of vs fl c t]
    by (cases "tuple_of_values fl c t vs") (auto intro!: message_of_body simp: decode_body_def)
next
  case (MDelete t k vs)
  then show ?thesis
    using assms decode_row_enc(2) [of vs k fl c t]
    by (cases "tuple_of_values fl c t vs") (auto intro!: message_of_body simp: decode_body_def)
next
  case (MType oid ns nm)
  then show ?thesis
    using assms dec_cstr_enc [of nm _ "[]"]
    by (auto intro!: message_of_body simp: decode_body_def decode_simps)
next
  case (MOrigin l nm)
  then show ?thesis
    using assms dec_cstr_enc [of nm _ "[]"]
    by (auto intro!: message_of_body simp: decode_body_def decode_simps)
qed (use dec_u32_word [of _ _ "[]"] dec_u64_word [of _ _ "[]"] in
  \<open>auto intro!: message_of_body simp: decode_body_def decode_simps\<close>)

section \<open>Loading the catalog\<close>

lemma bt_invar_upsert: "bt_invar (relations c) \<Longrightarrow> bt_invar (relations (upsert_relation r c))"
  by (simp add: upsert_relation_def bt.invar_put)

lemma relation_upsert:
  "bt_invar (relations c) \<Longrightarrow> relation (upsert_relation r c) = (relation c)(rs_table r \<mapsto> r)"
  by (simp add: relation_def upsert_relation_def map_of_bt_insert fun_eq_iff)

lemma bt_invar_group: "bt_invar g \<Longrightarrow> bt_invar (group_probe_row row g)"
  by (simp add: group_probe_row_def Let_def bt.invar_put)

lemma bt_invar_groups: "bt_invar g \<Longrightarrow> bt_invar (fold group_probe_row rows g)"
  by (induction rows arbitrary: g) (simp_all add: bt_invar_group)

definition probe_of_rows :: "catalog_probe_row list \<Rightarrow> probe_relation option" where
  "probe_of_rows rows = (case rows of [] \<Rightarrow> None
     | r # _ \<Rightarrow> Some \<lparr>pb_table = pr_table_oid r, pb_namespace = pr_namespace r, pb_name = pr_table_name r,
         pb_replica_identity = pr_replica_identity r,
         pb_columns = map (\<lambda>r. (pr_attnum r, probe_column r)) rows\<rparr>)"

lemma map_of_group:
  "bt_invar g \<Longrightarrow> map_of (group_probe_row row g) t = (if t = pr_table_oid row
     then (case map_of g t of
         Some p \<Rightarrow> Some (p\<lparr>pb_columns := pb_columns p @ [(pr_attnum row, probe_column row)]\<rparr>)
       | None \<Rightarrow> Some \<lparr>pb_table = t, pb_namespace = pr_namespace row, pb_name = pr_table_name row,
           pb_replica_identity = pr_replica_identity row, pb_columns = [(pr_attnum row, probe_column row)]\<rparr>)
     else map_of g t)"
  by (auto simp: group_probe_row_def Let_def map_of_bt_insert split: option.splits)

lemma group_rows:
  "map_of (fold group_probe_row rows []) t = probe_of_rows (filter (\<lambda>r. pr_table_oid r = t) rows)"
proof (induction rows rule: rev_induct)
  case (snoc row rows)
  have "bt_invar (fold group_probe_row rows [])" by (simp add: bt_invar_groups)
  then show ?case
    using snoc by (auto simp: map_of_group probe_of_rows_def split: list.splits)
qed (simp add: probe_of_rows_def)

lemma filter_ConsD: "filter P xs = y # ys \<Longrightarrow> P y"
  by (metis filter_eq_ConsD)

lemma group_rows_key: "map_of (fold group_probe_row rows []) t = Some p \<Longrightarrow> pb_table p = t"
  by (auto simp: group_rows probe_of_rows_def split: list.splits dest: filter_ConsD)

lemma relations_upsert_all:
  "relations (fold (\<lambda>(_, p). upsert_relation (probe_to_schema p)) kps c) =
     fold (\<lambda>(k, v). bt_insert k v) (map (\<lambda>(_, p). (pb_table p, probe_to_schema p)) kps) (relations c)"
  by (induction kps arbitrary: c) (auto simp: upsert_relation_def probe_to_schema_def)

lemma map_of_rev_map_snd:
  "distinct (map fst kps) \<Longrightarrow> (\<And>k p. (k, p) \<in> set kps \<Longrightarrow> f p = k) \<Longrightarrow>
     map_of (rev (map (\<lambda>(_, p). (f p, g p)) kps)) t = map_option g (map_of kps t)"
proof (induction kps)
  case (Cons kp kps)
  then show ?case
    by (cases kp) (force simp: map_add_def split: option.splits dest: map_of_SomeD)
qed simp

text \<open>Loading the catalog groups the probe rows by table.  A table is present exactly when a probe row
  names it; its columns are the rows of that table in attribute-number order (equal numbers in
  arrival order), each with its type, nullability and key flag.\<close>

lemma load_catalog_relation:
  "relation (load_catalog_from_probe_rows rows) t =
     (case filter (\<lambda>r. pr_table_oid r = t) rows of
        [] \<Rightarrow> None
      | r # rs \<Rightarrow> Some \<lparr>rs_table = t, rs_namespace = pr_namespace r, rs_name = pr_table_name r,
          rs_replica_identity = pr_replica_identity r,
          rs_columns = map probe_column (sort_key (\<lambda>r. sint (pr_attnum r)) (r # rs))\<rparr>)"
proof -
  let ?g = "fold group_probe_row rows []"
  have inv: "bt_invar ?g" by (simp add: bt_invar_groups)
  have "relation (load_catalog_from_probe_rows rows) t =
      map_of (rev (map (\<lambda>(_, p). (pb_table p, probe_to_schema p)) ?g)) t"
    unfolding relation_def load_catalog_from_probe_rows_def relations_upsert_all
    by (subst bt.get_put_all) (simp_all add: catalog_new_def)
  also have "\<dots> = map_option probe_to_schema (map_of ?g t)"
    using bt_invar_distinct [OF inv] group_rows_key [of rows] inv
    by (intro map_of_rev_map_snd) (auto simp: map_of_eq_Some_iff)
  finally show ?thesis
    using sort_key_map [of "\<lambda>(attnum, _). sint attnum" "\<lambda>r. (pr_attnum r, probe_column r)"]
    by (auto simp: group_rows probe_of_rows_def probe_to_schema_def comp_def
        simp del: sort_key_simps list.map split: list.splits dest: filter_ConsD)
qed

section \<open>Rows conform to the catalog\<close>

definition value_conforms :: "column_def \<Rightarrow> datum \<Rightarrow> bool" where
  "value_conforms col d = (d = DNull \<or> d = DUnchanged \<or> datum_has_type (cd_datum_type col) d)"

lemma decode_column_value_conforms:
  "decode_column_value fl (cd_datum_type col) v = Ok d \<Longrightarrow> value_conforms col d"
  by (cases v) (auto simp: value_conforms_def decode_text_type decode_binary_type)

lemma dbind_eq_Ok: "dbind d f bs = Ok y \<longleftrightarrow> (\<exists>x r. d bs = Ok (x, r) \<and> f x r = Ok y)"
  by (auto simp: dbind_def rbind_eq_Ok)

lemma dmap_conforms:
  "dmap (\<lambda>column. dbind decode_value (\<lambda>v. dlift (decode_column_value fl (cd_datum_type column) v))) cols bs
     = Ok (ds, r) \<Longrightarrow> list_all2 value_conforms cols ds"
  by (induction cols arbitrary: bs ds r)
    (auto simp: dbind_eq_Ok dreturn_def dlift_def rmap_eq_Ok decode_column_value_conforms)

definition tuple_conforms :: "catalog \<Rightarrow> table_id \<Rightarrow> tuple \<Rightarrow> bool" where
  "tuple_conforms c t ds = (case relation c t of None \<Rightarrow> False
     | Some rel \<Rightarrow> list_all2 value_conforms (rs_columns rel) ds)"

lemma decode_tuple_conforms: "decode_tuple fl c t bs = Ok (ds, r) \<Longrightarrow> tuple_conforms c t ds"
  by (cases "relation c t")
    (auto simp: decode_tuple_def dbind_eq_Ok dlift_def rmap_eq_Ok tuple_conforms_def dmap_conforms split: if_splits)

lemma decode_row_conforms:
  "decode_insert fl c bs = Ok (EvRow t op old new, r) \<Longrightarrow> op = Insert \<and> old = None \<and> new \<noteq> None"
  "decode_update fl c bs = Ok (EvRow t op old new, r) \<Longrightarrow> op = Update \<and> new \<noteq> None"
  "decode_delete fl c bs = Ok (EvRow t op old new, r) \<Longrightarrow> op = Delete \<and> new = None \<and> old \<noteq> None"
  by (auto simp: decode_insert_def decode_update_def decode_delete_def dbind_eq_Ok dreturn_def dlift_def
      split: if_splits)

lemma decode_row_tuples:
  "decode_insert fl c bs = Ok (EvRow t op old new, r) \<or> decode_update fl c bs = Ok (EvRow t op old new, r) \<or>
     decode_delete fl c bs = Ok (EvRow t op old new, r) \<Longrightarrow> old = Some ds \<or> new = Some ds \<Longrightarrow> tuple_conforms c t ds"
  by (auto simp: decode_insert_def decode_update_def decode_delete_def dbind_eq_Ok dreturn_def dlift_def
      decode_tuple_conforms split: if_splits)

lemma decode_body_row:
  "decode_body fl c tag bs = Ok (EvRow t op old new, r) \<Longrightarrow>
     decode_insert fl c bs = Ok (EvRow t op old new, r) \<or> decode_update fl c bs = Ok (EvRow t op old new, r) \<or>
     decode_delete fl c bs = Ok (EvRow t op old new, r)"
  by (auto simp: decode_body_def decode_two_phase_def decode_truncate_def dbind_eq_Ok dreturn_def dlift_def
      split: if_splits)

lemma decode_message_body:
  "decode_message fl c bs = Ok e \<Longrightarrow> \<exists>tag rest. bs = tag # rest \<and> decode_body fl c tag rest = Ok (e, [])"
  by (cases bs) (auto simp: decode_message_def rbind_eq_Ok dbind_eq_Ok dec_u8_def dec_take_def decode_simps
      split: if_splits)

section \<open>Properties\<close>



text \<open>C27: messages are self-delimiting.  A byte string that decodes stops decoding, with an error, as soon as
  anything is appended, so a truncated message is never taken for a shorter one.\<close>

theorem decode_pgoutput_prefix_free:
  "fst (decode_pgoutput_message fl c bs) = Ok e \<Longrightarrow> ys \<noteq> [] \<Longrightarrow>
     fst (decode_pgoutput_message fl c (bs @ ys)) = Err (Malformed ''trailing bytes'')"
proof -
  assume e: "fst (decode_pgoutput_message fl c bs) = Ok e" and ys: "ys \<noteq> []"
  then have "dbind (dec_u8 ''message tag'') (decode_body fl c) bs = Ok (e, [])"
    by (auto simp: decode_pgoutput_message_def decode_message_def rbind_eq_Ok split: if_splits)
  then have "dbind (dec_u8 ''message tag'') (decode_body fl c) (bs @ ys) = Ok (e, ys)"
    using local_message [of "''message tag''" fl c] by (fastforce simp: local_dec_def)
  then show ?thesis using ys by (simp add: decode_pgoutput_message_def decode_message_def)
qed

theorem decode_pgoutput_prefix_free_witness:
  "fst (decode_pgoutput_message \<lparr>parse_f32 = \<lambda>_. None, parse_f64 = \<lambda>_. None\<rparr> catalog_new ''EE'')
     = Err (Malformed ''trailing bytes'')"
  using decode_pgoutput_prefix_free
    [of "\<lparr>parse_f32 = \<lambda>_. None, parse_f64 = \<lambda>_. None\<rparr>" catalog_new "''E''" "EvStream StreamStop" "''E''"]
  by (simp add: decode_pgoutput_message_def decode_message_def decode_body_def decode_simps)

text \<open>C28: a decoded row event conforms to the catalog.  Its table is known, an insert carries only a new
  image, a delete only an old one, an update at least the new one, and every image has one value
  per catalog column, each NULL, unchanged or of the column's type.\<close>

theorem decode_pgoutput_row_conforms:
  "fst (decode_pgoutput_message fl c bs) = Ok (EvRow t op old new) \<Longrightarrow>
     (case op of Insert \<Rightarrow> old = None \<and> new \<noteq> None | Update \<Rightarrow> new \<noteq> None | Delete \<Rightarrow> old \<noteq> None \<and> new = None) \<and>
     (\<forall>ds. old = Some ds \<or> new = Some ds \<longrightarrow> tuple_conforms c t ds)"
proof -
  assume "fst (decode_pgoutput_message fl c bs) = Ok (EvRow t op old new)"
  then obtain tag rest where "decode_body fl c tag rest = Ok (EvRow t op old new, [])"
    using decode_message_body [of fl c bs] by (auto simp: decode_pgoutput_message_def)
  from decode_body_row [OF this] show ?thesis
    using decode_row_conforms [of fl c rest t op old new "[]"] decode_row_tuples [of fl c rest t op old new "[]"]
    by (auto split: row_op.splits)
qed

theorem decode_pgoutput_row_conforms_witness:
  "tuple_conforms (upsert_relation \<lparr>rs_table = 7, rs_namespace = ''public'', rs_name = ''t'',
      rs_replica_identity = RIFull,
      rs_columns = [column_from_pgoutput (CHR 0x01) ''id'' 25]\<rparr> catalog_new) 7 [DText ''hi'']"
proof -
  let ?c = "upsert_relation \<lparr>rs_table = 7, rs_namespace = ''public'', rs_name = ''t'',
      rs_replica_identity = RIFull, rs_columns = [column_from_pgoutput (CHR 0x01) ''id'' 25]\<rparr> catalog_new"
  have "decode_message fl ?c (encode_message (MInsert 7 [CText ''hi''])) = Ok (EvRow 7 Insert None (Some [DText ''hi'']))" for fl
    by (subst decode_message_encode)
      (simp_all add: values_fit_def tuple_of_values_def relation_def upsert_relation_def catalog_new_def
        column_from_pgoutput_def type_or_text_def stock_postgres_16_type_def text_eval_simps)
  then show ?thesis
    using decode_pgoutput_row_conforms [of _ ?c "encode_message (MInsert 7 [CText ''hi''])" 7 Insert None "Some [DText ''hi'']"]
    by (simp add: decode_pgoutput_message_def)
qed

end
