(* ===== verification/Sql_Mir.thy ===== *)
theory Sql_Mir
  imports Palimpsest_Prelude
begin

text \<open>
  The SQL side that the permission layer and the runtimes rely on: column types and table schemas
  (\<^verbatim>\<open>palimpsest-sql/src/catalog.rs\<close>), the query size limits (\<^verbatim>\<open>limits.rs\<close>) and the mid-level query
  graph (\<^verbatim>\<open>mir.rs\<close>).  The graph container of the source is a third-party multigraph; it is modelled
  by its node list and the list of its edges, whose order carries no meaning: every operation
  here is insensitive to it as long as the input positions of a node are distinct.
\<close>

section \<open>Column types and schemas\<close>

datatype column_type =
    CtBool | CtInt | CtFloat | CtText | CtTimestamp | CtTimestampTz | CtDate | CtTime | CtInterval
  | CtNumeric | CtBytea | CtUuid | CtJsonb | CtEnum | CtArray | CtUnknown

definition is_numeric :: "column_type \<Rightarrow> bool" where
  "is_numeric t = (t \<in> {CtInt, CtFloat, CtNumeric})"

definition is_temporal :: "column_type \<Rightarrow> bool" where
  "is_temporal t = (t \<in> {CtTimestamp, CtTimestampTz, CtDate, CtTime, CtInterval})"

definition is_textual :: "column_type \<Rightarrow> bool" where
  "is_textual t = (t \<in> {CtText, CtUuid, CtEnum})"

definition is_compatible_with :: "column_type \<Rightarrow> column_type \<Rightarrow> bool" where
  "is_compatible_with a b = (a = CtUnknown \<or> b = CtUnknown \<or> a = b
     \<or> (is_numeric a \<and> is_numeric b) \<or> (is_textual a \<and> is_textual b)
     \<or> (is_temporal a \<and> (is_temporal b \<or> b = CtText)) \<or> (is_temporal b \<and> a = CtText)
     \<or> (a = CtJsonb \<and> b = CtText) \<or> (a = CtText \<and> b = CtJsonb))"

record column_schema =
  cs_name :: string
  cs_ty :: column_type

record table_schema =
  ts_name :: string
  ts_columns :: "column_schema list"

definition ts_column :: "table_schema \<Rightarrow> string \<Rightarrow> column_schema option" where
  "ts_column t name = find (\<lambda>c. cs_name c = name) (ts_columns t)"

record sql_catalog =
  tables :: "(string, table_schema) btree"

definition sql_catalog_new :: "table_schema list \<Rightarrow> sql_catalog" where
  "sql_catalog_new ts = \<lparr>tables = fold (\<lambda>t. bt_insert (ts_name t) t) ts []\<rparr>"

definition sql_catalog_table :: "sql_catalog \<Rightarrow> string \<Rightarrow> table_schema option" where
  "sql_catalog_table c name = map_of (tables c) name"

section \<open>Query limits\<close>

datatype sql_error =
    QueryTooLarge nat nat
  | QueryTooDeep nat nat
  | QueryTooComplex nat nat
  | SqlUnknownTable string
  | SqlOther string

record query_limits =
  max_input_bytes :: nat
  max_mir_nodes :: nat
  max_nesting_depth :: nat

definition default_limits :: query_limits where
  "default_limits = \<lparr>max_input_bytes = 64 * 1024, max_mir_nodes = 256, max_nesting_depth = 32\<rparr>"

definition enforce_input_size :: "string \<Rightarrow> query_limits \<Rightarrow> (unit, sql_error) result" where
  "enforce_input_size sql lim = (if length sql > max_input_bytes lim
     then Err (QueryTooLarge (length sql) (max_input_bytes lim)) else Ok ())"

definition enforce_graph_size :: "nat \<Rightarrow> query_limits \<Rightarrow> (unit, sql_error) result" where
  "enforce_graph_size nodes lim = (if nodes > max_mir_nodes lim
     then Err (QueryTooComplex nodes (max_mir_nodes lim)) else Ok ())"

text \<open>The scanner works on the bytes from the current position on; an index of the source is the
  number of bytes already dropped.\<close>

fun skip_quoted :: "char \<Rightarrow> string \<Rightarrow> string" where
  "skip_quoted quote [] = []"
| "skip_quoted quote (b # bs) = (if b = quote
     then (case bs of b' # bs' \<Rightarrow> if b' = quote then skip_quoted quote bs' else bs | [] \<Rightarrow> [])
     else skip_quoted quote bs)"

text \<open>The bytes after the first occurrence of \<^verbatim>\<open>needle\<close>, or none at all.\<close>

fun after_find :: "string \<Rightarrow> string \<Rightarrow> string" where
  "after_find needle [] = []"
| "after_find needle (b # bs) = (case strip_prefix needle (b # bs) of
     Some rest \<Rightarrow> rest | None \<Rightarrow> after_find needle bs)"

definition ascii_alnum :: "char \<Rightarrow> bool" where
  "ascii_alnum c = (let n = byte c in (48 \<le> n \<and> n \<le> 57) \<or> (65 \<le> n \<and> n \<le> 90) \<or> (97 \<le> n \<and> n \<le> 122))"

definition ascii_digit :: "char \<Rightarrow> bool" where
  "ascii_digit c = (48 \<le> byte c \<and> byte c \<le> 57)"

definition skip_dollar_quoted :: "string \<Rightarrow> string" where
  "skip_dollar_quoted bs = (
     let name = takeWhile (\<lambda>b. ascii_alnum b \<or> b = CHR ''_'') bs;
         rest = dropWhile (\<lambda>b. ascii_alnum b \<or> b = CHR ''_'') bs
     in case rest of
          b # body \<Rightarrow> if b = CHR ''$'' \<and> \<not> (name \<noteq> [] \<and> ascii_digit (hd name))
            then after_find (CHR ''$'' # name @ ''$'') body else bs
        | [] \<Rightarrow> bs)"

lemma skip_quoted_length: "length (skip_quoted q bs) \<le> length bs"
proof (induction q bs rule: skip_quoted.induct)
  case (2 quote b bs)
  then show ?case
    by (cases bs) (simp_all only: skip_quoted.simps list.case list.size if_splits, force+)
qed simp

lemma strip_prefix_length: "strip_prefix p s = Some r \<Longrightarrow> length r \<le> length s"
  by (auto simp: strip_prefix_eq_Some)

lemma after_find_length: "length (after_find n bs) \<le> length bs"
proof (induction n bs rule: after_find.induct)
  case (2 needle b bs)
  then show ?case using strip_prefix_length [of needle "b # bs"] by (auto split: option.splits)
qed simp

lemma after_find_tl_length: "length (after_find n (tl bs)) \<le> length bs"
  using after_find_length [of n "tl bs"] by simp

lemma skip_dollar_length: "length (skip_dollar_quoted bs) \<le> length bs"
proof (cases "dropWhile (\<lambda>b. ascii_alnum b \<or> b = CHR ''_'') bs")
  case (Cons b body)
  then have "length body \<le> length bs"
    using length_dropWhile_le [of "\<lambda>b. ascii_alnum b \<or> b = CHR ''_''" bs] by simp
  then show ?thesis
    using Cons le_trans [OF after_find_length] by (auto simp: skip_dollar_quoted_def Let_def)
qed (simp only: skip_dollar_quoted_def Let_def list.case)

function (sequential) paren_scan :: "nat \<Rightarrow> nat \<Rightarrow> string \<Rightarrow> nat" where
  "paren_scan depth mx [] = mx"
| "paren_scan depth mx (b # bs) =
    (if b = CHR ''('' then paren_scan (depth + 1) (max mx (depth + 1)) bs
     else if b = CHR '')'' then paren_scan (depth - 1) mx bs
     else if b = CHR 0x27 then paren_scan depth mx (skip_quoted (CHR 0x27) bs)
     else if b = CHR 0x22 then paren_scan depth mx (skip_quoted (CHR 0x22) bs)
     else if b = CHR ''-'' \<and> bs \<noteq> [] \<and> hd bs = CHR ''-'' then paren_scan depth mx (after_find [CHR 0x0A] bs)
     else if b = CHR ''/'' \<and> bs \<noteq> [] \<and> hd bs = CHR ''*'' then paren_scan depth mx (after_find ''*/'' (tl bs))
     else if b = CHR ''$'' then paren_scan depth mx (skip_dollar_quoted bs)
     else paren_scan depth mx bs)"
  by pat_completeness auto
termination
  by (relation "measure (\<lambda>(depth, mx, bs). length bs)")
    (auto simp: less_Suc_eq_le skip_quoted_length after_find_length skip_dollar_length after_find_tl_length)

declare paren_scan.simps(2) [simp del]

definition max_paren_depth :: "string \<Rightarrow> nat" where
  "max_paren_depth sql = paren_scan 0 0 sql"

definition enforce_nesting_depth :: "string \<Rightarrow> query_limits \<Rightarrow> (unit, sql_error) result" where
  "enforce_nesting_depth sql lim = (let depth = max_paren_depth sql in
     if depth > max_nesting_depth lim then Err (QueryTooDeep depth (max_nesting_depth lim)) else Ok ())"

section \<open>Query graph\<close>

datatype join_kind = JInner | JLeft | JSemi | JAnti

datatype set_quantifier_kind = QDistinct | QAll

record column_ref =
  cr_relation :: "string option"
  cr_name :: string

record order_key =
  ok_expression :: string
  ok_descending :: bool

record agg_expr =
  agg_function :: string
  agg_args :: "string list"
  agg_alias :: "string option"

datatype mir_node_kind =
    BaseTable string "column_ref list"
  | Filter string
  | Project "string list"
  | Join join_kind "(column_ref \<times> column_ref) list"
  | Aggregate "column_ref list" "agg_expr list"
  | Distinct
  | DistinctOn "string list" "order_key list"
  | Union set_quantifier_kind
  | Except set_quantifier_kind
  | Intersect set_quantifier_kind
  | TopK "order_key list" nat nat
  | CteRef string
  | Fixpoint string bool
  | RecursiveRef string
  | Leaf string

datatype mir_edge_kind = Input nat | CteExpansion

record mir_graph =
  nodes :: "mir_node_kind list"
  edges :: "(nat \<times> nat \<times> mir_edge_kind) list"
  root :: nat

definition mir_new :: "mir_node_kind \<Rightarrow> mir_graph" where
  "mir_new k = \<lparr>nodes = [k], edges = [], root = 0\<rparr>"

definition mir_add_node :: "mir_node_kind \<Rightarrow> mir_graph \<Rightarrow> nat \<times> mir_graph" where
  "mir_add_node k g = (length (nodes g), g\<lparr>nodes := nodes g @ [k]\<rparr>)"

definition set_root :: "nat \<Rightarrow> mir_graph \<Rightarrow> mir_graph" where
  "set_root r g = g\<lparr>root := r\<rparr>"

text \<open>Adding an edge to an absent node panics.\<close>

definition mir_add_edge :: "nat \<Rightarrow> nat \<Rightarrow> mir_edge_kind \<Rightarrow> mir_graph \<Rightarrow> mir_graph option" where
  "mir_add_edge a b w g = (if a < length (nodes g) \<and> b < length (nodes g)
     then Some (g\<lparr>edges := edges g @ [(a, b, w)]\<rparr>) else None)"

fun input_ordinal :: "mir_edge_kind \<Rightarrow> nat option" where
  "input_ordinal (Input n) = Some n"
| "input_ordinal CteExpansion = None"

text \<open>The \<^verbatim>\<open>Input\<close> edges into a node as pairs of position and source.\<close>

definition incoming_edges :: "(nat \<times> nat \<times> mir_edge_kind) list \<Rightarrow> nat \<Rightarrow> (nat \<times> nat) list" where
  "incoming_edges es n = List.map_filter (\<lambda>(a, b, w). if b = n then map_option (\<lambda>i. (i, a)) (input_ordinal w) else None) es"

abbreviation incoming :: "mir_graph \<Rightarrow> nat \<Rightarrow> (nat \<times> nat) list" where
  "incoming g n \<equiv> incoming_edges (edges g) n"

definition add_input :: "nat \<Rightarrow> nat \<Rightarrow> mir_graph \<Rightarrow> mir_graph option" where
  "add_input from_node to_node g = mir_add_edge from_node to_node (Input (min (length (incoming g to_node)) 255)) g"

definition add_cte_expansion :: "nat \<Rightarrow> nat \<Rightarrow> mir_graph \<Rightarrow> mir_graph option" where
  "add_cte_expansion from_node to_node g = mir_add_edge from_node to_node CteExpansion g"

text \<open>Appending numbers the other graph's nodes after the existing ones; the result is the new index
  of the other graph's root.\<close>

definition append_graph :: "mir_graph \<Rightarrow> mir_graph \<Rightarrow> nat \<times> mir_graph" where
  "append_graph g other = (let k = length (nodes g) in
     (k + root other,
      g\<lparr>nodes := nodes g @ nodes other,
        edges := edges g @ map (\<lambda>(a, b, w). (k + a, k + b, w)) (edges other)\<rparr>))"

definition splice_above :: "nat \<Rightarrow> mir_node_kind \<Rightarrow> mir_graph \<Rightarrow> (nat \<times> mir_graph) option" where
  "splice_above target k g = (
     let (inserted, g1) = mir_add_node k g;
         g2 = g1\<lparr>edges := filter (\<lambda>(a, _, _). a \<noteq> target) (edges g1)
                @ map (\<lambda>(_, b, w). (inserted, b, w)) (filter (\<lambda>(a, _, _). a = target) (edges g1))\<rparr>
     in map_option (\<lambda>g3. (inserted, if root g3 = target then g3\<lparr>root := inserted\<rparr> else g3))
          (mir_add_edge target inserted (Input 0) g2))"

definition ordered_inputs :: "mir_graph \<Rightarrow> nat \<Rightarrow> nat list" where
  "ordered_inputs g n = map snd (sort_key fst (incoming g n))"

fun is_base_table :: "mir_node_kind \<Rightarrow> bool" where
  "is_base_table (BaseTable _ _) = True"
| "is_base_table _ = False"

definition base_table_indices :: "mir_graph \<Rightarrow> nat list" where
  "base_table_indices g = filter (\<lambda>i. is_base_table (nodes g ! i)) [0..<length (nodes g)]"

definition node_kind :: "mir_graph \<Rightarrow> nat \<Rightarrow> mir_node_kind option" where
  "node_kind g i = (if i < length (nodes g) then Some (nodes g ! i) else None)"

section \<open>Input positions\<close>

definition positions_ok :: "(nat \<times> nat) list \<Rightarrow> bool" where
  "positions_ok ins = (mset (map fst ins) = mset [0..<length ins] \<and> length ins \<le> 256)"

definition wf_graph :: "mir_graph \<Rightarrow> bool" where
  "wf_graph g = (root g < length (nodes g) \<and>
     list_all (\<lambda>(a, b, w). a < length (nodes g) \<and> b < length (nodes g)) (edges g) \<and>
     list_all (\<lambda>n. positions_ok (incoming g n)) [0..<length (nodes g)])"

lemma incoming_simps [simp]:
  "incoming_edges [] n = []"
  "incoming_edges ((a, b, w) # es) n = (if b = n
     then (case w of Input i \<Rightarrow> (i, a) # incoming_edges es n | CteExpansion \<Rightarrow> incoming_edges es n)
     else incoming_edges es n)"
  "incoming_edges (es @ fs) n = incoming_edges es n @ incoming_edges fs n"
  by (auto simp: incoming_edges_def List.map_filter_def split: mir_edge_kind.splits)

lemma incoming_absent: "(\<And>a b w. (a, b, w) \<in> set es \<Longrightarrow> b \<noteq> n) \<Longrightarrow> incoming_edges es n = []"
proof (induction es)
  case (Cons e es)
  then show ?case by (cases e) auto
qed simp

lemma positions_distinct: "positions_ok ins \<Longrightarrow> distinct (map fst ins)"
  unfolding positions_ok_def by (metis distinct_upt mset_eq_imp_distinct_iff)

lemma positions_less: "positions_ok ins \<Longrightarrow> (i, s) \<in> set ins \<Longrightarrow> i < length ins"
  unfolding positions_ok_def by (metis atLeastLessThan_iff fst_conv image_eqI list.set_map mset_eq_setD set_upt)

section \<open>Operations keep the input order\<close>

lemma wf_graphD:
  assumes "wf_graph g"
  shows "root g < length (nodes g)"
    "(a, b, w) \<in> set (edges g) \<Longrightarrow> a < length (nodes g) \<and> b < length (nodes g)"
    "positions_ok (incoming g n)"
proof -
  show "root g < length (nodes g)"
    "(a, b, w) \<in> set (edges g) \<Longrightarrow> a < length (nodes g) \<and> b < length (nodes g)"
    using assms by (auto simp: wf_graph_def list_all_iff)
  show "positions_ok (incoming g n)"
  proof (cases "n < length (nodes g)")
    case False
    then have "incoming g n = []" using assms by (intro incoming_absent) (auto simp: wf_graph_def list_all_iff)
    then show ?thesis by (simp add: positions_ok_def)
  qed (use assms in \<open>auto simp: wf_graph_def list_all_iff\<close>)
qed

lemma positions_ok_snoc: "positions_ok ins \<Longrightarrow> length ins < 256 \<Longrightarrow> positions_ok (ins @ [(length ins, s)])"
  by (simp add: positions_ok_def)

lemma positions_ok_cong: "mset (map fst xs) = mset (map fst ys) \<Longrightarrow> positions_ok xs = positions_ok ys"
  unfolding positions_ok_def by (metis length_map size_mset)

lemma add_input_graph:
  assumes "add_input a b g = Some g'" "wf_graph g" "length (incoming g b) < 256"
  shows "g' = g\<lparr>edges := edges g @ [(a, b, Input (length (incoming g b)))]\<rparr>" "a < length (nodes g)" "b < length (nodes g)"
  using assms by (auto simp: add_input_def mir_add_edge_def min_def split: if_splits)

lemma add_input_wf:
  assumes "add_input a b g = Some g'" "wf_graph g" "length (incoming g b) < 256"
  shows "wf_graph g'"
  using add_input_graph [OF assms] wf_graphD [OF assms(2)] assms(3)
  by (auto simp: wf_graph_def list_all_iff positions_ok_snoc)

lemma add_input_ordered:
  assumes "add_input a b g = Some g'" "wf_graph g" "length (incoming g b) < 256"
  shows "ordered_inputs g' n = (if n = b then ordered_inputs g b @ [a] else ordered_inputs g n)"
proof -
  have "sort_key fst (incoming g b @ [(length (incoming g b), a)]) =
      sort_key fst (incoming g b) @ [(length (incoming g b), a)]"
    using positions_less [OF wf_graphD(3) [OF assms(2), of b]] by (intro sort_key_snoc) auto
  then show ?thesis
    using add_input_graph [OF assms] by (auto simp: ordered_inputs_def)
qed

abbreviation redirect :: "nat \<Rightarrow> nat \<Rightarrow> nat \<Rightarrow> nat" where
  "redirect target inserted s \<equiv> (if s = target then inserted else s)"

lemma incoming_redirect:
  "mset (incoming_edges (filter (\<lambda>(a, _, _). a \<noteq> t) es @ map (\<lambda>(_, b, w). (i, b, w)) (filter (\<lambda>(a, _, _). a = t) es)) n)
     = mset (map (\<lambda>(p, s). (p, redirect t i s)) (incoming_edges es n))"
proof (induction es)
  case (Cons e es)
  then show ?case by (cases e) (auto split: mir_edge_kind.splits)
qed simp

lemma splice_graph:
  assumes "splice_above t k g = Some (i, g')"
  shows "i = length (nodes g)" "nodes g' = nodes g @ [k]" "root g' = (if root g = t then i else root g)"
    "edges g' = (filter (\<lambda>(a, _, _). a \<noteq> t) (edges g) @
       map (\<lambda>(_, b, w). (i, b, w)) (filter (\<lambda>(a, _, _). a = t) (edges g))) @ [(t, i, Input 0)]"
  using assms by (auto simp: splice_above_def mir_add_node_def mir_add_edge_def Let_def split: if_splits)

lemma splice_defined: "t < length (nodes g) \<Longrightarrow> \<exists>g'. splice_above t k g = Some (length (nodes g), g')"
  by (simp add: splice_above_def mir_add_node_def mir_add_edge_def Let_def)

lemma splice_incoming:
  assumes "splice_above t k g = Some (i, g')" "wf_graph g"
  shows "n \<noteq> i \<Longrightarrow> mset (incoming g' n) = mset (map (\<lambda>(p, s). (p, redirect t i s)) (incoming g n))"
    "incoming g' i = [(0, t)]"
proof -
  note g = splice_graph [OF assms(1)]
  show "mset (incoming g' n) = mset (map (\<lambda>(p, s). (p, redirect t i s)) (incoming g n))" if "n \<noteq> i"
  proof -
    have "incoming g' n = incoming_edges (filter (\<lambda>(a, _, _). a \<noteq> t) (edges g) @
        map (\<lambda>(_, b, w). (i, b, w)) (filter (\<lambda>(a, _, _). a = t) (edges g))) n"
      unfolding g(4) using that by simp
    then show ?thesis by (simp only: incoming_redirect)
  qed
  have "incoming_edges (filter (\<lambda>(a, _, _). a \<noteq> t) (edges g) @
      map (\<lambda>(_, b, w). (i, b, w)) (filter (\<lambda>(a, _, _). a = t) (edges g))) i = []"
    using wf_graphD(2) [OF assms(2)] g(1) by (intro incoming_absent) fastforce
  then show "incoming g' i = [(0, t)]" unfolding g(4) by simp
qed

lemma map_fst_redirect [simp]: "map (fst \<circ> (\<lambda>(p, s). (p, f s))) xs = map fst xs"
  by (auto simp: comp_def split_def)

lemma splice_wf:
  assumes "splice_above t k g = Some (i, g')" "wf_graph g" "t < length (nodes g)"
  shows "wf_graph g'"
proof -
  note g = splice_graph [OF assms(1)] and wf = wf_graphD [OF assms(2)]
  have "positions_ok (incoming g' n)" for n
  proof (cases "n = i")
    case False
    have "mset (map fst (incoming g' n)) = mset (map fst (incoming g n))"
      using arg_cong [OF splice_incoming(1) [OF assms(1,2) False], of "image_mset fst"]
      by (simp add: multiset.map_comp comp_def split_def)
    then show ?thesis using wf(3) [of n] positions_ok_cong by blast
  qed (simp add: splice_incoming(2) [OF assms(1,2)] positions_ok_def)
  moreover have "list_all (\<lambda>(a, b, w). a < length (nodes g') \<and> b < length (nodes g')) (edges g')"
    unfolding g list_all_iff using assms(3) g(1) by (auto dest!: wf(2))
  moreover have "root g' < length (nodes g')" using g(1,2,3) wf(1) by auto
  ultimately show ?thesis by (simp add: wf_graph_def list_all_iff)
qed

lemma splice_ordered:
  assumes "splice_above t k g = Some (i, g')" "wf_graph g"
  shows "ordered_inputs g' n = (if n = i then [t] else map (redirect t i) (ordered_inputs g n))"
proof (cases "n = i")
  case False
  let ?h = "\<lambda>(p, s). (p, redirect t i s)"
  have m: "mset (incoming g' n) = mset (map ?h (incoming g n))"
    by (rule splice_incoming(1) [OF assms False])
  have d: "distinct (map fst (map ?h (incoming g n)))"
    using positions_distinct [OF wf_graphD(3) [OF assms(2)]] by simp
  have "sort_key fst (incoming g' n) = sort_key fst (map ?h (incoming g n))"
  proof (rule sort_key_perm [OF m])
    have "mset (map fst (incoming g' n)) = mset (map fst (map ?h (incoming g n)))"
      by (simp only: mset_map [of fst] m)
    then show "distinct (map fst (incoming g' n))" using d mset_eq_imp_distinct_iff by blast
  qed
  also have "\<dots> = map ?h (sort_key fst (incoming g n))"
  proof (rule sort_key_inj_key_eq)
    show "mset (map ?h (incoming g n)) = mset (map ?h (sort_key fst (incoming g n)))" by simp
    show "inj_on fst (set (map ?h (incoming g n)))" using d by (simp only: distinct_map)
    show "sorted (map fst (map ?h (sort_key fst (incoming g n))))" by simp
  qed
  finally show ?thesis using False by (auto simp: ordered_inputs_def comp_def split_def)
qed (simp add: ordered_inputs_def splice_incoming(2) [OF assms])

lemma incoming_shift:
  "incoming_edges (map (\<lambda>(a, b, w). (k + a, k + b, w)) es) n =
     (if k \<le> n then map (\<lambda>(p, s). (p, k + s)) (incoming_edges es (n - k)) else [])"
proof (induction es)
  case (Cons e es)
  then show ?case by (cases e) (auto split: mir_edge_kind.splits)
qed simp

lemma sort_key_map_fst: "sort_key fst (map (\<lambda>(p, s). (p, f s)) xs) = map (\<lambda>(p, s). (p, f s)) (sort_key fst xs)"
  using sort_key_map [of fst "\<lambda>(p, s). (p, f s)" xs] by (simp add: split_def)

lemma append_ordered:
  assumes "append_graph g other = (r, g')" "wf_graph g" "wf_graph other"
  shows "ordered_inputs g' n = (if n < length (nodes g) then ordered_inputs g n
    else map ((+) (length (nodes g))) (ordered_inputs other (n - length (nodes g))))"
proof -
  have e: "edges g' = edges g @ map (\<lambda>(a, b, w). (length (nodes g) + a, length (nodes g) + b, w)) (edges other)"
    using assms(1) by (auto simp: append_graph_def Let_def)
  show ?thesis
  proof (cases "n < length (nodes g)")
    case False
    then have "incoming g n = []" using wf_graphD(2) [OF assms(2)] by (intro incoming_absent) blast
    then show ?thesis
      using False by (auto simp: ordered_inputs_def e incoming_shift sort_key_map_fst)
  qed (simp add: ordered_inputs_def e incoming_shift)
qed

section \<open>Literals do not count\<close>

text \<open>A quote is doubled inside a literal (\<^verbatim>\<open>replace('\'', "''")\<close>).\<close>

fun double_quotes :: "char \<Rightarrow> string \<Rightarrow> string" where
  "double_quotes q [] = []"
| "double_quotes q (b # bs) = (if b = q then q # q # double_quotes q bs else b # double_quotes q bs)"

lemma skip_quoted_step:
  "b \<noteq> q \<Longrightarrow> skip_quoted q (b # bs) = skip_quoted q bs"
  "skip_quoted q (q # q # bs) = skip_quoted q bs"
  "bs = [] \<or> hd bs \<noteq> q \<Longrightarrow> skip_quoted q (q # bs) = bs"
proof -
  show "b \<noteq> q \<Longrightarrow> skip_quoted q (b # bs) = skip_quoted q bs" "skip_quoted q (q # q # bs) = skip_quoted q bs"
    by simp_all
  show "bs = [] \<or> hd bs \<noteq> q \<Longrightarrow> skip_quoted q (q # bs) = bs"
    by (cases bs) simp_all
qed

declare skip_quoted.simps(2) [simp del]

lemma skip_quoted_literal:
  "rest = [] \<or> hd rest \<noteq> q \<Longrightarrow> skip_quoted q (double_quotes q s @ q # rest) = rest"
  by (induction s) (simp_all add: skip_quoted_step)

lemma paren_scan_literal:
  assumes "rest = [] \<or> hd rest \<noteq> CHR 0x27"
  shows "paren_scan d m (CHR 0x27 # double_quotes (CHR 0x27) s @ CHR 0x27 # rest) = paren_scan d m rest"
  by (simp add: paren_scan.simps(2) skip_quoted_literal [OF assms])

section \<open>Properties\<close>

text \<open>C38: splicing a node above another one is transparent to every consumer.  The new node reads exactly
  the target, every other node keeps its inputs in their positions with the target replaced by the
  new node, no other node changes, and the graph stays well formed.\<close>

theorem splice_above_inputs:
  assumes "wf_graph g" "target < length (nodes g)"
  shows "\<exists>g'. splice_above target k g = Some (length (nodes g), g') \<and> wf_graph g' \<and> nodes g' = nodes g @ [k] \<and>
    ordered_inputs g' (length (nodes g)) = [target] \<and>
    (\<forall>n < length (nodes g). ordered_inputs g' n = map (redirect target (length (nodes g))) (ordered_inputs g n))"
proof -
  obtain g' where g': "splice_above target k g = Some (length (nodes g), g')"
    using splice_defined [OF assms(2)] by blast
  then show ?thesis
    using splice_wf [OF g' assms] splice_graph(2) [OF g'] splice_ordered [OF g' assms(1)] by auto
qed

theorem splice_above_inputs_witness:
  "ordered_inputs (snd (the (splice_above 1 (Filter ''p'')
     \<lparr>nodes = [Join JInner [], BaseTable ''a'' [], BaseTable ''b'' []], edges = [(1, 0, Input 0), (2, 0, Input 1)], root = 0\<rparr>))) 0 = [3, 2]"
  using splice_above_inputs [of "\<lparr>nodes = [Join JInner [], BaseTable ''a'' [], BaseTable ''b'' []],
      edges = [(1, 0, Input 0), (2, 0, Input 1)], root = 0\<rparr>" 1 "Filter ''p''"]
  by (auto simp: wf_graph_def positions_ok_def ordered_inputs_def upt_rec numeral_eq_Suc)

end
