(* ===== verification/Wire_Codec.thy ===== *)
theory Wire_Codec
  imports Wal_Protocol Sql_Mir
begin

text \<open>
  The wire format between server and client: \<^verbatim>\<open>palimpsest-proto/src/wire.rs\<close> (datums, schema
  validation, schema registry), \<^verbatim>\<open>palimpsest-server/src/codec.rs\<close> (conversion of rows),
  \<^verbatim>\<open>palimpsest-server/src/diff.rs\<close> (events) and the event encoding of
  \<^verbatim>\<open>palimpsest-server/src/grpc.rs\<close>.  The \<^verbatim>\<open>bincode\<close> crate is a parameter, a record of its two
  functions; that it is lossless is the hypothesis \<open>bincode_lossless\<close>.
\<close>

section \<open>Wire values\<close>

datatype wire_datum =
    WBool bool
  | WI16 i16
  | WI32 i32
  | WI64 i64
  | WF32 u32
  | WF64 u64
  | WNumeric string
  | WText string
  | WBytea string
  | WJson string
  | WJsonb string
  | WUuid string
  | WNull
  | WDate i32
  | WTime i64
  | WTimestamp i64
  | WTimestampTz i64
  | WInterval i32 i32 i64
  | WArray "wire_datum list"

type_synonym wire_row = "wire_datum list"
type_synonym row = "datum list"

datatype proto_diff_op = POpUnspecified | POpInitial | POpInsert | POpUpdate | POpDelete

definition diff_op_tag :: "proto_diff_op \<Rightarrow> i32" where
  "diff_op_tag p = (case p of POpUnspecified \<Rightarrow> 0 | POpInitial \<Rightarrow> 1 | POpInsert \<Rightarrow> 2
     | POpUpdate \<Rightarrow> 3 | POpDelete \<Rightarrow> 4)"

definition diff_op_try_from :: "i32 \<Rightarrow> proto_diff_op option" where
  "diff_op_try_from n = (if n = 0 then Some POpUnspecified else if n = 1 then Some POpInitial
     else if n = 2 then Some POpInsert else if n = 3 then Some POpUpdate
     else if n = 4 then Some POpDelete else None)"

datatype proto_datum_type =
    PTUnspecified | PTBool | PTI16 | PTI32 | PTI64 | PTF32 | PTF64 | PTNumeric | PTText | PTBytea
  | PTDate | PTTime | PTTimestamp | PTTimestampTz | PTInterval | PTUuid | PTJson | PTJsonb | PTArray
  | PTNull

definition proto_types :: "proto_datum_type list" where
  "proto_types = [PTUnspecified, PTBool, PTI16, PTI32, PTI64, PTF32, PTF64, PTNumeric, PTText,
     PTBytea, PTDate, PTTime, PTTimestamp, PTTimestampTz, PTInterval, PTUuid, PTJson, PTJsonb,
     PTArray, PTNull]"

definition datum_type_try_from :: "i32 \<Rightarrow> proto_datum_type option" where
  "datum_type_try_from n = (if unat n < length proto_types then Some (proto_types ! unat n) else None)"

fun datum_type_tag :: "proto_datum_type \<Rightarrow> i32" where
  "datum_type_tag PTUnspecified = 0"
| "datum_type_tag PTBool = 1"
| "datum_type_tag PTI16 = 2"
| "datum_type_tag PTI32 = 3"
| "datum_type_tag PTI64 = 4"
| "datum_type_tag PTF32 = 5"
| "datum_type_tag PTF64 = 6"
| "datum_type_tag PTNumeric = 7"
| "datum_type_tag PTText = 8"
| "datum_type_tag PTBytea = 9"
| "datum_type_tag PTDate = 10"
| "datum_type_tag PTTime = 11"
| "datum_type_tag PTTimestamp = 12"
| "datum_type_tag PTTimestampTz = 13"
| "datum_type_tag PTInterval = 14"
| "datum_type_tag PTUuid = 15"
| "datum_type_tag PTJson = 16"
| "datum_type_tag PTJsonb = 17"
| "datum_type_tag PTArray = 18"
| "datum_type_tag PTNull = 19"

record proto_column =
  pc_name :: string
  pc_type :: i32
  pc_nullable :: bool

record proto_schema =
  ps_columns :: "proto_column list"
  ps_primary_key_columns :: "u32 list"

record proto_diff =
  pd_subscription_id :: string
  pd_lsn :: u64
  pd_op :: i32
  pd_schema_id :: u64
  pd_rows :: string

record proto_row_change =
  prc_op :: i32
  prc_old_row :: "string option"
  prc_new_row :: "string option"

record proto_transaction_update =
  ptu_subscription_id :: string
  ptu_commit_lsn :: u64
  ptu_begin_lsn :: "u64 option"
  ptu_end_lsn :: "u64 option"
  ptu_transaction_id :: "u32 option"
  ptu_schema_id :: u64
  ptu_chunk_index :: u32
  ptu_chunk_count :: u32
  ptu_changes :: "proto_row_change list"

record wire_row_change =
  wrc_op :: proto_diff_op
  wrc_old :: "wire_row option"
  wrc_new :: "wire_row option"

datatype codec_error =
    Encode string
  | Decode string
  | Arity nat nat
  | RowCount nat nat
  | SchemaMismatch nat proto_datum_type string
  | UnknownSchema u64

record bincode =
  bc_serialize :: "wire_row list \<Rightarrow> (string, string) result"
  bc_deserialize :: "string \<Rightarrow> (wire_row list, string) result"

fun map_err :: "('e \<Rightarrow> 'f) \<Rightarrow> ('a, 'e) result \<Rightarrow> ('a, 'f) result" where
  "map_err f (Ok x) = Ok x"
| "map_err f (Err e) = Err (f e)"
| "map_err f Panic = Panic"

definition wire_encode_rows :: "bincode \<Rightarrow> wire_row list \<Rightarrow> (string, codec_error) result" where
  "wire_encode_rows bc rows = map_err Encode (bc_serialize bc rows)"

definition wire_decode_rows :: "bincode \<Rightarrow> string \<Rightarrow> (wire_row list, codec_error) result" where
  "wire_decode_rows bc bytes = map_err Decode (bc_deserialize bc bytes)"

definition wire_is_compatible :: "wire_datum \<Rightarrow> proto_datum_type \<Rightarrow> bool \<Rightarrow> bool" where
  "wire_is_compatible d declared null_ok =
     (case d of
        WNull \<Rightarrow> null_ok
      | WBool _ \<Rightarrow> declared = PTBool \<or> declared = PTUnspecified
      | WI16 _ \<Rightarrow> declared = PTI16 \<or> declared = PTUnspecified
      | WI32 _ \<Rightarrow> declared = PTI32 \<or> declared = PTUnspecified
      | WI64 _ \<Rightarrow> declared = PTI64 \<or> declared = PTUnspecified
      | WF32 _ \<Rightarrow> declared = PTF32 \<or> declared = PTUnspecified
      | WF64 _ \<Rightarrow> declared = PTF64 \<or> declared = PTUnspecified
      | WNumeric _ \<Rightarrow> declared = PTNumeric \<or> declared = PTUnspecified
      | WText _ \<Rightarrow> declared = PTText \<or> declared = PTUnspecified
      | WBytea _ \<Rightarrow> declared = PTBytea \<or> declared = PTUnspecified
      | WJson _ \<Rightarrow> declared = PTJson \<or> declared = PTUnspecified
      | WJsonb _ \<Rightarrow> declared = PTJsonb \<or> declared = PTUnspecified
      | WUuid _ \<Rightarrow> declared = PTUuid \<or> declared = PTUnspecified
      | WDate _ \<Rightarrow> declared = PTDate \<or> declared = PTUnspecified
      | WTime _ \<Rightarrow> declared = PTTime \<or> declared = PTUnspecified
      | WTimestamp _ \<Rightarrow> declared = PTTimestamp \<or> declared = PTUnspecified
      | WTimestampTz _ \<Rightarrow> declared = PTTimestampTz \<or> declared = PTUnspecified
      | WInterval _ _ _ \<Rightarrow> declared = PTInterval \<or> declared = PTUnspecified
      | WArray _ \<Rightarrow> declared = PTArray \<or> declared = PTUnspecified)"

fun datum_tag :: "wire_datum \<Rightarrow> string" where
  "datum_tag (WBool _) = ''bool''"
| "datum_tag (WI16 _) = ''i16''"
| "datum_tag (WI32 _) = ''i32''"
| "datum_tag (WI64 _) = ''i64''"
| "datum_tag (WF32 _) = ''f32''"
| "datum_tag (WF64 _) = ''f64''"
| "datum_tag (WNumeric _) = ''numeric''"
| "datum_tag (WText _) = ''text''"
| "datum_tag (WBytea _) = ''bytea''"
| "datum_tag (WJson _) = ''json''"
| "datum_tag (WJsonb _) = ''jsonb''"
| "datum_tag (WUuid _) = ''uuid''"
| "datum_tag WNull = ''null''"
| "datum_tag (WDate _) = ''date''"
| "datum_tag (WTime _) = ''time''"
| "datum_tag (WTimestamp _) = ''timestamp''"
| "datum_tag (WTimestampTz _) = ''timestamptz''"
| "datum_tag (WInterval _ _ _) = ''interval''"
| "datum_tag (WArray _) = ''array''"

definition declared_type :: "proto_column \<Rightarrow> proto_datum_type" where
  "declared_type c = (case datum_type_try_from (pc_type c) of Some t \<Rightarrow> t | None \<Rightarrow> PTUnspecified)"

fun validate_datums :: "nat \<Rightarrow> (wire_datum \<times> proto_column) list \<Rightarrow> (unit, codec_error) result" where
  "validate_datums idx [] = Ok ()"
| "validate_datums idx ((d, c) # rest) =
     (if wire_is_compatible d (declared_type c) (pc_nullable c) then validate_datums (Suc idx) rest
      else Err (SchemaMismatch idx (declared_type c) (datum_tag d)))"

definition validate_row :: "wire_row \<Rightarrow> proto_schema \<Rightarrow> (unit, codec_error) result" where
  "validate_row r sch =
     (if length r \<noteq> length (ps_columns sch) then Err (Arity (length (ps_columns sch)) (length r))
      else validate_datums 0 (zip r (ps_columns sch)))"

fun validate_rows :: "wire_row list \<Rightarrow> proto_schema \<Rightarrow> (unit, codec_error) result" where
  "validate_rows [] sch = Ok ()"
| "validate_rows (r # rs) sch = rbind (validate_row r sch) (\<lambda>_. validate_rows rs sch)"

definition decode_diff :: "bincode \<Rightarrow> proto_diff \<Rightarrow> proto_schema \<Rightarrow> (wire_row list, codec_error) result" where
  "decode_diff bc diff sch =
     rbind (wire_decode_rows bc (pd_rows diff)) (\<lambda>rows.
     rbind (validate_rows rows sch) (\<lambda>_. Ok rows))"

definition decode_optional_single_row ::
    "bincode \<Rightarrow> string option \<Rightarrow> proto_schema \<Rightarrow> (wire_row option, codec_error) result" where
  "decode_optional_single_row bc bytes sch =
     (case bytes of
        None \<Rightarrow> Ok None
      | Some bs \<Rightarrow>
          rbind (wire_decode_rows bc bs) (\<lambda>rows.
          rbind (validate_rows rows sch) (\<lambda>_.
            if length rows \<noteq> 1 then Err (RowCount 1 (length rows))
            else Ok (if rows = [] then None else Some (last rows)))))"

definition decode_row_change ::
    "bincode \<Rightarrow> proto_schema \<Rightarrow> proto_row_change \<Rightarrow> (wire_row_change, codec_error) result" where
  "decode_row_change bc sch c =
     rbind (decode_optional_single_row bc (prc_old_row c) sch) (\<lambda>old.
     rbind (decode_optional_single_row bc (prc_new_row c) sch) (\<lambda>new.
       Ok \<lparr>wrc_op = (case diff_op_try_from (prc_op c) of Some p \<Rightarrow> p | None \<Rightarrow> POpUnspecified),
           wrc_old = old, wrc_new = new\<rparr>))"

definition decode_transaction_update ::
    "bincode \<Rightarrow> proto_transaction_update \<Rightarrow> proto_schema \<Rightarrow> (wire_row_change list, codec_error) result" where
  "decode_transaction_update bc update sch = mapr (decode_row_change bc sch) (ptu_changes update)"

type_synonym schema_registry = "(u64, proto_schema) btree"

definition registry_register :: "u64 \<Rightarrow> proto_schema \<Rightarrow> schema_registry \<Rightarrow> schema_registry" where
  "registry_register i sch reg = bt_insert i sch reg"

definition registry_remove :: "u64 \<Rightarrow> schema_registry \<Rightarrow> proto_schema option \<times> schema_registry" where
  "registry_remove i reg = (map_of reg i, bt_remove i reg)"

definition registry_decode ::
    "bincode \<Rightarrow> schema_registry \<Rightarrow> proto_diff \<Rightarrow> (wire_row list, codec_error) result" where
  "registry_decode bc reg diff =
     rbind (ok_or (UnknownSchema (pd_schema_id diff)) (map_of reg (pd_schema_id diff)))
       (\<lambda>sch. decode_diff bc diff sch)"

definition registry_decode_transaction ::
    "bincode \<Rightarrow> schema_registry \<Rightarrow> proto_transaction_update \<Rightarrow> (wire_row_change list, codec_error) result" where
  "registry_decode_transaction bc reg update =
     rbind (ok_or (UnknownSchema (ptu_schema_id update)) (map_of reg (ptu_schema_id update)))
       (\<lambda>sch. decode_transaction_update bc update sch)"

section \<open>Rows on the wire\<close>

datatype server_codec_error = UnsupportedDatum | Wire codec_error

fun datum_to_wire :: "datum \<Rightarrow> (wire_datum, server_codec_error) result" where
  "datum_to_wire (DBool v) = Ok (WBool v)"
| "datum_to_wire (DI16 v) = Ok (WI16 v)"
| "datum_to_wire (DI32 v) = Ok (WI32 v)"
| "datum_to_wire (DI64 v) = Ok (WI64 v)"
| "datum_to_wire (DF32 bits) = Ok (WF32 bits)"
| "datum_to_wire (DF64 bits) = Ok (WF64 bits)"
| "datum_to_wire (DNumeric (BigDecimal s)) = Ok (WNumeric s)"
| "datum_to_wire (DText v) = Ok (WText v)"
| "datum_to_wire (DBytea v) = Ok (WBytea v)"
| "datum_to_wire (DJson v) = Ok (WJson v)"
| "datum_to_wire (DJsonb v) = Ok (WJsonb v)"
| "datum_to_wire (DUuid (Uuid bs)) = Ok (WUuid bs)"
| "datum_to_wire DNull = Ok WNull"
| "datum_to_wire (DDate d) = Ok (WDate (days_since_unix_epoch d))"
| "datum_to_wire (DTime t) = Ok (WTime (micros_since_midnight t))"
| "datum_to_wire (DTimestamp t) = Ok (WTimestamp (micros_since_unix_epoch t))"
| "datum_to_wire (DTimestampTz t) = Ok (WTimestampTz (tz_micros_since_unix_epoch t))"
| "datum_to_wire (DInterval i) = Ok (WInterval (months i) (days i) (micros i))"
| "datum_to_wire (DArray es) = rmap WArray (mapr datum_to_wire es)"
| "datum_to_wire DUnchanged = Err UnsupportedDatum"

fun wire_to_datum :: "wire_datum \<Rightarrow> datum" where
  "wire_to_datum (WBool v) = DBool v"
| "wire_to_datum (WI16 v) = DI16 v"
| "wire_to_datum (WI32 v) = DI32 v"
| "wire_to_datum (WI64 v) = DI64 v"
| "wire_to_datum (WF32 bits) = DF32 bits"
| "wire_to_datum (WF64 bits) = DF64 bits"
| "wire_to_datum (WNumeric s) = DNumeric (BigDecimal s)"
| "wire_to_datum (WText v) = DText v"
| "wire_to_datum (WBytea v) = DBytea v"
| "wire_to_datum (WJson v) = DJson v"
| "wire_to_datum (WJsonb v) = DJsonb v"
| "wire_to_datum (WUuid bs) = DUuid (Uuid bs)"
| "wire_to_datum WNull = DNull"
| "wire_to_datum (WDate d) = DDate \<lparr>days_since_unix_epoch = d\<rparr>"
| "wire_to_datum (WTime t) = DTime \<lparr>micros_since_midnight = t\<rparr>"
| "wire_to_datum (WTimestamp t) = DTimestamp \<lparr>micros_since_unix_epoch = t\<rparr>"
| "wire_to_datum (WTimestampTz t) = DTimestampTz \<lparr>tz_micros_since_unix_epoch = t\<rparr>"
| "wire_to_datum (WInterval m d u) = DInterval \<lparr>months = m, days = d, micros = u\<rparr>"
| "wire_to_datum (WArray es) = DArray (map wire_to_datum es)"

definition encode_rows :: "bincode \<Rightarrow> row list \<Rightarrow> (string, server_codec_error) result" where
  "encode_rows bc rows =
     rbind (mapr (mapr datum_to_wire) rows) (\<lambda>wire_rows. map_err Wire (wire_encode_rows bc wire_rows))"

definition encode_row :: "bincode \<Rightarrow> row \<Rightarrow> (string, server_codec_error) result" where
  "encode_row bc r = encode_rows bc [r]"

definition decode_rows :: "bincode \<Rightarrow> string \<Rightarrow> (row list, server_codec_error) result" where
  "decode_rows bc bytes =
     rbind (map_err Wire (wire_decode_rows bc bytes)) (\<lambda>wire_rows. Ok (map (map wire_to_datum) wire_rows))"

section \<open>Events and messages\<close>

datatype diff_op = OpInitial | OpInsert | OpUpdate | OpDelete

record row_change =
  rc_op :: diff_op
  rc_old :: "row option"
  rc_new :: "row option"

datatype resync_reason = LsnCompacted | SchemaChanged | Backpressure | SlotRecreated | PermissionsChanged

datatype proto_resync_reason =
    PRUnspecified | PRLsnCompacted | PRSchemaChanged | PRBackpressure | PRSlotRecreated
  | PRPermissionsChanged

datatype diff_event =
    DeInitial lsn "row list"
  | DeUpdate lsn "row_change list"
  | DeTransactionUpdate "u32 option" "lsn option" lsn "lsn option" "row_change list"
  | DeResync resync_reason

record column_spec =
  sp_name :: string
  sp_datum_type :: datum_type
  sp_nullable :: bool

record schema_definition =
  sd_id :: u64
  sd_columns :: "column_spec list"
  sd_primary_key_columns :: "nat list"

definition resync_reason_tag :: "proto_resync_reason \<Rightarrow> i32" where
  "resync_reason_tag r = (case r of PRUnspecified \<Rightarrow> 0 | PRLsnCompacted \<Rightarrow> 1 | PRSchemaChanged \<Rightarrow> 2
     | PRBackpressure \<Rightarrow> 3 | PRSlotRecreated \<Rightarrow> 4 | PRPermissionsChanged \<Rightarrow> 5)"

definition resync_reason_try_from :: "i32 \<Rightarrow> proto_resync_reason option" where
  "resync_reason_try_from n = (if n = 0 then Some PRUnspecified else if n = 1 then Some PRLsnCompacted
     else if n = 2 then Some PRSchemaChanged else if n = 3 then Some PRBackpressure
     else if n = 4 then Some PRSlotRecreated else if n = 5 then Some PRPermissionsChanged else None)"

record proto_accepted =
  pa_subscription_id :: string
  pa_schema_id :: u64
  pa_snapshot_lsn :: u64
  pa_schema :: "proto_schema option"

record proto_resync =
  prs_subscription_id :: string
  prs_reason :: i32
  prs_message :: string

record proto_error =
  pe_subscription_id :: string
  pe_code :: string
  pe_message :: string

datatype server_message =
    MsgAccepted proto_accepted
  | MsgDiff proto_diff
  | MsgResync proto_resync
  | MsgError proto_error
  | MsgTransactionUpdate proto_transaction_update

fun diff_op_to_proto :: "diff_op \<Rightarrow> proto_diff_op" where
  "diff_op_to_proto OpInitial = POpInitial"
| "diff_op_to_proto OpInsert = POpInsert"
| "diff_op_to_proto OpUpdate = POpUpdate"
| "diff_op_to_proto OpDelete = POpDelete"

fun resync_reason_to_proto :: "resync_reason \<Rightarrow> proto_resync_reason" where
  "resync_reason_to_proto LsnCompacted = PRLsnCompacted"
| "resync_reason_to_proto SchemaChanged = PRSchemaChanged"
| "resync_reason_to_proto PermissionsChanged = PRPermissionsChanged"
| "resync_reason_to_proto Backpressure = PRBackpressure"
| "resync_reason_to_proto SlotRecreated = PRSlotRecreated"

fun resync_reason_debug :: "resync_reason \<Rightarrow> string" where
  "resync_reason_debug LsnCompacted = ''LsnCompacted''"
| "resync_reason_debug SchemaChanged = ''SchemaChanged''"
| "resync_reason_debug Backpressure = ''Backpressure''"
| "resync_reason_debug SlotRecreated = ''SlotRecreated''"
| "resync_reason_debug PermissionsChanged = ''PermissionsChanged''"

fun datum_type_to_proto :: "datum_type \<Rightarrow> proto_datum_type" where
  "datum_type_to_proto TBool = PTBool"
| "datum_type_to_proto TI16 = PTI16"
| "datum_type_to_proto TI32 = PTI32"
| "datum_type_to_proto TI64 = PTI64"
| "datum_type_to_proto TF32 = PTF32"
| "datum_type_to_proto TF64 = PTF64"
| "datum_type_to_proto TNumeric = PTNumeric"
| "datum_type_to_proto TText = PTText"
| "datum_type_to_proto TBytea = PTBytea"
| "datum_type_to_proto TDate = PTDate"
| "datum_type_to_proto TTime = PTTime"
| "datum_type_to_proto TTimestamp = PTTimestamp"
| "datum_type_to_proto TTimestampTz = PTTimestampTz"
| "datum_type_to_proto TInterval = PTInterval"
| "datum_type_to_proto TUuid = PTUuid"
| "datum_type_to_proto TJson = PTJson"
| "datum_type_to_proto TJsonb = PTJsonb"
| "datum_type_to_proto (TArray _) = PTArray"

definition column_spec_to_proto :: "column_spec \<Rightarrow> proto_column" where
  "column_spec_to_proto c = \<lparr>pc_name = sp_name c,
     pc_type = datum_type_tag (datum_type_to_proto (sp_datum_type c)), pc_nullable = sp_nullable c\<rparr>"

definition u32_or_max :: "nat \<Rightarrow> u32" where
  "u32_or_max i = (if i < 2 ^ 32 then of_nat i else - 1)"

definition schema_to_proto :: "schema_definition \<Rightarrow> proto_schema" where
  "schema_to_proto sch = \<lparr>ps_columns = map column_spec_to_proto (sd_columns sch),
     ps_primary_key_columns = map u32_or_max (sd_primary_key_columns sch)\<rparr>"

fun column_type_to_datum_type :: "column_type \<Rightarrow> datum_type" where
  "column_type_to_datum_type CtBool = TBool"
| "column_type_to_datum_type CtInt = TI64"
| "column_type_to_datum_type CtFloat = TF64"
| "column_type_to_datum_type CtText = TText"
| "column_type_to_datum_type CtTimestamp = TTimestamp"
| "column_type_to_datum_type CtTimestampTz = TTimestampTz"
| "column_type_to_datum_type CtDate = TDate"
| "column_type_to_datum_type CtTime = TTime"
| "column_type_to_datum_type CtInterval = TInterval"
| "column_type_to_datum_type CtNumeric = TNumeric"
| "column_type_to_datum_type CtBytea = TBytea"
| "column_type_to_datum_type CtUuid = TUuid"
| "column_type_to_datum_type CtJsonb = TJsonb"
| "column_type_to_datum_type CtEnum = TText"
| "column_type_to_datum_type CtArray = TArray TText"
| "column_type_to_datum_type CtUnknown = TText"

text \<open>\<^verbatim>\<open>schema_definition_from_plan\<close>: the schema announced for a compiled plan, given its output
  columns.\<close>

definition schema_definition_from_plan :: "(string \<times> column_type) list \<Rightarrow> schema_definition" where
  "schema_definition_from_plan output_columns = \<lparr>sd_id = 0,
     sd_columns = map (\<lambda>(name, ty). \<lparr>sp_name = name, sp_datum_type = column_type_to_datum_type ty,
       sp_nullable = True\<rparr>) output_columns,
     sd_primary_key_columns = [0]\<rparr>"

fun seen_op :: "diff_op \<Rightarrow> row_change list \<Rightarrow> bool" where
  "seen_op op [] = False"
| "seen_op op (c # cs) = (rc_op c = op \<or> seen_op op cs)"

definition dominant_op :: "row_change list \<Rightarrow> diff_op" where
  "dominant_op changes =
     (if seen_op OpInitial changes then OpInitial
      else case (seen_op OpInsert changes, seen_op OpUpdate changes, seen_op OpDelete changes) of
        (True, False, False) \<Rightarrow> OpInsert
      | (False, False, True) \<Rightarrow> OpDelete
      | _ \<Rightarrow> OpUpdate)"

fun ok_option :: "('a, 'e) result \<Rightarrow> 'a option" where
  "ok_option (Ok x) = Some x"
| "ok_option _ = None"

definition encode_changes :: "bincode \<Rightarrow> row_change list \<Rightarrow> (proto_diff_op \<times> string) option" where
  "encode_changes bc changes =
     map_option (\<lambda>bytes. (diff_op_to_proto (dominant_op changes), bytes))
       (ok_option (encode_rows bc (List.map_filter (\<lambda>c. case rc_new c of Some r \<Rightarrow> Some r | None \<Rightarrow> rc_old c) changes)))"

fun encode_optional_row :: "bincode \<Rightarrow> row option \<Rightarrow> string option option" where
  "encode_optional_row bc None = Some None"
| "encode_optional_row bc (Some r) = map_option Some (ok_option (encode_row bc r))"

definition encode_change :: "bincode \<Rightarrow> row_change \<Rightarrow> proto_row_change option" where
  "encode_change bc c =
     (case encode_optional_row bc (rc_old c) of
        None \<Rightarrow> None
      | Some old_row \<Rightarrow>
          (case encode_optional_row bc (rc_new c) of
             None \<Rightarrow> None
           | Some new_row \<Rightarrow> Some \<lparr>prc_op = diff_op_tag (diff_op_to_proto (rc_op c)),
               prc_old_row = old_row, prc_new_row = new_row\<rparr>))"

fun collect_options :: "'a option list \<Rightarrow> 'a list option" where
  "collect_options [] = Some []"
| "collect_options (x # xs) =
     (case x of None \<Rightarrow> None | Some y \<Rightarrow> map_option ((#) y) (collect_options xs))"

definition encode_transaction_changes :: "bincode \<Rightarrow> row_change list \<Rightarrow> proto_row_change list option" where
  "encode_transaction_changes bc changes = collect_options (map (encode_change bc) changes)"

fun diff_event_to_message :: "bincode \<Rightarrow> string \<Rightarrow> u64 \<Rightarrow> diff_event \<Rightarrow> server_message option" where
  "diff_event_to_message bc client_sub schema_id (DeInitial at rows) =
     map_option (\<lambda>bytes. MsgDiff \<lparr>pd_subscription_id = client_sub, pd_lsn = at,
         pd_op = diff_op_tag POpInitial, pd_schema_id = schema_id, pd_rows = bytes\<rparr>)
       (ok_option (encode_rows bc rows))"
| "diff_event_to_message bc client_sub schema_id (DeUpdate at changes) =
     map_option (\<lambda>(op, rows). MsgDiff \<lparr>pd_subscription_id = client_sub, pd_lsn = at,
         pd_op = diff_op_tag op, pd_schema_id = schema_id, pd_rows = rows\<rparr>)
       (encode_changes bc changes)"
| "diff_event_to_message bc client_sub schema_id (DeTransactionUpdate tx begin_at commit_at end_at changes) =
     map_option (\<lambda>cs. MsgTransactionUpdate \<lparr>ptu_subscription_id = client_sub,
         ptu_commit_lsn = commit_at, ptu_begin_lsn = begin_at, ptu_end_lsn = end_at,
         ptu_transaction_id = tx, ptu_schema_id = schema_id, ptu_chunk_index = 0,
         ptu_chunk_count = 1, ptu_changes = cs\<rparr>)
       (encode_transaction_changes bc changes)"
| "diff_event_to_message bc client_sub schema_id (DeResync reason) =
     Some (MsgResync \<lparr>prs_subscription_id = client_sub,
       prs_reason = resync_reason_tag (resync_reason_to_proto reason),
       prs_message = resync_reason_debug reason\<rparr>)"

section \<open>Round trips\<close>

definition bincode_lossless :: "bincode \<Rightarrow> bool" where
  "bincode_lossless bc \<longleftrightarrow>
     (\<forall>rows bytes. bc_serialize bc rows = Ok bytes \<longrightarrow> bc_deserialize bc bytes = Ok rows)"

fun resolved :: "datum \<Rightarrow> bool" where
  "resolved (DArray ds) = list_all resolved ds"
| "resolved DUnchanged = False"
| "resolved _ = True"

lemma map_err_eq_Ok [simp]: "map_err f m = Ok x \<longleftrightarrow> m = Ok x"
  by (cases m) auto

lemma ok_option_eq_Some [simp]: "ok_option m = Some x \<longleftrightarrow> m = Ok x"
  by (cases m) auto

lemma mapr_inverse:
  assumes "mapr f xs = Ok ys" and "\<And>x y. x \<in> set xs \<Longrightarrow> f x = Ok y \<Longrightarrow> g y = x"
  shows "map g ys = xs"
  using assms by (induction xs arbitrary: ys) (auto simp: rbind_eq_Ok)

lemma wire_to_datum_inverse: "datum_to_wire d = Ok w \<Longrightarrow> wire_to_datum w = d"
proof (induction d arbitrary: w)
  case (DArray es)
  then show ?case by (auto simp: rmap_eq_Ok) (erule mapr_inverse, blast)
next
  case (DNumeric n)
  then show ?case by (cases n) auto
next
  case (DUuid u)
  then show ?case by (cases u) auto
qed auto

lemma mapr_is_ok: "(\<exists>ys. mapr f xs = Ok ys) \<longleftrightarrow> (\<forall>x \<in> set xs. \<exists>y. f x = Ok y)"
  by (induction xs) (auto simp: rbind_eq_Ok)

lemma datum_to_wire_ok: "(\<exists>w. datum_to_wire d = Ok w) \<longleftrightarrow> resolved d"
proof (induction d)
  case (DArray es)
  have "(\<exists>w. datum_to_wire (DArray es) = Ok w) \<longleftrightarrow> (\<exists>ws. mapr datum_to_wire es = Ok ws)"
    by (auto simp: rmap_eq_Ok)
  then show ?case using DArray by (simp add: mapr_is_ok list_all_iff)
next
  case (DNumeric n)
  then show ?case by (cases n) auto
next
  case (DUuid u)
  then show ?case by (cases u) auto
qed auto

lemma mapr_single_error:
  assumes "\<And>x. x \<in> set xs \<Longrightarrow> f x = Err e \<or> (\<exists>y. f x = Ok y)"
  shows "mapr f xs = Err e \<or> (\<exists>ys. mapr f xs = Ok ys)"
  using assms
proof (induction xs)
  case (Cons x xs)
  then have "f x = Err e \<or> (\<exists>y. f x = Ok y)" and "mapr f xs = Err e \<or> (\<exists>ys. mapr f xs = Ok ys)"
    by simp_all
  then show ?case by auto
qed simp

lemma datum_to_wire_cases: "datum_to_wire d = Err UnsupportedDatum \<or> (\<exists>w. datum_to_wire d = Ok w)"
proof (induction d)
  case (DArray es)
  then show ?case using mapr_single_error [of es datum_to_wire UnsupportedDatum] by auto
next
  case (DNumeric n)
  then show ?case by (cases n) auto
next
  case (DUuid u)
  then show ?case by (cases u) auto
qed auto

lemma wire_rows_cases:
  "mapr (mapr datum_to_wire) rows = Err UnsupportedDatum \<or> (\<exists>ws. mapr (mapr datum_to_wire) rows = Ok ws)"
  by (intro mapr_single_error datum_to_wire_cases)

lemma wire_rows_ok:
  "(\<exists>ws. mapr (mapr datum_to_wire) rows = Ok ws) \<longleftrightarrow> list_all (list_all resolved) rows"
  by (simp add: mapr_is_ok datum_to_wire_ok list_all_iff)

lemma wire_rows_inverse:
  "mapr (mapr datum_to_wire) rows = Ok ws \<Longrightarrow> map (map wire_to_datum) ws = rows"
  by (erule mapr_inverse) (erule mapr_inverse, erule wire_to_datum_inverse)

lemma encode_rows_Ok_iff:
  "encode_rows bc rows = Ok bytes \<longleftrightarrow>
     (\<exists>ws. mapr (mapr datum_to_wire) rows = Ok ws \<and> bc_serialize bc ws = Ok bytes)"
  by (auto simp: encode_rows_def wire_encode_rows_def rbind_eq_Ok)

lemma encode_rows_decodes:
  assumes "bincode_lossless bc" and "encode_rows bc rows = Ok bytes"
  obtains ws where "bc_deserialize bc bytes = Ok ws" and "mapr (mapr datum_to_wire) rows = Ok ws"
  using assms by (auto simp: encode_rows_Ok_iff bincode_lossless_def)

text \<open>C34: A row payload encoded by the server decodes to the same rows; encoding a row list with an
  unresolved \<^verbatim>\<open>Unchanged\<close> placeholder is refused, and any other failure is the serializer's.\<close>

theorem encode_rows_roundtrip:
  assumes "bincode_lossless bc"
  shows "(encode_rows bc rows = Ok bytes \<longrightarrow> decode_rows bc bytes = Ok rows)
    \<and> (if list_all (list_all resolved) rows
       then \<exists>ws. map (map wire_to_datum) ws = rows \<and>
              encode_rows bc rows = map_err (\<lambda>e. Wire (Encode e)) (bc_serialize bc ws)
       else encode_rows bc rows = Err UnsupportedDatum)"
proof (rule conjI)
  show "encode_rows bc rows = Ok bytes \<longrightarrow> decode_rows bc bytes = Ok rows"
  proof
    assume "encode_rows bc rows = Ok bytes"
    then obtain ws where "bc_deserialize bc bytes = Ok ws" "mapr (mapr datum_to_wire) rows = Ok ws"
      by (rule encode_rows_decodes [OF assms])
    then show "decode_rows bc bytes = Ok rows"
      using wire_rows_inverse [of rows ws] by (simp add: decode_rows_def wire_decode_rows_def)
  qed
  have *: "map_err Wire (map_err Encode m) = map_err (\<lambda>e. Wire (Encode e)) m"
    for m :: "(string, string) result"
    by (cases m) auto
  show "if list_all (list_all resolved) rows
       then \<exists>ws. map (map wire_to_datum) ws = rows \<and>
              encode_rows bc rows = map_err (\<lambda>e. Wire (Encode e)) (bc_serialize bc ws)
       else encode_rows bc rows = Err UnsupportedDatum"
  proof (cases "\<exists>ws. mapr (mapr datum_to_wire) rows = Ok ws")
    case True
    then obtain ws where "mapr (mapr datum_to_wire) rows = Ok ws" by blast
    then show ?thesis using wire_rows_inverse [of rows ws] wire_rows_ok [of rows]
      by (auto simp: encode_rows_def wire_encode_rows_def *)
  next
    case False
    then show ?thesis using wire_rows_cases [of rows] wire_rows_ok [of rows]
      by (auto simp: encode_rows_def)
  qed
qed

text \<open>A one-payload instance of the serializer, for the witnesses.\<close>

definition demo_bincode :: "wire_row list \<Rightarrow> bincode" where
  "demo_bincode rows0 = \<lparr>bc_serialize = (\<lambda>rows. if rows = rows0 then Ok ''payload'' else Err ''unsupported''),
     bc_deserialize = (\<lambda>bytes. if bytes = ''payload'' then Ok rows0 else Err ''corrupt'')\<rparr>"

lemma demo_bincode_lossless: "bincode_lossless (demo_bincode rows0)"
  by (auto simp: bincode_lossless_def demo_bincode_def split: if_splits)

lemma encode_rows_roundtrip_witness:
  "encode_rows (demo_bincode [[WI32 7, WNull, WArray [WText ''a'']]])
     [[DI32 7, DNull, DArray [DText ''a'']]] = Ok ''payload''
   \<and> decode_rows (demo_bincode [[WI32 7, WNull, WArray [WText ''a'']]]) ''payload''
     = Ok [[DI32 7, DNull, DArray [DText ''a'']]]"
proof -
  let ?bc = "demo_bincode [[WI32 7, WNull, WArray [WText ''a'']]]"
  have "encode_rows ?bc [[DI32 7, DNull, DArray [DText ''a'']]] = Ok ''payload''"
    by (simp add: encode_rows_def wire_encode_rows_def demo_bincode_def)
  then show ?thesis
    using encode_rows_roundtrip [OF demo_bincode_lossless, THEN conjunct1, THEN mp,
        of "[[WI32 7, WNull, WArray [WText ''a'']]]" "[[DI32 7, DNull, DArray [DText ''a'']]]" "''payload''"]
    by (intro conjI)
qed

section \<open>What the client decodes\<close>

definition row_conforms :: "schema_definition \<Rightarrow> row \<Rightarrow> bool" where
  "row_conforms sch r = list_all2 (\<lambda>d c. if d = DNull then sp_nullable c else datum_has_type (sp_datum_type c) d)
     r (sd_columns sch)"

definition change_conforms :: "schema_definition \<Rightarrow> row_change \<Rightarrow> bool" where
  "change_conforms sch c \<longleftrightarrow> pred_option (row_conforms sch) (rc_old c) \<and> pred_option (row_conforms sch) (rc_new c)"

definition change_matches :: "wire_row_change \<Rightarrow> row_change \<Rightarrow> bool" where
  "change_matches w c \<longleftrightarrow> wrc_op w = diff_op_to_proto (rc_op c)
     \<and> map_option (map wire_to_datum) (wrc_old w) = rc_old c
     \<and> map_option (map wire_to_datum) (wrc_new w) = rc_new c"

lemma datum_type_tag_roundtrip [simp]: "datum_type_try_from (datum_type_tag t) = Some t"
  by (cases t) (simp_all add: datum_type_try_from_def proto_types_def)

lemma diff_op_tag_roundtrip [simp]: "diff_op_try_from (diff_op_tag p) = Some p"
  by (cases p) (simp_all add: diff_op_try_from_def diff_op_tag_def)

lemma declared_type_spec [simp]:
  "declared_type (column_spec_to_proto c) = datum_type_to_proto (sp_datum_type c)"
  by (simp add: declared_type_def column_spec_to_proto_def)

lemma wire_is_compatible_simps [simp]:
  "wire_is_compatible WNull p b = b"
  "wire_is_compatible (WBool v1) p b \<longleftrightarrow> p = PTBool \<or> p = PTUnspecified"
  "wire_is_compatible (WI16 v2) p b \<longleftrightarrow> p = PTI16 \<or> p = PTUnspecified"
  "wire_is_compatible (WI32 v3) p b \<longleftrightarrow> p = PTI32 \<or> p = PTUnspecified"
  "wire_is_compatible (WI64 v4) p b \<longleftrightarrow> p = PTI64 \<or> p = PTUnspecified"
  "wire_is_compatible (WF32 v5) p b \<longleftrightarrow> p = PTF32 \<or> p = PTUnspecified"
  "wire_is_compatible (WF64 v6) p b \<longleftrightarrow> p = PTF64 \<or> p = PTUnspecified"
  "wire_is_compatible (WNumeric v7) p b \<longleftrightarrow> p = PTNumeric \<or> p = PTUnspecified"
  "wire_is_compatible (WText v8) p b \<longleftrightarrow> p = PTText \<or> p = PTUnspecified"
  "wire_is_compatible (WBytea v9) p b \<longleftrightarrow> p = PTBytea \<or> p = PTUnspecified"
  "wire_is_compatible (WJson v10) p b \<longleftrightarrow> p = PTJson \<or> p = PTUnspecified"
  "wire_is_compatible (WJsonb v11) p b \<longleftrightarrow> p = PTJsonb \<or> p = PTUnspecified"
  "wire_is_compatible (WUuid v12) p b \<longleftrightarrow> p = PTUuid \<or> p = PTUnspecified"
  "wire_is_compatible (WDate v13) p b \<longleftrightarrow> p = PTDate \<or> p = PTUnspecified"
  "wire_is_compatible (WTime v14) p b \<longleftrightarrow> p = PTTime \<or> p = PTUnspecified"
  "wire_is_compatible (WTimestamp v15) p b \<longleftrightarrow> p = PTTimestamp \<or> p = PTUnspecified"
  "wire_is_compatible (WTimestampTz v16) p b \<longleftrightarrow> p = PTTimestampTz \<or> p = PTUnspecified"
  "wire_is_compatible (WInterval mo dy mi) p b \<longleftrightarrow> p = PTInterval \<or> p = PTUnspecified"
  "wire_is_compatible (WArray vs) p b \<longleftrightarrow> p = PTArray \<or> p = PTUnspecified"
  by (simp_all add: wire_is_compatible_def)

lemma datum_has_type_simps [simp]:
  "datum_has_type t (DBool v17) \<longleftrightarrow> t = TBool"
  "datum_has_type t (DI16 v18) \<longleftrightarrow> t = TI16"
  "datum_has_type t (DI32 v19) \<longleftrightarrow> t = TI32"
  "datum_has_type t (DI64 v20) \<longleftrightarrow> t = TI64"
  "datum_has_type t (DF32 v21) \<longleftrightarrow> t = TF32"
  "datum_has_type t (DF64 v22) \<longleftrightarrow> t = TF64"
  "datum_has_type t (DNumeric v23) \<longleftrightarrow> t = TNumeric"
  "datum_has_type t (DText v24) \<longleftrightarrow> t = TText"
  "datum_has_type t (DBytea v25) \<longleftrightarrow> t = TBytea"
  "datum_has_type t (DJson v26) \<longleftrightarrow> t = TJson"
  "datum_has_type t (DJsonb v27) \<longleftrightarrow> t = TJsonb"
  "datum_has_type t (DDate v28) \<longleftrightarrow> t = TDate"
  "datum_has_type t (DTime v29) \<longleftrightarrow> t = TTime"
  "datum_has_type t (DTimestamp v30) \<longleftrightarrow> t = TTimestamp"
  "datum_has_type t (DTimestampTz v31) \<longleftrightarrow> t = TTimestampTz"
  "datum_has_type t (DInterval v32) \<longleftrightarrow> t = TInterval"
  "datum_has_type t (DUuid (Uuid bs)) \<longleftrightarrow> t = TUuid \<and> length bs = 16"
  "datum_has_type t (DArray ds) \<longleftrightarrow> (\<exists>u. t = TArray u \<and> list_all (datum_has_type u) ds)"
  "\<not> datum_has_type t DNull" "\<not> datum_has_type t DUnchanged"
  by (cases t; simp)+

lemma typed_datum_compatible:
  assumes "datum_has_type t d" and "datum_to_wire d = Ok w"
  shows "wire_is_compatible w (datum_type_to_proto t) b"
  using assms by (cases d rule: datum_to_wire.cases) (auto simp: rmap_eq_Ok)

lemma conforming_compatible:
  assumes "if d = DNull then sp_nullable c else datum_has_type (sp_datum_type c) d"
    and "datum_to_wire d = Ok w"
  shows "wire_is_compatible w (declared_type (column_spec_to_proto c)) (pc_nullable (column_spec_to_proto c))"
proof (cases "d = DNull")
  case True
  with assms have "w = WNull" and "sp_nullable c" by simp_all
  then show ?thesis by (simp add: column_spec_to_proto_def)
next
  case False
  then show ?thesis using assms by (simp add: typed_datum_compatible)
qed

lemma validate_datums_ok:
  "(\<forall>(d, c) \<in> set dcs. wire_is_compatible d (declared_type c) (pc_nullable c)) \<Longrightarrow> validate_datums i dcs = Ok ()"
  by (induction i dcs rule: validate_datums.induct) auto

lemma validate_row_conforming:
  assumes "row_conforms sch r" and "mapr datum_to_wire r = Ok w"
  shows "validate_row w (schema_to_proto sch) = Ok ()"
proof -
  have len: "length w = length (sd_columns sch)"
    using assms mapr_length [OF assms(2)] by (simp add: row_conforms_def list_all2_lengthD)
  have "wire_is_compatible (w ! i) (declared_type (column_spec_to_proto (sd_columns sch ! i)))
      (pc_nullable (column_spec_to_proto (sd_columns sch ! i)))" if "i < length w" for i
    using assms that len
    by (intro conforming_compatible [of "r ! i"])
      (auto simp: row_conforms_def mapr_eq_Ok list_all2_conv_all_nth)
  then show ?thesis
    using len by (auto simp: validate_row_def schema_to_proto_def set_zip intro!: validate_datums_ok)
qed

lemma decode_single_row:
  assumes "bincode_lossless bc" and "encode_optional_row bc r = Some bytes"
    and "pred_option (row_conforms sch) r"
  shows "\<exists>w. decode_optional_single_row bc bytes (schema_to_proto sch) = Ok w
    \<and> map_option (map wire_to_datum) w = r"
proof (cases r)
  case None
  then show ?thesis using assms by (simp add: decode_optional_single_row_def)
next
  case (Some r')
  then obtain bs where bs: "bytes = Some bs" "encode_rows bc [r'] = Ok bs"
    using assms(2) by (auto simp: encode_row_def)
  obtain ws where ws: "bc_deserialize bc bs = Ok ws" "mapr (mapr datum_to_wire) [r'] = Ok ws"
    using encode_rows_decodes [OF assms(1) bs(2)] .
  then obtain w where w: "ws = [w]" "mapr datum_to_wire r' = Ok w"
    by (auto simp: rbind_eq_Ok)
  then have "validate_row w (schema_to_proto sch) = Ok ()"
    using assms(3) Some by (intro validate_row_conforming [of sch r']) simp_all
  then show ?thesis
    using bs ws w Some wire_rows_inverse [OF ws(2)]
    by (simp add: decode_optional_single_row_def wire_decode_rows_def)
qed

lemma decode_change_matches:
  assumes "bincode_lossless bc" and "encode_change bc c = Some p" and "change_conforms sch c"
  shows "\<exists>w. decode_row_change bc (schema_to_proto sch) p = Ok w \<and> change_matches w c"
proof -
  obtain old_row new_row where enc:
    "encode_optional_row bc (rc_old c) = Some old_row" "encode_optional_row bc (rc_new c) = Some new_row"
    and p: "p = \<lparr>prc_op = diff_op_tag (diff_op_to_proto (rc_op c)), prc_old_row = old_row, prc_new_row = new_row\<rparr>"
    using assms(2) by (auto simp: encode_change_def split: option.splits)
  obtain old new where
    "decode_optional_single_row bc old_row (schema_to_proto sch) = Ok old" "map_option (map wire_to_datum) old = rc_old c"
    "decode_optional_single_row bc new_row (schema_to_proto sch) = Ok new" "map_option (map wire_to_datum) new = rc_new c"
    using decode_single_row [OF assms(1) enc(1), of sch] decode_single_row [OF assms(1) enc(2), of sch] assms(3)
    by (auto simp: change_conforms_def)
  then show ?thesis by (simp add: p decode_row_change_def change_matches_def)
qed

lemma collect_options_mapr:
  assumes "collect_options (map f xs) = Some ys"
    and "\<And>x y. x \<in> set xs \<Longrightarrow> f x = Some y \<Longrightarrow> \<exists>z. g y = Ok z \<and> R z x"
  shows "\<exists>zs. mapr g ys = Ok zs \<and> list_all2 R zs xs"
  using assms
proof (induction xs arbitrary: ys)
  case (Cons x xs)
  then obtain y ys' where y: "f x = Some y" "collect_options (map f xs) = Some ys'" "ys = y # ys'"
    by (auto split: option.splits)
  obtain zs where "mapr g ys' = Ok zs" "list_all2 R zs xs"
    using Cons.IH [OF y(2)] Cons.prems(2) by auto
  moreover obtain z where "g y = Ok z" "R z x" using Cons.prems(2) [of x y] y(1) by auto
  ultimately show ?case using y(3) by auto
qed simp

text \<open>C7: When a transaction event whose rows conform to the announced schema is encoded, the client
  that registered that schema decodes exactly the event's row changes, in order, with the
  operations and images unchanged.\<close>

theorem transaction_update_delivered:
  assumes "bincode_lossless bc"
    and "diff_event_to_message bc client_sub (sd_id sch) (DeTransactionUpdate tx b c e changes)
           = Some (MsgTransactionUpdate u)"
    and "list_all (change_conforms sch) changes"
    and "bt_invar reg"
  shows "ptu_commit_lsn u = c \<and> ptu_subscription_id u = client_sub
    \<and> (\<exists>ws. registry_decode_transaction bc (registry_register (sd_id sch) (schema_to_proto sch) reg) u = Ok ws
         \<and> list_all2 change_matches ws changes)"
proof -
  obtain cs where cs: "collect_options (map (encode_change bc) changes) = Some cs"
    and u: "u = \<lparr>ptu_subscription_id = client_sub, ptu_commit_lsn = c, ptu_begin_lsn = b, ptu_end_lsn = e,
         ptu_transaction_id = tx, ptu_schema_id = sd_id sch, ptu_chunk_index = 0, ptu_chunk_count = 1,
         ptu_changes = cs\<rparr>"
    using assms(2) by (auto simp: encode_transaction_changes_def)
  have "\<exists>ws. mapr (decode_row_change bc (schema_to_proto sch)) cs = Ok ws \<and> list_all2 change_matches ws changes"
    using assms(3) by (intro collect_options_mapr [OF cs] decode_change_matches [OF assms(1)])
      (auto simp: list_all_iff)
  then show ?thesis
    using assms(4) by (simp add: u registry_decode_transaction_def registry_register_def bt.get_put
        decode_transaction_update_def)
qed

definition demo_schema :: schema_definition where
  "demo_schema = \<lparr>sd_id = 1, sd_columns = [\<lparr>sp_name = ''id'', sp_datum_type = TI64, sp_nullable = False\<rparr>,
     \<lparr>sp_name = ''note'', sp_datum_type = TText, sp_nullable = True\<rparr>], sd_primary_key_columns = [0]\<rparr>"

lemma transaction_update_delivered_witness:
  "\<exists>u. diff_event_to_message (demo_bincode [[WI64 5, WNull]]) ''s'' (sd_id demo_schema)
       (DeTransactionUpdate (Some 9) None 100 None [\<lparr>rc_op = OpInsert, rc_old = None, rc_new = Some [DI64 5, DNull]\<rparr>])
     = Some (MsgTransactionUpdate u)
   \<and> (\<exists>ws. registry_decode_transaction (demo_bincode [[WI64 5, WNull]])
          (registry_register (sd_id demo_schema) (schema_to_proto demo_schema) []) u = Ok ws
        \<and> list_all2 change_matches ws [\<lparr>rc_op = OpInsert, rc_old = None, rc_new = Some [DI64 5, DNull]\<rparr>])"
proof -
  let ?bc = "demo_bincode [[WI64 5, WNull]]"
  let ?c = "\<lparr>rc_op = OpInsert, rc_old = None, rc_new = Some [DI64 5, DNull]\<rparr>"
  obtain u where u: "diff_event_to_message ?bc ''s'' (sd_id demo_schema)
      (DeTransactionUpdate (Some 9) None 100 None [?c]) = Some (MsgTransactionUpdate u)"
    by (simp add: encode_transaction_changes_def encode_change_def encode_row_def encode_rows_def
        wire_encode_rows_def demo_bincode_def)
  have "list_all (change_conforms demo_schema) [?c]"
    by (simp add: change_conforms_def row_conforms_def demo_schema_def)
  from transaction_update_delivered [OF demo_bincode_lossless u this, of "[]"] u
  show ?thesis by auto
qed

end
