(* ===== verification/Permissions.thy ===== *)
theory Permissions
  imports Wal_Datum Sql_Mir
begin

text \<open>
  Row-level permissions: user contexts (\<^verbatim>\<open>palimpsest-permissions/src/user.rs\<close>), rules (\<^verbatim>\<open>rule.rs\<close>),
  predicate compilation and materialization (\<^verbatim>\<open>compile.rs\<close>), the graph rewriter (\<^verbatim>\<open>rewriter.rs\<close>), rule
  versions (\<^verbatim>\<open>version.rs\<close>) and the canonical key under which subscriptions share a dataflow
  (\<^verbatim>\<open>palimpsest-server/src/router.rs\<close>).  Printing a floating-point number, the SQL parser and the
  derived debug printing are parameters.  A JSON document is represented by its compact,
  key-sorted rendering.
\<close>

section \<open>User values\<close>

datatype user_value =
    UBool bool
  | UInt i64
  | UFloat u64
  | UText string
  | UTimestamp string
  | UUuid string
  | UJsonb string
  | UEnum string
  | UList "user_value list"
  | UNull

datatype permission_error =
    UnknownUserField string string
  | UnknownColumn string string string
  | UnknownTable string string
  | DuplicateRuleName string
  | AmbiguousRule string string string string
  | MalformedUserReference string string
  | MissingUserValue string
  | PredicateTooDeep string nat nat
  | InvalidUserValue string string
  | UserValueTypeMismatch string column_type column_type
  | InvalidConfig string
  | RuleSql string string sql_error

fun user_value_column_type :: "user_value \<Rightarrow> column_type" where
  "user_value_column_type (UBool _) = CtBool"
| "user_value_column_type (UInt _) = CtInt"
| "user_value_column_type (UFloat _) = CtFloat"
| "user_value_column_type (UText _) = CtText"
| "user_value_column_type (UTimestamp _) = CtTimestamp"
| "user_value_column_type (UUuid _) = CtUuid"
| "user_value_column_type (UJsonb _) = CtJsonb"
| "user_value_column_type (UEnum _) = CtEnum"
| "user_value_column_type (UList items) = (case items of [] \<Rightarrow> CtUnknown | v # _ \<Rightarrow> user_value_column_type v)"
| "user_value_column_type UNull = CtUnknown"

definition ascii_lower :: "char \<Rightarrow> char" where
  "ascii_lower c = (if 65 \<le> byte c \<and> byte c \<le> 90 then char_of (byte c + 32) else c)"

definition ascii_hexdigit :: "string \<Rightarrow> bool" where
  "ascii_hexdigit ch = (case ch of [b] \<Rightarrow> hex_nibble b \<noteq> None | _ \<Rightarrow> False)"

definition normalized_uuid :: "string \<Rightarrow> string option" where
  "normalized_uuid raw = (
     let t = str_trim raw;
         t = (case Option.bind (strip_prefix ''{'' t) (strip_suffix ''}'') of None \<Rightarrow> t | Some b \<Rightarrow> b);
         hex = (if length t = 36
                then (if t ! 8 \<noteq> CHR ''-'' \<or> t ! 13 \<noteq> CHR ''-'' \<or> t ! 18 \<noteq> CHR ''-'' \<or> t ! 23 \<noteq> CHR ''-'' then None
                      else Some (filter (\<lambda>ch. ch \<noteq> ''-'') (utf8_chars t)))
                else if length t = 32 then Some (utf8_chars t) else None)
     in case hex of None \<Rightarrow> None
        | Some chs \<Rightarrow> if length chs \<noteq> 32 \<or> \<not> list_all ascii_hexdigit chs then None
            else (let l = map ascii_lower (concat chs) in
              Some (take 8 l @ ''-'' @ take 4 (drop 8 l) @ ''-'' @ take 4 (drop 12 l) @ ''-'' @
                take 4 (drop 16 l) @ ''-'' @ take 12 (drop 20 l))))"

definition normalize_or_raw :: "string \<Rightarrow> string" where
  "normalize_or_raw raw = (case normalized_uuid raw of None \<Rightarrow> raw | Some u \<Rightarrow> u)"

definition user_value_uuid :: "string \<Rightarrow> (user_value, permission_error) result" where
  "user_value_uuid raw = ok_or (InvalidUserValue [] (CHR 0x27 # raw @ CHR 0x27 # '' is not a valid UUID''))
     (map_option UUuid (normalized_uuid raw))"

definition sql_quote :: "string \<Rightarrow> string" where
  "sql_quote s = CHR 0x27 # double_quotes (CHR 0x27) s @ [CHR 0x27]"

fun intercalate :: "'a list \<Rightarrow> 'a list list \<Rightarrow> 'a list" where
  "intercalate sep [] = []"
| "intercalate sep [x] = x"
| "intercalate sep (x # y # ys) = x @ sep @ intercalate sep (y # ys)"

definition show_bool :: "bool \<Rightarrow> string" where
  "show_bool b = (if b then ''true'' else ''false'')"

fun to_sql_literal :: "(u64 \<Rightarrow> string) \<Rightarrow> user_value \<Rightarrow> string" where
  "to_sql_literal show_f64 (UBool b) = show_bool b"
| "to_sql_literal show_f64 (UInt i) = show_int (sint i)"
| "to_sql_literal show_f64 (UFloat f) = show_f64 f"
| "to_sql_literal show_f64 (UText s) = sql_quote s"
| "to_sql_literal show_f64 (UTimestamp s) = sql_quote s"
| "to_sql_literal show_f64 (UEnum s) = sql_quote s"
| "to_sql_literal show_f64 (UUuid s) = sql_quote (normalize_or_raw s)"
| "to_sql_literal show_f64 (UJsonb s) = sql_quote s"
| "to_sql_literal show_f64 (UList items) =
     ''ARRAY['' @ intercalate '', '' (map (to_sql_literal show_f64) items) @ '']''"
| "to_sql_literal show_f64 UNull = ''NULL''"

text \<open>A representation with its length in front, so that it can be told from what follows.\<close>

definition framed :: "string \<Rightarrow> string" where
  "framed s = show_nat (length s) @ '':'' @ s"

fun canonical_repr :: "(u64 \<Rightarrow> string) \<Rightarrow> user_value \<Rightarrow> string" where
  "canonical_repr show_f64 (UBool b) = ''bool:'' @ show_bool b"
| "canonical_repr show_f64 (UInt i) = ''int:'' @ show_int (sint i)"
| "canonical_repr show_f64 (UFloat f) = ''float:'' @ show_f64 f"
| "canonical_repr show_f64 (UText s) = ''text:'' @ s"
| "canonical_repr show_f64 (UTimestamp s) = ''ts:'' @ s"
| "canonical_repr show_f64 (UUuid s) = ''uuid:'' @ normalize_or_raw s"
| "canonical_repr show_f64 (UJsonb s) = ''jsonb:'' @ s"
| "canonical_repr show_f64 (UEnum s) = ''enum:'' @ s"
| "canonical_repr show_f64 (UList items) =
     ''list:['' @ intercalate '','' (map framed (remdups_adj (sort (map (canonical_repr show_f64) items)))) @ '']''"
| "canonical_repr show_f64 UNull = ''null''"

type_synonym user_context_schema = "(string, column_type) btree"
type_synonym user_context = "(string, user_value) btree"

definition validate_scalar ::
  "string \<Rightarrow> user_value \<Rightarrow> column_type option \<Rightarrow> (unit, permission_error) result" where
  "validate_scalar field v expected = (
     let bad = (\<lambda>raw. Err (InvalidUserValue field (CHR 0x27 # raw @ CHR 0x27 # '' is not a valid UUID'')))
     in rbind (case v of UUuid raw \<Rightarrow> if normalized_uuid raw = None then bad raw else Ok () | _ \<Rightarrow> Ok ()) (\<lambda>_.
       case expected of None \<Rightarrow> Ok ()
       | Some ty \<Rightarrow>
           if v = UNull then Ok ()
           else if \<not> is_compatible_with ty (user_value_column_type v)
             \<or> (ty = CtJsonb \<and> \<not> (case v of UJsonb _ \<Rightarrow> True | _ \<Rightarrow> False))
           then Err (UserValueTypeMismatch field ty (user_value_column_type v))
           else if ty = CtUuid then (case v of UText raw \<Rightarrow> if normalized_uuid raw = None then bad raw else Ok ()
             | _ \<Rightarrow> Ok ())
           else Ok ()))"

definition validate_item :: "string \<Rightarrow> column_type option \<Rightarrow> user_value \<Rightarrow> (unit, permission_error) result" where
  "validate_item field expected item = (case item of
     UList _ \<Rightarrow> Err (InvalidUserValue field ''nested lists are not supported'')
   | UJsonb _ \<Rightarrow> Err (InvalidUserValue field ''jsonb documents inside lists are not supported'')
   | _ \<Rightarrow> validate_scalar field item expected)"

definition user_context_validate ::
  "user_context \<Rightarrow> user_context_schema \<Rightarrow> (unit, permission_error) result" where
  "user_context_validate ctx schema = rmap (\<lambda>_. ()) (mapr (\<lambda>(field, v).
     let expected = map_of schema field in
     case v of UList items \<Rightarrow> rmap (\<lambda>_. ()) (mapr (validate_item field expected) items)
     | _ \<Rightarrow> validate_scalar field v expected) ctx)"

section \<open>Rules and compiled predicates\<close>

datatype mode = RowVisibility | Subscribe | Both

definition affects_visibility :: "mode \<Rightarrow> bool" where
  "affects_visibility m = (m \<in> {RowVisibility, Both})"

definition affects_subscribe :: "mode \<Rightarrow> bool" where
  "affects_subscribe m = (m \<in> {Subscribe, Both})"

record latest_by =
  lb_key :: "string list"
  lb_version :: string

record permission_rule =
  pr_name :: string
  pr_table :: string
  pr_predicate :: string
  pr_mode :: mode
  pr_latest :: "latest_by option"

record compiled_predicate =
  canonical :: string
  user_fields :: "(string, unit) btree"

record compiled_rule =
  rule_name :: string
  rule_table :: string
  rule_mode :: mode
  rule_predicate :: compiled_predicate
  rule_latest :: "latest_by option"

definition placeholder_prefix :: string where
  "placeholder_prefix = ''__palimpsest_user_''"

definition placeholder_suffix :: string where
  "placeholder_suffix = ''__''"

definition is_tautology :: "compiled_predicate \<Rightarrow> bool" where
  "is_tautology p = (map ascii_lower (str_trim (canonical p)) = ''true'')"

text \<open>\<^verbatim>\<open>str::find\<close>: the text before and after the first occurrence.\<close>

fun find_sub :: "string \<Rightarrow> string \<Rightarrow> (string \<times> string) option" where
  "find_sub needle s = (case strip_prefix needle s of
     Some rest \<Rightarrow> Some ([], rest)
   | None \<Rightarrow> (case s of [] \<Rightarrow> None | b # bs \<Rightarrow> map_option (\<lambda>(l, r). (b # l, r)) (find_sub needle bs)))"

declare find_sub.simps [simp del]

lemma find_sub_append: "find_sub n s = Some (l, r) \<Longrightarrow> s = l @ n @ r"
proof (induction n s arbitrary: l rule: find_sub.induct)
  case (1 needle s)
  then show ?case
    by (subst (asm) (2) find_sub.simps)
      (auto simp: strip_prefix_eq_Some split: option.splits list.splits)
qed

function materialize_from ::
  "(u64 \<Rightarrow> string) \<Rightarrow> user_context \<Rightarrow> string \<Rightarrow> string \<Rightarrow> (string, permission_error) result" where
  "materialize_from show_f64 ctx output remaining = (case find_sub placeholder_prefix remaining of
     None \<Rightarrow> Ok (output @ remaining)
   | Some (before, after_prefix) \<Rightarrow> (case find_sub placeholder_suffix after_prefix of
       None \<Rightarrow> Err (MalformedUserReference [] (placeholder_prefix @ after_prefix))
     | Some (field, rest) \<Rightarrow> (case map_of ctx field of
         None \<Rightarrow> Err (MissingUserValue field)
       | Some v \<Rightarrow> materialize_from show_f64 ctx (output @ before @ to_sql_literal show_f64 v) rest)))"
  by pat_completeness auto
termination
  by (relation "measure (\<lambda>(f, ctx, out, rem). length rem)")
    (auto simp: placeholder_prefix_def dest!: find_sub_append)

declare materialize_from.simps [simp del]

definition materialize ::
  "(u64 \<Rightarrow> string) \<Rightarrow> compiled_predicate \<Rightarrow> user_context \<Rightarrow> (string, permission_error) result" where
  "materialize show_f64 p ctx = materialize_from show_f64 ctx [] (canonical p)"

definition canonical_with_context ::
  "(u64 \<Rightarrow> string) \<Rightarrow> compiled_predicate \<Rightarrow> user_context \<Rightarrow> (string, permission_error) result" where
  "canonical_with_context show_f64 p ctx = rmap (\<lambda>bs. canonical p @ concat bs)
     (mapr (\<lambda>(field, _). rmap (\<lambda>v. ''|'' @ field @ ''='' @ framed (canonical_repr show_f64 v))
        (ok_or (MissingUserValue field) (map_of ctx field))) (user_fields p))"

definition field_char :: "char \<Rightarrow> bool" where
  "field_char c = (ascii_alnum c \<or> c = CHR ''_'')"

text \<open>The rest of a string literal: the bytes copied and the bytes after its closing quote.\<close>

fun literal_rest :: "string \<Rightarrow> string \<times> string" where
  "literal_rest [] = ([], [])"
| "literal_rest (c # cs) = (if c = CHR 0x27
     then (case cs of c' # cs' \<Rightarrow> if c' = CHR 0x27 then (let (l, r) = literal_rest cs' in (c # c' # l, r)) else ([c], cs)
        | [] \<Rightarrow> ([c], []))
     else (let (l, r) = literal_rest cs in (c # l, r)))"

lemma literal_rest_append: "literal_rest s = (l, r) \<Longrightarrow> s = l @ r"
proof (induction s arbitrary: l r rule: literal_rest.induct)
  case (2 c cs)
  then show ?case
    by (cases cs) (auto split: if_splits prod.splits simp del: literal_rest.simps(2) simp: literal_rest.simps(2) [of c])
qed simp

function encode_placeholders ::
  "string \<Rightarrow> user_context_schema \<Rightarrow> string \<Rightarrow> (string, unit) btree \<Rightarrow> string \<Rightarrow>
     (string \<times> (string, unit) btree, permission_error) result" where
  "encode_placeholders rule schema output fs s = (case s of
     [] \<Rightarrow> Ok (output, fs)
   | c # cs \<Rightarrow>
       if c = CHR 0x27 then (let (l, r) = literal_rest cs in encode_placeholders rule schema (output @ c # l) fs r)
       else (case strip_prefix ''$user.'' s of
           Some rest \<Rightarrow> (let field = takeWhile field_char rest in
             if field = [] then Err (MalformedUserReference rule s)
             else if map_of schema field = None then Err (UnknownUserField rule field)
             else encode_placeholders rule schema (output @ placeholder_prefix @ field @ placeholder_suffix)
                    (bt_insert field () fs) (dropWhile field_char rest))
         | None \<Rightarrow> encode_placeholders rule schema (output @ [c]) fs cs))"
  by pat_completeness auto
termination
  by (relation "measure (\<lambda>(rule, schema, out, fs, s). length s)")
    (auto simp: strip_prefix_eq_Some dest!: literal_rest_append [OF sym]
      split: if_splits intro: le_less_trans [OF length_dropWhile_le])

declare encode_placeholders.simps [simp del]

definition encode_user_placeholders ::
  "string \<Rightarrow> string \<Rightarrow> user_context_schema \<Rightarrow> (string \<times> (string, unit) btree, permission_error) result" where
  "encode_user_placeholders predicate rule schema = encode_placeholders rule schema [] [] predicate"

definition extract_filter_predicate :: "mir_graph \<Rightarrow> string option" where
  "extract_filter_predicate g = (case List.map_filter (\<lambda>n. case n of Filter p \<Rightarrow> Some p | _ \<Rightarrow> None) (nodes g) of
     [] \<Rightarrow> None | p # _ \<Rightarrow> Some p)"

definition ident_start :: "char \<Rightarrow> bool" where
  "ident_start c = (ascii_alnum c \<and> \<not> ascii_digit c \<or> c = CHR ''_'')"

definition ident_char :: "char \<Rightarrow> bool" where
  "ident_char c = (ascii_alnum c \<or> c = CHR ''_'' \<or> c = CHR ''.'')"

function extract_identifiers :: "string \<Rightarrow> string list" where
  "extract_identifiers s = (case s of [] \<Rightarrow> []
   | c # cs \<Rightarrow> if c = CHR 0x27 then extract_identifiers (skip_quoted (CHR 0x27) cs)
       else if ident_start c then takeWhile ident_char s # extract_identifiers (dropWhile ident_char s)
       else extract_identifiers cs)"
  by pat_completeness auto
termination
proof (relation "measure length", goal_cases)
  case (2 s c cs)
  then show ?case using skip_quoted_length [of "CHR 0x27" cs] by simp
next
  case (3 s c cs)
  then have "ident_char c" by (auto simp: ident_start_def ident_char_def)
  then show ?case using 3 length_dropWhile_le [of ident_char cs] by simp
qed auto

declare extract_identifiers.simps [simp del]

definition sql_words :: "string list" where
  "sql_words = [''true'', ''false'', ''null'', ''and'', ''or'', ''not'', ''is'', ''in'', ''between'',
     ''like'', ''any'', ''some'', ''array'']"

definition validate_token :: "string \<Rightarrow> table_schema \<Rightarrow> string \<Rightarrow> (unit, permission_error) result" where
  "validate_token rule table token = (
     if starts_with token placeholder_prefix then Ok ()
     else if map ascii_lower token \<in> set sql_words then Ok ()
     else if token = ts_name table then Ok ()
     else case split_once (CHR ''.'') token of
         Some (rel, column) \<Rightarrow>
           if rel \<noteq> ts_name table then Err (UnknownColumn rule (ts_name table) token)
           else if ts_column table column = None then Err (UnknownColumn rule (ts_name table) column)
           else Ok ()
       | None \<Rightarrow> if ts_column table token = None then Err (UnknownColumn rule (ts_name table) token) else Ok ())"

definition validate_columns :: "string \<Rightarrow> string \<Rightarrow> table_schema \<Rightarrow> (unit, permission_error) result" where
  "validate_columns predicate rule table =
     rmap (\<lambda>_. ()) (mapr (validate_token rule table) (extract_identifiers predicate))"

text \<open>The message of \<^verbatim>\<open>InvalidConfig\<close> is the reason alone, without the rule and table it is prefixed with.\<close>

fun validate_latest_key :: "table_schema \<Rightarrow> string list \<Rightarrow> string list \<Rightarrow> (unit, permission_error) result" where
  "validate_latest_key table seen [] = Ok ()"
| "validate_latest_key table seen (name # names) =
     (if name \<in> set seen then Err (InvalidConfig ''key contains duplicate columns'')
      else if ts_column table name = None then Err (InvalidConfig (''key column '' @ name @ '' does not exist''))
      else validate_latest_key table (name # seen) names)"

definition validate_latest :: "permission_rule \<Rightarrow> table_schema \<Rightarrow> (unit, permission_error) result" where
  "validate_latest rule table = (case pr_latest rule of None \<Rightarrow> Ok ()
   | Some latest \<Rightarrow>
       if \<not> affects_visibility (pr_mode rule) then Err (InvalidConfig ''requires a row-visibility mode'')
       else if lb_key latest = [] then Err (InvalidConfig ''key must not be empty'')
       else rbind (validate_latest_key table [] (lb_key latest)) (\<lambda>_.
         if lb_version latest \<in> set (lb_key latest) then Err (InvalidConfig ''version must not be part of the key'')
         else if map_option cs_ty (ts_column table (lb_version latest)) \<noteq> Some CtInt
           then Err (InvalidConfig ''version must name an integer column'')
         else Ok ()))"

record sql_front_end =
  parse_and_lower :: "string \<Rightarrow> (mir_graph, sql_error) result"
  predicate_depth :: "string \<Rightarrow> nat option"

definition max_predicate_depth :: nat where
  "max_predicate_depth = 32"

definition compile_rule ::
  "sql_front_end \<Rightarrow> permission_rule \<Rightarrow> sql_catalog \<Rightarrow> user_context_schema \<Rightarrow> (compiled_rule, permission_error) result" where
  "compile_rule fe rule catalog schema =
     rbind (ok_or (UnknownTable (pr_name rule) (pr_table rule)) (sql_catalog_table catalog (pr_table rule))) (\<lambda>table.
     rbind (validate_latest rule table) (\<lambda>_.
     rbind (encode_user_placeholders (pr_predicate rule) (pr_name rule) schema) (\<lambda>(rewritten, fs).
     rbind (case predicate_depth fe rewritten of None \<Rightarrow> Err (InvalidConfig (pr_name rule))
            | Some d \<Rightarrow> if d > max_predicate_depth
                then Err (PredicateTooDeep (pr_name rule) d max_predicate_depth) else Ok ()) (\<lambda>_.
     rbind (case parse_and_lower fe (''SELECT 1 FROM '' @ pr_table rule @ '' WHERE ('' @ rewritten @ '')'') of
              Ok g \<Rightarrow> Ok g | Err e \<Rightarrow> Err (RuleSql (pr_name rule) (pr_table rule) e) | Panic \<Rightarrow> Panic) (\<lambda>lowered.
     rbind (ok_or (InvalidConfig (pr_name rule)) (extract_filter_predicate lowered)) (\<lambda>canon.
     rbind (validate_columns canon (pr_name rule) table) (\<lambda>_.
       Ok \<lparr>rule_name = pr_name rule, rule_table = pr_table rule, rule_mode = pr_mode rule,
            rule_predicate = \<lparr>canonical = canon, user_fields = fs\<rparr>, rule_latest = pr_latest rule\<rparr>)))))))"

fun compile_each :: "sql_front_end \<Rightarrow> sql_catalog \<Rightarrow> user_context_schema \<Rightarrow> string list \<Rightarrow> permission_rule list \<Rightarrow>
    (compiled_rule list, permission_error) result" where
  "compile_each fe catalog schema names [] = Ok []"
| "compile_each fe catalog schema names (r # rs) = (if pr_name r \<in> set names then Err (DuplicateRuleName (pr_name r))
     else rbind (compile_rule fe r catalog schema) (\<lambda>c.
          rbind (compile_each fe catalog schema (pr_name r # names) rs) (\<lambda>cs. Ok (c # cs))))"

definition check_pair :: "compiled_rule \<Rightarrow> compiled_rule \<Rightarrow> (unit, permission_error) result" where
  "check_pair a b = (if rule_table a = rule_table b \<and> rule_latest a \<noteq> rule_latest b
       then Err (InvalidConfig ''rules on one table must have identical latest settings'')
     else if rule_table a = rule_table b \<and> canonical (rule_predicate a) = canonical (rule_predicate b)
       then Err (AmbiguousRule (rule_name a) (rule_name b) (rule_table a) (canonical (rule_predicate a)))
     else Ok ())"

fun check_pairs :: "compiled_rule list \<Rightarrow> (unit, permission_error) result" where
  "check_pairs [] = Ok ()"
| "check_pairs (a # bs) = rbind (mapr (check_pair a) bs) (\<lambda>_. check_pairs bs)"

definition compile_rules ::
  "sql_front_end \<Rightarrow> permission_rule list \<Rightarrow> sql_catalog \<Rightarrow> user_context_schema \<Rightarrow> (compiled_rule list, permission_error) result" where
  "compile_rules fe rules catalog schema = rbind (compile_each fe catalog schema [] rules) (\<lambda>compiled.
     rmap (\<lambda>_. compiled) (check_pairs compiled))"

section \<open>Rewriting a query\<close>

record rewrite_stats =
  base_tables_visited :: nat
  filters_inserted :: nat
  rules_elided :: nat

definition table_rules :: "compiled_rule list \<Rightarrow> string \<Rightarrow> compiled_rule list" where
  "table_rules rules t = filter (\<lambda>r. affects_visibility (rule_mode r) \<and> rule_table r = t) rules"

definition quote_ident :: "string \<Rightarrow> string" where
  "quote_ident s = CHR 0x22 # double_quotes (CHR 0x22) s @ [CHR 0x22]"

definition latest_node :: "latest_by \<Rightarrow> mir_node_kind" where
  "latest_node l = DistinctOn (map quote_ident (lb_key l))
     [\<lparr>ok_expression = quote_ident (lb_version l), ok_descending = True\<rparr>]"

definition disjunction :: "string list \<Rightarrow> string" where
  "disjunction clauses = (case clauses of [c] \<Rightarrow> c | _ \<Rightarrow> intercalate '' OR '' (map (\<lambda>c. ''('' @ c @ '')'') clauses))"

definition splice :: "nat \<Rightarrow> mir_node_kind \<Rightarrow> mir_graph \<Rightarrow> (nat \<times> mir_graph, permission_error) result" where
  "splice i k g = (case splice_above i k g of None \<Rightarrow> Panic | Some r \<Rightarrow> Ok r)"

definition rewrite_table ::
  "(u64 \<Rightarrow> string) \<Rightarrow> compiled_rule list \<Rightarrow> user_context \<Rightarrow> nat \<Rightarrow> mir_graph \<times> nat \<Rightarrow> (mir_graph \<times> nat, permission_error) result" where
  "rewrite_table show_f64 rules ctx index st = (case st of (g, inserted) \<Rightarrow>
     (case node_kind g index of
       Some (BaseTable t _) \<Rightarrow> (case table_rules rules t of
         [] \<Rightarrow> Ok (g, inserted)
       | r # rs \<Rightarrow>
           rbind (case rule_latest r of Some l \<Rightarrow> splice index (latest_node l) g | None \<Rightarrow> Ok (index, g)) (\<lambda>(index', g').
           if list_ex (\<lambda>r. is_tautology (rule_predicate r)) (r # rs) then Ok (g', inserted)
           else rbind (mapr (\<lambda>r. materialize show_f64 (rule_predicate r) ctx) (r # rs)) (\<lambda>clauses.
                rmap (\<lambda>(_, g''). (g'', inserted + 1)) (splice index' (Filter (disjunction clauses)) g'))))
     | _ \<Rightarrow> Ok (g, inserted)))"

fun rewrite_tables ::
  "(u64 \<Rightarrow> string) \<Rightarrow> compiled_rule list \<Rightarrow> user_context \<Rightarrow> nat list \<Rightarrow> mir_graph \<times> nat \<Rightarrow> (mir_graph \<times> nat, permission_error) result" where
  "rewrite_tables show_f64 rules ctx [] st = Ok st"
| "rewrite_tables show_f64 rules ctx (i # idxs) st =
     rbind (rewrite_table show_f64 rules ctx i st) (rewrite_tables show_f64 rules ctx idxs)"

definition rules_in_play :: "compiled_rule list \<Rightarrow> nat" where
  "rules_in_play rules = length (filter (\<lambda>r. affects_visibility (rule_mode r) \<and> \<not> is_tautology (rule_predicate r)) rules)"

definition rewrite ::
  "(u64 \<Rightarrow> string) \<Rightarrow> mir_graph \<Rightarrow> compiled_rule list \<Rightarrow> user_context \<Rightarrow> (mir_graph \<times> rewrite_stats, permission_error) result" where
  "rewrite show_f64 g rules ctx = rmap (\<lambda>(g', n).
     (g', \<lparr>base_tables_visited = length (base_table_indices g), filters_inserted = n,
           rules_elided = length rules - rules_in_play rules\<rparr>))
     (rewrite_tables show_f64 rules ctx (base_table_indices g) (g, 0))"

definition first_rule_guarded_table :: "mir_graph \<Rightarrow> compiled_rule list \<Rightarrow> string option" where
  "first_rule_guarded_table g rules = (case List.map_filter (\<lambda>n. case n of
       BaseTable t _ \<Rightarrow> if list_ex (\<lambda>r. affects_visibility (rule_mode r) \<and> \<not> is_tautology (rule_predicate r) \<and> rule_table r = t) rules
         then Some t else None
     | _ \<Rightarrow> None) (nodes g) of [] \<Rightarrow> None | t # _ \<Rightarrow> Some t)"

section \<open>Rule versions\<close>

record rule_entry =
  re_version :: u64
  re_canonical :: string

record rule_version_tracker =
  epoch :: u64
  versions :: "(string, rule_entry) btree"

record rule_version_delta =
  changed :: "string list"
  removed :: "string list"
  delta_epoch :: u64

definition version_next :: "u64 \<Rightarrow> u64" where
  "version_next v = sat_add v 1"

definition install_rule ::
  "(compiled_rule \<Rightarrow> string) \<Rightarrow> u64 \<Rightarrow> (string, rule_entry) btree \<Rightarrow> compiled_rule \<Rightarrow>
     (string, rule_entry) btree \<times> string list \<Rightarrow> (string, rule_entry) btree \<times> string list" where
  "install_rule dbg new_epoch old rule acc = (case acc of (next_versions, chg) \<Rightarrow>
     let canon = dbg rule in
     (case map_of old (rule_name rule) of
        Some e \<Rightarrow> if re_canonical e = canon
          then (bt_insert (rule_name rule) \<lparr>re_version = re_version e, re_canonical = canon\<rparr> next_versions, chg)
          else (bt_insert (rule_name rule) \<lparr>re_version = new_epoch, re_canonical = canon\<rparr> next_versions, chg @ [rule_name rule])
      | None \<Rightarrow> (bt_insert (rule_name rule) \<lparr>re_version = new_epoch, re_canonical = canon\<rparr> next_versions, chg @ [rule_name rule])))"

definition install ::
  "(compiled_rule \<Rightarrow> string) \<Rightarrow> compiled_rule list \<Rightarrow> rule_version_tracker \<Rightarrow> rule_version_delta \<times> rule_version_tracker" where
  "install dbg rules t = (
     let new_epoch = version_next (epoch t);
         (next_versions, chg) = fold (install_rule dbg new_epoch (versions t)) rules ([], []);
         rem = filter (\<lambda>n. map_of next_versions n = None) (map fst (versions t))
     in (\<lparr>changed = chg, removed = rem, delta_epoch = new_epoch\<rparr>,
         \<lparr>epoch = (if chg \<noteq> [] \<or> rem \<noteq> [] then new_epoch else epoch t), versions = next_versions\<rparr>))"

section \<open>Canonical keys\<close>

definition canonical_subgraph_key :: "(u64 \<Rightarrow> string) \<Rightarrow> string \<Rightarrow> user_context \<Rightarrow> string" where
  "canonical_subgraph_key show_f64 query ctx = query @ ''|'' @
     concat (map (\<lambda>(field, value). field @ ''='' @ framed value @ '';'')
       (sort (map (\<lambda>(field, v). (field, canonical_repr show_f64 v)) ctx)))"

section \<open>Every guarded scan is filtered\<close>

definition consumers :: "mir_graph \<Rightarrow> nat \<Rightarrow> (nat \<times> mir_edge_kind) list" where
  "consumers g i = map snd (filter (\<lambda>(a, _). a = i) (edges g))"

lemma consumers_absent: "wf_graph g \<Longrightarrow> length (nodes g) \<le> i \<Longrightarrow> consumers g i = []"
  by (auto simp: consumers_def filter_empty_conv dest: wf_graphD(2))

lemma splice_consumers:
  assumes "splice_above t k g = Some (i, g')" "wf_graph g" "t < length (nodes g)"
  shows "consumers g' t = [(i, Input 0)]" "consumers g' i = consumers g t"
    "n \<noteq> t \<Longrightarrow> n \<noteq> i \<Longrightarrow> consumers g' n = consumers g n"
proof -
  note g = splice_graph [OF assms(1)]
  have i: "i \<noteq> t" "filter (\<lambda>(a, _). a = i) (edges g) = []"
    using g(1) assms(3) wf_graphD(2) [OF assms(2)] by (auto simp: filter_empty_conv)
  have e: "edges g' = (filter (\<lambda>(a, _). a \<noteq> t) (edges g) @ map (\<lambda>(_, y). (i, y)) (filter (\<lambda>(a, _). a = t) (edges g)))
      @ [(t, i, Input 0)]"
    using g(4) by (simp add: split_def)
  show "consumers g' t = [(i, Input 0)]" "consumers g' i = consumers g t"
    "n \<noteq> t \<Longrightarrow> n \<noteq> i \<Longrightarrow> consumers g' n = consumers g n"
    using i unfolding consumers_def e
    by (auto simp: filter_map comp_def split_def filter_empty_conv intro!: arg_cong [of _ _ "map snd"] filter_cong)
qed

text \<open>The base table \<^verbatim>\<open>i\<close> is read only through a filter with predicate \<^verbatim>\<open>p\<close>, possibly above a selection of
  the latest rows, and is not itself the result; both nodes were added behind the first \<^verbatim>\<open>m\<close> nodes.\<close>

definition guarded_scan :: "nat \<Rightarrow> mir_graph \<Rightarrow> nat \<Rightarrow> latest_by option \<Rightarrow> string \<Rightarrow> bool" where
  "guarded_scan m g i latest p = (root g \<noteq> i \<and> (\<exists>f \<in> {m..<length (nodes g)}. nodes g ! f = Filter p \<and>
     (case latest of
        None \<Rightarrow> consumers g i = [(f, Input 0)]
      | Some l \<Rightarrow> (\<exists>d \<in> {m..<length (nodes g)}. nodes g ! d = latest_node l \<and> root g \<noteq> d \<and>
          consumers g i = [(d, Input 0)] \<and> consumers g d = [(f, Input 0)]))))"

lemma guarded_splice:
  assumes "splice_above t k g = Some (i, g')" "wf_graph g" "t < length (nodes g)"
    "guarded_scan m g j latest p" "j < length (nodes g)" "t \<noteq> j" "t < m"
  shows "guarded_scan m g' j latest p"
proof -
  note g = splice_graph [OF assms(1)] and c = splice_consumers [OF assms(1-3)]
  from assms(4) obtain f where f: "f \<in> {m..<length (nodes g)}" "nodes g ! f = Filter p" "root g \<noteq> j"
    by (auto simp: guarded_scan_def)
  show ?thesis
  proof (cases latest)
    case None
    with assms(4) obtain f where f: "f \<in> {m..<length (nodes g)}" "nodes g ! f = Filter p" "root g \<noteq> j"
      "consumers g j = [(f, Input 0)]" by (auto simp: guarded_scan_def)
    then show ?thesis
      using None g c(3) [of j] assms(5,6)
      by (auto simp: guarded_scan_def nth_append intro!: bexI [of _ f])
  next
    case (Some l)
    with assms(4) obtain f d where f: "f \<in> {m..<length (nodes g)}" "nodes g ! f = Filter p" "root g \<noteq> j"
      "d \<in> {m..<length (nodes g)}" "nodes g ! d = latest_node l" "root g \<noteq> d"
      "consumers g j = [(d, Input 0)]" "consumers g d = [(f, Input 0)]" by (auto simp: guarded_scan_def)
    then show ?thesis
      using Some g c(3) [of j] c(3) [of d] assms(5-7)
      by (auto simp: guarded_scan_def nth_append intro!: bexI [of _ f] bexI [of _ d])
  qed
qed

text \<open>What one visit of a base table keeps: well-formedness, the nodes so far, and the guards of the
  other tables.\<close>

definition extends :: "nat \<Rightarrow> nat \<Rightarrow> mir_graph \<Rightarrow> mir_graph \<Rightarrow> bool" where
  "extends m i g g' = (wf_graph g' \<and> (\<exists>ks. nodes g' = nodes g @ ks) \<and>
     (\<forall>j latest p. j < m \<longrightarrow> j \<noteq> i \<longrightarrow> guarded_scan m g j latest p \<longrightarrow> guarded_scan m g' j latest p))"

lemma extends_refl: "wf_graph g \<Longrightarrow> extends m i g g"
  by (auto simp: extends_def)

lemma splice_extends:
  assumes "splice_above i k g = Some (n, g')" "wf_graph g" "i < m" "m \<le> length (nodes g)"
  shows "extends m i g g'"
  using assms splice_wf [OF assms(1,2)] splice_graph(2) [OF assms(1)] guarded_splice [OF assms(1,2)]
  by (auto simp: extends_def)

lemma splice_Ok: "splice i k g = Ok (n, g') \<longleftrightarrow> splice_above i k g = Some (n, g')"
  by (auto simp: splice_def split: option.splits)

lemma splice_total: "i < length (nodes g) \<Longrightarrow> \<exists>g'. splice i k g = Ok (length (nodes g), g')"
  using splice_defined [of i g k] by (auto simp: splice_def)

lemma guarded_direct:
  assumes "splice_above i (Filter p) g = Some (n, g')" "wf_graph g" "i < m" "m \<le> length (nodes g)"
  shows "guarded_scan m g' i None p"
  using splice_graph [OF assms(1)] splice_consumers [OF assms(1,2)] assms(3,4)
  by (auto simp: guarded_scan_def intro!: bexI [of _ n])

lemma latest_step:
  assumes 1: "splice_above i (latest_node l) g = Some (d, g1)" and 2: "splice_above d (Filter p) g1 = Some (f, g2)"
    and wf: "wf_graph g" and m: "i < m" "m \<le> length (nodes g)"
  shows "guarded_scan m g2 i (Some l) p" "extends m i g g2"
proof -
  note g1 = splice_graph [OF 1] and g2 = splice_graph [OF 2]
  have i: "i < length (nodes g)" using m by simp
  have wf1: "wf_graph g1" by (rule splice_wf [OF 1 wf i])
  have d: "d < length (nodes g1)" "d \<noteq> i" using g1 i by auto
  note c1 = splice_consumers [OF 1 wf i] and c2 = splice_consumers [OF 2 wf1 d(1)]
  have fi: "f \<noteq> i" "f \<noteq> d" using g2(1) g1 i by auto
  show "guarded_scan m g2 i (Some l) p"
    using g1 g2 c1 c2 d fi m
    by (auto simp: guarded_scan_def nth_append intro!: bexI [of _ f] bexI [of _ d])
  have "extends m i g g1" by (rule splice_extends [OF 1 wf m])
  moreover have "guarded_scan m g2 j latest q"
    if "guarded_scan m g1 j latest q" "j < m" "guarded_scan m g j latest q" "j \<noteq> i" for j latest q
  proof -
    have j: "j < length (nodes g1)" "j \<noteq> d" "j \<noteq> f" using that(2) m g1 g2 by auto
    have old: "e \<noteq> d \<and> e \<noteq> f \<and> e < length (nodes g1)" if "e < length (nodes g)" for e
      using that g1 g2 by auto
    show ?thesis
    proof (cases latest)
      case None
      with that(3) obtain e where e: "e \<in> {m..<length (nodes g)}" "nodes g ! e = Filter q" "root g \<noteq> j"
        "consumers g j = [(e, Input 0)]" by (auto simp: guarded_scan_def)
      then show ?thesis
        using None g1 g2 c1(3) [of j] c2(3) [of j] j old [of e] that(4)
        by (auto simp: guarded_scan_def nth_append intro!: bexI [of _ e])
    next
      case (Some l')
      with that(3) obtain e h where e: "e \<in> {m..<length (nodes g)}" "nodes g ! e = Filter q" "root g \<noteq> j"
        "h \<in> {m..<length (nodes g)}" "nodes g ! h = latest_node l'" "root g \<noteq> h"
        "consumers g j = [(h, Input 0)]" "consumers g h = [(e, Input 0)]" by (auto simp: guarded_scan_def)
      then show ?thesis
        using Some g1 g2 c1(3) [of j] c2(3) [of j] c1(3) [of h] c2(3) [of h] j old [of e] old [of h] that(4) m
        by (auto simp: guarded_scan_def nth_append intro!: bexI [of _ e] bexI [of _ h])
    qed
  qed
  ultimately show "extends m i g g2"
    using splice_wf [OF 2 wf1 d(1)] g2(2) by (auto simp: extends_def)
qed

lemma rewrite_table_extends:
  assumes ok: "rewrite_table sf rules ctx i (g, n) = Ok (g', n')"
    and wf: "wf_graph g" and m: "i < m" "m \<le> length (nodes g)"
  shows "extends m i g g'"
proof (cases "node_kind g i")
  case (Some k)
  show ?thesis
  proof (cases "\<exists>t cs r rs. k = BaseTable t cs \<and> table_rules rules t = r # rs")
    case False
    then have "g' = g" using ok Some by (auto simp: rewrite_table_def split: mir_node_kind.splits list.splits)
    then show ?thesis using wf by (simp add: extends_refl)
  next
    case True
    then obtain t cs r rs where k: "k = BaseTable t cs" "table_rules rules t = r # rs" by blast
    show ?thesis
    proof (cases "rule_latest r")
      case None
      then show ?thesis
        using ok Some k wf m
        by (auto simp: rewrite_table_def rbind_eq_Ok rmap_eq_Ok splice_Ok extends_refl
            split: if_splits intro: splice_extends)
    next
      case (Some l)
      then show ?thesis
        using ok \<open>node_kind g i = Some k\<close> k wf m
        by (auto simp: rewrite_table_def rbind_eq_Ok rmap_eq_Ok splice_Ok
            split: if_splits intro: splice_extends latest_step(2))
    qed
  qed
qed (use ok wf in \<open>auto simp: rewrite_table_def extends_refl\<close>)

lemma rewrite_table_guards:
  assumes ok: "rewrite_table sf rules ctx i (g, n) = Ok (g', n')"
    and wf: "wf_graph g" and m: "i < m" "m \<le> length (nodes g)"
    and node: "nodes g ! i = BaseTable t cs" and rules: "table_rules rules t = r # rs"
    and strict: "\<not> list_ex (\<lambda>r. is_tautology (rule_predicate r)) (r # rs)"
  shows "\<exists>clauses. mapr (\<lambda>r. materialize sf (rule_predicate r) ctx) (r # rs) = Ok clauses \<and>
    guarded_scan m g' i (rule_latest r) (disjunction clauses)"
proof (cases "rule_latest r")
  case None
  then show ?thesis
    using ok strict node rules m guarded_direct [OF _ wf m]
    by (auto simp: rewrite_table_def node_kind_def rbind_eq_Ok rmap_eq_Ok splice_Ok simp del: mapr.simps)
next
  case (Some l)
  then show ?thesis
    using ok strict node rules m latest_step(1) [OF _ _ wf m]
    by (auto simp: rewrite_table_def node_kind_def rbind_eq_Ok rmap_eq_Ok splice_Ok simp del: mapr.simps)
qed

lemma rewrite_tables_extends:
  assumes "rewrite_tables sf rules ctx idxs (g, n) = Ok (g', n')" "wf_graph g" "\<forall>i \<in> set idxs. i < m" "m \<le> length (nodes g)"
  shows "wf_graph g' \<and> (\<exists>ks. nodes g' = nodes g @ ks) \<and>
    (\<forall>j latest p. j < m \<longrightarrow> j \<notin> set idxs \<longrightarrow> guarded_scan m g j latest p \<longrightarrow> guarded_scan m g' j latest p)"
  using assms
proof (induction idxs arbitrary: g n)
  case (Cons h hs)
  then obtain g1 n1 where 1: "rewrite_table sf rules ctx h (g, n) = Ok (g1, n1)"
    "rewrite_tables sf rules ctx hs (g1, n1) = Ok (g', n')" by (auto simp: rbind_eq_Ok)
  have e: "extends m h g g1" using rewrite_table_extends [OF 1(1)] Cons.prems by simp
  then obtain ks where ks: "nodes g1 = nodes g @ ks" "wf_graph g1" by (auto simp: extends_def)
  then have "wf_graph g' \<and> (\<exists>ks. nodes g' = nodes g1 @ ks) \<and>
    (\<forall>j latest p. j < m \<longrightarrow> j \<notin> set hs \<longrightarrow> guarded_scan m g1 j latest p \<longrightarrow> guarded_scan m g' j latest p)"
    using Cons.IH [OF 1(2)] Cons.prems by simp
  then show ?case using e ks by (auto simp: extends_def)
qed auto

lemma rewrite_tables_guards:
  assumes "rewrite_tables sf rules ctx idxs (g, n) = Ok (g', n')" "wf_graph g" "\<forall>i \<in> set idxs. i < m" "m \<le> length (nodes g)"
    "distinct idxs" "i \<in> set idxs" "nodes g ! i = BaseTable t cs" "table_rules rules t = r # rs"
    "\<not> list_ex (\<lambda>r. is_tautology (rule_predicate r)) (r # rs)"
  shows "\<exists>clauses. mapr (\<lambda>r. materialize sf (rule_predicate r) ctx) (r # rs) = Ok clauses \<and>
    guarded_scan m g' i (rule_latest r) (disjunction clauses)"
  using assms(1-7)
proof (induction idxs arbitrary: g n)
  case (Cons h hs)
  then obtain g1 n1 where 1: "rewrite_table sf rules ctx h (g, n) = Ok (g1, n1)"
    "rewrite_tables sf rules ctx hs (g1, n1) = Ok (g', n')" by (auto simp: rbind_eq_Ok)
  have e: "extends m h g g1" using rewrite_table_extends [OF 1(1)] Cons.prems by simp
  then obtain ks where ks: "nodes g1 = nodes g @ ks" "wf_graph g1" by (auto simp: extends_def)
  have m: "h < m" "\<forall>i \<in> set hs. i < m" "m \<le> length (nodes g1)" "i < length (nodes g)" using Cons.prems ks by auto
  show ?case
  proof (cases "i = h")
    case True
    then obtain clauses where "mapr (\<lambda>r. materialize sf (rule_predicate r) ctx) (r # rs) = Ok clauses"
      "guarded_scan m g1 i (rule_latest r) (disjunction clauses)"
      using rewrite_table_guards [OF 1(1) Cons.prems(2) m(1) Cons.prems(4)] Cons.prems(7) assms(8,9) by blast
    moreover have "i < m" "i \<notin> set hs" using True m Cons.prems(5) by auto
    ultimately show ?thesis using rewrite_tables_extends [OF 1(2) ks(2) m(2,3)] by blast
  next
    case False
    have "nodes g1 ! i = BaseTable t cs" using Cons.prems(7) m(4) ks(1) by (simp add: nth_append)
    then show ?thesis using Cons.IH [OF 1(2) ks(2) m(2,3)] Cons.prems(5,6) False by simp
  qed
qed simp

lemma splice_not_Panic: "i < length (nodes g) \<Longrightarrow> splice i k g \<noteq> Panic"
  using splice_defined [of i g k] by (auto simp: splice_def)

lemma splice_index: "splice i k g = Ok (d, g') \<Longrightarrow> d < length (nodes g')"
  using splice_graph(1,2) [of i k g d g'] by (simp add: splice_Ok)

lemma materialize_not_Panic: "materialize_from sf ctx out s \<noteq> Panic"
  by (induction sf ctx out s rule: materialize_from.induct)
    (subst materialize_from.simps, auto split: option.splits)

lemma materialize_all_not_Panic: "mapr (\<lambda>r. materialize sf (rule_predicate r) ctx) rs \<noteq> Panic"
  using mapr_Panic [of "\<lambda>r. materialize sf (rule_predicate r) ctx" rs] materialize_not_Panic
  by (auto simp: materialize_def)

lemma rewrite_table_not_Panic:
  assumes "i < length (nodes g)" shows "rewrite_table sf rules ctx i (g, n) \<noteq> Panic"
proof (cases "node_kind g i")
  case (Some k)
  then show ?thesis
    using assms splice_not_Panic splice_index
    by (auto simp: rewrite_table_def rbind_eq_Panic materialize_all_not_Panic simp del: mapr.simps
        split: mir_node_kind.splits list.splits option.splits if_splits)
qed (simp add: rewrite_table_def)

lemma rewrite_tables_not_Panic:
  "\<forall>i \<in> set idxs. i < m \<Longrightarrow> m \<le> length (nodes g) \<Longrightarrow> wf_graph g \<Longrightarrow>
     rewrite_tables sf rules ctx idxs (g, n) \<noteq> Panic"
proof (induction idxs arbitrary: g n)
  case (Cons h hs)
  have "rewrite_tables sf rules ctx hs (g1, n1) \<noteq> Panic"
    if 1: "rewrite_table sf rules ctx h (g, n) = Ok (g1, n1)" for g1 n1
  proof -
    have "extends m h g g1" using rewrite_table_extends [OF 1] Cons.prems by simp
    then show ?thesis using Cons by (auto simp: extends_def)
  qed
  then show ?case using rewrite_table_not_Panic [of h g] Cons.prems by (auto simp: rbind_eq_Panic)
qed simp

text \<open>C3: no row of a protected table escapes its permission filter.  When rewriting succeeds, every scan of
  a table with row-visibility rules, none of them always true, is read only through a filter whose
  predicate is the disjunction of the rules' predicates under the user's context (above the
  selection of the latest rows, if the rules ask for it), and the scan itself is never the result.\<close>

theorem rewrite_guards_every_scan:
  assumes "wf_graph g" "rewrite sf g rules ctx = Ok (g', stats)"
    "i < length (nodes g)" "nodes g ! i = BaseTable t cs" "table_rules rules t = r # rs"
    "\<not> list_ex (\<lambda>r. is_tautology (rule_predicate r)) (r # rs)"
  shows "\<exists>clauses. mapr (\<lambda>r. materialize sf (rule_predicate r) ctx) (r # rs) = Ok clauses \<and>
    guarded_scan (length (nodes g)) g' i (rule_latest r) (disjunction clauses)"
proof -
  obtain n where "rewrite_tables sf rules ctx (base_table_indices g) (g, 0) = Ok (g', n)"
    using assms(2) by (auto simp: rewrite_def rmap_eq_Ok)
  then show ?thesis
    using assms by (intro rewrite_tables_guards [where idxs = "base_table_indices g"])
      (auto simp: base_table_indices_def)
qed

definition demo_rule :: compiled_rule where
  "demo_rule = \<lparr>rule_name = ''own'', rule_table = ''posts'', rule_mode = Both,
     rule_predicate = \<lparr>canonical = ''author = __palimpsest_user_id__'', user_fields = [(''id'', ())]\<rparr>, rule_latest = None\<rparr>"

theorem rewrite_guards_every_scan_witness:
  "\<exists>g' stats. rewrite (\<lambda>_. []) (mir_new (BaseTable ''posts'' [])) [demo_rule] [(''id'', UInt 7)] = Ok (g', stats) \<and>
     guarded_scan 1 g' 0 None ''author = 7''"
proof -
  have m: "mapr (\<lambda>r. materialize (\<lambda>_. []) (rule_predicate r) [(''id'', UInt 7)]) [demo_rule] = Ok [''author = 7'']"
    by (simp add: demo_rule_def materialize_def materialize_from.simps find_sub.simps placeholder_prefix_def
        placeholder_suffix_def show_int_def show_nat.simps digit_char_def char_of_eq_iff)
  have "wf_graph (mir_new (BaseTable ''posts'' []))" by (simp add: wf_graph_def mir_new_def positions_ok_def)
  moreover obtain g' stats where
    "rewrite (\<lambda>_. []) (mir_new (BaseTable ''posts'' [])) [demo_rule] [(''id'', UInt 7)] = Ok (g', stats)"
    using m by (simp add: rewrite_def base_table_indices_def mir_new_def upt_rec rewrite_table_def node_kind_def
        table_rules_def demo_rule_def affects_visibility_def is_tautology_def str_trim_def is_whitespace_def
        utf8_width_def ascii_lower_def splice_def splice_above_def mir_add_node_def mir_add_edge_def Let_def)
  ultimately show ?thesis
    using m rewrite_guards_every_scan [of "mir_new (BaseTable ''posts'' [])" "\<lambda>_. []" "[demo_rule]" "[(''id'', UInt 7)]"
        g' stats 0 "''posts''" "[]" demo_rule "[]"]
    by (simp add: mir_new_def table_rules_def demo_rule_def affects_visibility_def is_tautology_def str_trim_def
        is_whitespace_def utf8_width_def ascii_lower_def disjunction_def)
qed

section \<open>Framing\<close>

lemma colon_notin_show_nat: "CHR '':'' \<notin> set (show_nat n)"
  using show_nat_digits [of "CHR '':''" n] by auto

lemma framed_inject: "framed a @ x = framed b @ y \<longleftrightarrow> a = b \<and> x = y"
proof
  assume eq: "framed a @ x = framed b @ y"
  then have "split_once (CHR '':'') (framed a @ x) = split_once (CHR '':'') (framed b @ y)" by simp
  then have "show_nat (length a) = show_nat (length b)" "a @ x = b @ y"
    by (simp_all add: framed_def split_once_append colon_notin_show_nat)
  then show "a = b \<and> x = y" by simp
qed simp

lemma intercalate_Cons: "intercalate sep (x # xs) = (if xs = [] then x else x @ sep @ intercalate sep xs)"
  by (cases xs) simp_all

lemma framed_list_inject:
  "intercalate '','' (map framed xs) @ '']'' = intercalate '','' (map framed ys) @ '']'' \<Longrightarrow> xs = ys"
proof (induction xs arbitrary: ys)
  case Nil
  then show ?case
    using show_nat_digits [of "CHR '']''"] by (cases ys; cases "show_nat (length (hd ys))") (auto simp: intercalate_Cons framed_def split: if_splits)
next
  case (Cons x xs)
  then obtain y ys' where ys: "ys = y # ys'"
    using show_nat_digits [of "CHR '']''"] by (cases ys; cases "show_nat (length x)") (auto simp: intercalate_Cons framed_def split: if_splits)
  have "framed x @ (if xs = [] then '']'' else '','' @ intercalate '','' (map framed xs) @ '']'') =
      framed y @ (if ys' = [] then '']'' else '','' @ intercalate '','' (map framed ys') @ '']'')"
    using Cons.prems ys by (simp add: intercalate_Cons split: if_splits)
  then have "x = y" "(if xs = [] then '']'' else '','' @ intercalate '','' (map framed xs) @ '']'') =
      (if ys' = [] then '']'' else '','' @ intercalate '','' (map framed ys') @ '']'')"
    unfolding framed_inject by auto
  then show ?case using Cons.IH [of ys'] ys by (auto split: if_splits)
qed

text \<open>Two values have the same meaning for a predicate: equal up to the spelling of a UUID, the printing of a
  float, and the order and repetition of list elements.\<close>

fun value_class :: "(u64 \<Rightarrow> string) \<Rightarrow> user_value \<Rightarrow> user_value \<Rightarrow> bool" where
  "value_class sf (UUuid a) v = (case v of UUuid b \<Rightarrow> normalize_or_raw a = normalize_or_raw b | _ \<Rightarrow> False)"
| "value_class sf (UFloat a) v = (case v of UFloat b \<Rightarrow> sf a = sf b | _ \<Rightarrow> False)"
| "value_class sf (UList xs) v = (case v of UList ys \<Rightarrow>
     list_all (\<lambda>x. list_ex (\<lambda>y. canonical_repr sf x = canonical_repr sf y) ys) xs \<and>
     list_all (\<lambda>y. list_ex (\<lambda>x. canonical_repr sf x = canonical_repr sf y) xs) ys | _ \<Rightarrow> False)"
| "value_class sf u v = (u = v)"

lemma show_bool_inject: "show_bool a = show_bool b \<longleftrightarrow> a = b"
  by (simp add: show_bool_def)

lemma show_int_inject: "show_int a = show_int b \<longleftrightarrow> a = b"
  by (metis option.inject parse_int_show_int)

lemma sint_inject: "sint a = sint b \<longleftrightarrow> a = b"
  by (auto dest: signed_word_eqI)

lemma set_remdups_sort: "set (remdups_adj (sort xs)) = set xs"
  by simp

lemma canonical_repr_list:
  assumes "canonical_repr sf (UList xs) = canonical_repr sf (UList ys)"
  shows "set (map (canonical_repr sf) xs) = set (map (canonical_repr sf) ys)"
proof -
  have "remdups_adj (sort (map (canonical_repr sf) xs)) = remdups_adj (sort (map (canonical_repr sf) ys))"
    using assms framed_list_inject by simp
  then show ?thesis by (metis set_remdups_sort)
qed

lemma canonical_repr_class: "canonical_repr sf u = canonical_repr sf v \<Longrightarrow> value_class sf u v"
proof (cases u)
  case (UList xs)
  assume eq: "canonical_repr sf u = canonical_repr sf v"
  with UList obtain ys where ys: "v = UList ys" by (cases v) simp_all
  then have "set (map (canonical_repr sf) xs) = set (map (canonical_repr sf) ys)"
    using eq UList canonical_repr_list by blast
  then have im: "canonical_repr sf ` set xs = canonical_repr sf ` set ys" by simp
  have "\<exists>y \<in> set ys. canonical_repr sf x = canonical_repr sf y" if "x \<in> set xs" for x
    using im imageI [OF that, of "canonical_repr sf"] by (simp add: image_iff)
  moreover have "\<exists>x \<in> set xs. canonical_repr sf x = canonical_repr sf y" if "y \<in> set ys" for y
    using im imageI [OF that, of "canonical_repr sf"] by (metis imageE)
  ultimately have "\<forall>x \<in> set xs. \<exists>y \<in> set ys. canonical_repr sf x = canonical_repr sf y"
    "\<forall>y \<in> set ys. \<exists>x \<in> set xs. canonical_repr sf x = canonical_repr sf y" by blast+
  then show ?thesis using UList ys by (simp add: list_all_iff list_ex_iff)
qed (cases v; auto simp: show_bool_inject show_int_inject sint_inject)+

lemma distinct_remdups_adj_sorted: "sorted xs \<Longrightarrow> distinct (remdups_adj xs)"
  by (induction xs rule: remdups_adj.induct) (auto simp: less_le)

lemma remdups_sort_cong: "set xs = set ys \<Longrightarrow> remdups_adj (sort xs) = remdups_adj (sort ys)"
  by (rule sorted_distinct_set_unique) (simp_all add: distinct_remdups_adj_sorted)

lemma value_class_repr: "value_class sf u v \<Longrightarrow> canonical_repr sf u = canonical_repr sf v"
proof (cases u)
  case (UList xs)
  assume c: "value_class sf u v"
  with UList obtain ys where ys: "v = UList ys" by (cases v) simp_all
  have "canonical_repr sf ` set xs \<subseteq> canonical_repr sf ` set ys"
    "canonical_repr sf ` set ys \<subseteq> canonical_repr sf ` set xs"
    using c UList ys by (auto simp: list_all_iff list_ex_iff image_iff eq_commute)
  then have "set (map (canonical_repr sf) xs) = set (map (canonical_repr sf) ys)" by simp
  from remdups_sort_cong [OF this] show ?thesis using UList ys by simp
qed (cases v; auto)+

lemma canonical_repr_iff: "canonical_repr sf u = canonical_repr sf v \<longleftrightarrow> value_class sf u v"
  using canonical_repr_class value_class_repr by (rule iffI)

section \<open>Canonical keys separate contexts\<close>

definition key_entry :: "string \<times> string \<Rightarrow> string" where
  "key_entry e = (case e of (field, value) \<Rightarrow> field @ ''='' @ framed value @ '';'')"

lemma key_entries_inject:
  assumes "\<forall>e \<in> set xs. CHR ''='' \<notin> set (fst e)" "\<forall>e \<in> set ys. CHR ''='' \<notin> set (fst e)"
    "concat (map key_entry xs) = concat (map key_entry ys)"
  shows "xs = ys"
  using assms
proof (induction xs arbitrary: ys)
  case Nil
  then show ?case by (cases ys) (auto simp: key_entry_def)
next
  case (Cons x xs)
  then obtain y ys' where ys: "ys = y # ys'" by (cases ys; cases x) (auto simp: key_entry_def)
  obtain f v g w where x: "x = (f, v)" "y = (g, w)" by (cases x; cases y)
  have eq: "f @ CHR ''='' # framed v @ CHR '';'' # concat (map key_entry xs) =
      g @ CHR ''='' # framed w @ CHR '';'' # concat (map key_entry ys')"
    using Cons.prems(3) by (simp add: ys x key_entry_def [of "(f, v)"] key_entry_def [of "(g, w)"])
  have n: "CHR ''='' \<notin> set f" "CHR ''='' \<notin> set g" using Cons.prems(1,2) by (auto simp: ys x)
  have "f = g \<and> framed v @ CHR '';'' # concat (map key_entry xs) = framed w @ CHR '';'' # concat (map key_entry ys')"
    using arg_cong [OF eq, of "split_once (CHR ''='')"] by (simp add: split_once_append n)
  then have "f = g" "v = w" "concat (map key_entry xs) = concat (map key_entry ys')"
    by (auto simp: framed_inject)
  then show ?case using Cons.IH [of ys'] Cons.prems(1,2) by (simp add: ys x)
qed

definition context_reprs :: "(u64 \<Rightarrow> string) \<Rightarrow> user_context \<Rightarrow> (string \<times> string) list" where
  "context_reprs sf ctx = map (\<lambda>(field, v). (field, canonical_repr sf v)) ctx"

lemma sort_context_reprs: "bt_invar ctx \<Longrightarrow> sort (context_reprs sf ctx) = context_reprs sf ctx"
proof -
  assume "bt_invar ctx"
  then have "sorted (context_reprs sf ctx)"
    unfolding context_reprs_def
    by (induction ctx) (fastforce simp: less_eq_prod_def less_imp_le split: prod.splits)+
  then show ?thesis by (rule sort_key_id_if_sorted [of "\<lambda>x. x", simplified])
qed

lemma canonical_key_entries:
  "bt_invar ctx \<Longrightarrow> canonical_subgraph_key sf q ctx = q @ CHR ''|'' # concat (map key_entry (context_reprs sf ctx))"
  using sort_context_reprs [of ctx sf]
  by (simp add: canonical_subgraph_key_def context_reprs_def key_entry_def [abs_def])

lemma context_reprs_eq:
  "context_reprs sf c = context_reprs sf d \<longleftrightarrow> list_all2 (\<lambda>(f, u) (g, v). f = g \<and> value_class sf u v) c d"
proof (induction c arbitrary: d)
  case Nil
  then show ?case by (auto simp: context_reprs_def)
next
  case (Cons x c)
  then show ?case
    by (cases d; cases x) (auto simp: context_reprs_def canonical_repr_iff)
qed



text \<open>The query text is not framed: two different contexts can share a key when the queries differ as
  well, for instance in a trailing comment.\<close>

lemma canonical_subgraph_key_collision:
  "canonical_subgraph_key sf ''select 1 --'' [(''a'', UText ''x|a=6:text:y'')] =
   canonical_subgraph_key sf ''select 1 --|a=17:text:x'' [(''a'', UText ''y'')]"
  by (simp add: canonical_subgraph_key_def framed_def show_nat.simps digit_char_def char_of_eq_iff)
    (rule sym, simp add: char_of_eq_iff)

section \<open>Materialized predicates\<close>

lemma find_sub_None: "strip_prefix n (b # s) = None \<Longrightarrow>
    find_sub n (b # s) = map_option (\<lambda>(l, r). (b # l, r)) (find_sub n s)"
  by (subst find_sub.simps) simp

lemma strip_prefix_shorter:
  assumes "strip_prefix n (s @ r) = Some z" "length n \<le> length s" shows "strip_prefix n s \<noteq> None"
proof -
  have "s @ r = n @ z" using assms(1) by (simp add: strip_prefix_eq_Some)
  then obtain us where "s = n @ us \<or> s @ us = n" unfolding append_eq_append_conv2 by blast
  then have "s = n @ us" using assms(2) by auto
  then show ?thesis by simp
qed

lemma find_sub_skip: "find_sub n (l @ n) = Some (l, []) \<Longrightarrow> find_sub n (l @ n @ r) = Some (l, r)"
proof (induction l)
  case Nil
  then show ?case by (subst find_sub.simps) simp
next
  case (Cons b l)
  have 1: "strip_prefix n (b # (l @ n)) = None"
    using Cons.prems by (cases "strip_prefix n (b # (l @ n))") (simp_all add: find_sub.simps [of n "b # (l @ n)"])
  then have 2: "strip_prefix n (b # (l @ n @ r)) = None"
    using strip_prefix_shorter [of n "b # l @ n" r] by (cases "strip_prefix n (b # (l @ n @ r))") auto
  have "find_sub n (l @ n) = Some (l, [])" using Cons.prems by (simp add: find_sub_None [OF 1])
  then show ?case using Cons.IH by (simp add: find_sub_None [OF 2])
qed

definition template_text :: "(string \<times> string) list \<Rightarrow> string \<Rightarrow> string" where
  "template_text ps final = concat (map (\<lambda>(l, f). l @ placeholder_prefix @ f @ placeholder_suffix) ps) @ final"

definition template_ok :: "(string \<times> string) list \<Rightarrow> string \<Rightarrow> bool" where
  "template_ok ps final = (list_all (\<lambda>(l, f). find_sub placeholder_prefix (l @ placeholder_prefix) = Some (l, []) \<and>
     find_sub placeholder_suffix (f @ placeholder_suffix) = Some (f, [])) ps \<and> find_sub placeholder_prefix final = None)"

lemma materialize_template:
  assumes "template_ok ps final"
  shows "materialize_from sf ctx out (template_text ps final) =
    rmap (\<lambda>vs. out @ concat (map2 (\<lambda>(l, _) v. l @ to_sql_literal sf v) ps vs) @ final)
      (mapr (\<lambda>(_, f). ok_or (MissingUserValue f) (map_of ctx f)) ps)"
  using assms
proof (induction ps arbitrary: out)
  case Nil
  then show ?case by (simp add: template_text_def template_ok_def materialize_from.simps)
next
  case (Cons p ps)
  obtain l f where p: "p = (l, f)" by (cases p)
  have t: "template_text (p # ps) final = l @ placeholder_prefix @ f @ placeholder_suffix @ template_text ps final"
    by (simp add: template_text_def p)
  have s: "find_sub placeholder_prefix (template_text (p # ps) final) = Some (l, f @ placeholder_suffix @ template_text ps final)"
    "find_sub placeholder_suffix (f @ placeholder_suffix @ template_text ps final) = Some (f, template_text ps final)"
    using Cons.prems unfolding t by (auto simp: template_ok_def p intro!: find_sub_skip)
  show ?case
  proof (cases "map_of ctx f")
    case (Some v)
    have "materialize_from sf ctx out (template_text (p # ps) final) =
        materialize_from sf ctx (out @ l @ to_sql_literal sf v) (template_text ps final)"
      by (subst materialize_from.simps) (simp add: s Some)
    also have "\<dots> = rmap (\<lambda>vs. (out @ l @ to_sql_literal sf v) @ concat (map2 (\<lambda>(l, _) v. l @ to_sql_literal sf v) ps vs) @ final)
      (mapr (\<lambda>(_, f). ok_or (MissingUserValue f) (map_of ctx f)) ps)"
      using Cons by (simp add: template_ok_def)
    finally show ?thesis
      by (cases "mapr (\<lambda>(_, f). ok_or (MissingUserValue f) (map_of ctx f)) ps") (simp_all add: p Some)
  qed (subst materialize_from.simps, simp add: s [unfolded p] p)
qed

text \<open>A field name with two adjacent underscores is cut at the first pair: the wrong field is looked up.\<close>

lemma materialize_misreads_field:
  "materialize sf \<lparr>canonical = ''x = '' @ placeholder_prefix @ ''org__id'' @ placeholder_suffix, user_fields = [(''org__id'', ())]\<rparr>
     [(''org'', UInt 1), (''org__id'', UInt 2)] = Ok ''x = 1id__''"
  by (simp add: materialize_def materialize_from.simps find_sub.simps placeholder_prefix_def
      placeholder_suffix_def show_int_def show_nat.simps digit_char_simps)

fun quoted_value :: "user_value \<Rightarrow> bool" where
  "quoted_value (UText _) = True"
| "quoted_value (UTimestamp _) = True"
| "quoted_value (UUuid _) = True"
| "quoted_value (UJsonb _) = True"
| "quoted_value (UEnum _) = True"
| "quoted_value _ = False"



section \<open>Rule versions\<close>

lemma find_snoc: "find P (xs @ [y]) = (case find P xs of None \<Rightarrow> if P y then Some y else None | Some z \<Rightarrow> Some z)"
  by (induction xs) auto

lemma install_fold:
  assumes "distinct (map rule_name rules)"
  shows "bt_invar (fst (fold (install_rule dbg e old) rules ([], []))) \<and>
    (\<forall>n. map_of (fst (fold (install_rule dbg e old) rules ([], []))) n =
       (case find (\<lambda>r. rule_name r = n) rules of None \<Rightarrow> None
        | Some r \<Rightarrow> Some \<lparr>re_version = (case map_of old n of Some x \<Rightarrow> if re_canonical x = dbg r then re_version x else e | None \<Rightarrow> e),
            re_canonical = dbg r\<rparr>)) \<and>
    snd (fold (install_rule dbg e old) rules ([], [])) =
       map rule_name (filter (\<lambda>r. case map_of old (rule_name r) of Some x \<Rightarrow> re_canonical x \<noteq> dbg r | None \<Rightarrow> True) rules)"
  using assms
proof (induction rules rule: rev_induct)
  case (snoc r rules)
  obtain m c where mc: "fold (install_rule dbg e old) rules ([], []) = (m, c)" by fastforce
  have new: "find (\<lambda>x. rule_name x = rule_name r) rules = None"
    using snoc.prems by (auto simp: find_None_iff image_iff)
  have ih: "bt_invar m" "\<And>n. map_of m n = (case find (\<lambda>r. rule_name r = n) rules of None \<Rightarrow> None
        | Some r \<Rightarrow> Some \<lparr>re_version = (case map_of old n of Some x \<Rightarrow> if re_canonical x = dbg r then re_version x else e | None \<Rightarrow> e),
            re_canonical = dbg r\<rparr>)"
    "c = map rule_name (filter (\<lambda>r. case map_of old (rule_name r) of Some x \<Rightarrow> re_canonical x \<noteq> dbg r | None \<Rightarrow> True) rules)"
    using snoc mc by auto
  have "fold (install_rule dbg e old) (rules @ [r]) ([], []) = install_rule dbg e old r (m, c)" by (simp add: mc)
  then show ?case
    using ih(1,3) new unfolding install_rule_def [of dbg e old r "(m, c)"]
    by (auto simp: Let_def bt_invar_insert map_of_bt_insert find_snoc ih(2) split: option.splits)
qed simp



end
