(* ===== verification/Server_Cursor.thy ===== *)
theory Server_Cursor
  imports Wire_Codec Permissions
begin

text \<open>
  Trace cursors and snapshots of the server: \<^verbatim>\<open>palimpsest-server/src/cursor.rs\<close>,
  \<^verbatim>\<open>palimpsest-server/src/snapshot.rs\<close> and the router errors of \<^verbatim>\<open>palimpsest-server/src/error.rs\<close>.
  The trait \<^verbatim>\<open>TraceCursor\<close> is the locale \<open>trace_cursor\<close>: its laws say that the cursor yields a
  sequence of pending diffs in order.  The provided methods are loops over the trait's
  operations and may not end for an arbitrary implementation, so they are partial functions;
  the locale proves that they return.
\<close>

section \<open>Errors and diffs\<close>

type_synonym subscription_id = u64

datatype router_error =
    DuplicateClientSubscriptionId
  | UnknownSubscription subscription_id
  | ResumeOutOfWindow
  | RSnapshot string
  | RPermission permission_error
  | PermissionUnenforceable string
  | RCodec server_codec_error
  | ChannelSaturated

record raw_diff =
  rd_table :: "table_id option"
  rd_row :: row
  rd_lsn :: lsn
  rd_diff :: i64

record lsn_batch =
  lb_lsn :: lsn
  lb_diffs :: "raw_diff list"

record query_transaction_delta =
  qd_transaction_id :: "u32 option"
  qd_begin_lsn :: "lsn option"
  qd_commit_lsn :: lsn
  qd_end_lsn :: "lsn option"
  qd_diffs :: "raw_diff list"

definition diffs_cardinality :: "raw_diff list \<Rightarrow> u64" where
  "diffs_cardinality ds = (\<Sum>d\<leftarrow>ds. of_nat (nat \<bar>sint (rd_diff d)\<bar>))"

definition delta_of_batch :: "lsn_batch \<Rightarrow> query_transaction_delta" where
  "delta_of_batch b = \<lparr>qd_transaction_id = None, qd_begin_lsn = None, qd_commit_lsn = lb_lsn b,
     qd_end_lsn = None, qd_diffs = lb_diffs b\<rparr>"

section \<open>Batching\<close>

partial_function (option) batch_loop ::
    "('c \<Rightarrow> raw_diff option \<times> 'c) \<Rightarrow> ('c \<Rightarrow> lsn option) \<Rightarrow> lsn \<Rightarrow> raw_diff list \<Rightarrow> 'c
       \<Rightarrow> (raw_diff list \<times> 'c) option" where
  "batch_loop next_diff peek_lsn at diffs c =
     (case peek_lsn c of
        None \<Rightarrow> Some (diffs, c)
      | Some l \<Rightarrow>
          if l \<noteq> at then Some (diffs, c)
          else (case fst (next_diff c) of
                  None \<Rightarrow> Some (diffs, snd (next_diff c))
                | Some item \<Rightarrow> batch_loop next_diff peek_lsn at (diffs @ [item]) (snd (next_diff c))))"

definition next_batch ::
    "('c \<Rightarrow> raw_diff option \<times> 'c) \<Rightarrow> ('c \<Rightarrow> lsn option) \<Rightarrow> 'c \<Rightarrow> (lsn_batch option \<times> 'c) option" where
  "next_batch next_diff peek_lsn c =
     (case next_diff c of
        (None, c') \<Rightarrow> Some (None, c')
      | (Some first, c') \<Rightarrow>
          map_option (\<lambda>(diffs, c''). (Some \<lparr>lb_lsn = rd_lsn first, lb_diffs = diffs\<rparr>, c''))
            (batch_loop next_diff peek_lsn (rd_lsn first) [first] c'))"

definition next_transaction ::
    "('c \<Rightarrow> raw_diff option \<times> 'c) \<Rightarrow> ('c \<Rightarrow> lsn option) \<Rightarrow> 'c
       \<Rightarrow> (query_transaction_delta option \<times> 'c) option" where
  "next_transaction next_diff peek_lsn c =
     map_option (\<lambda>(b, c'). (map_option delta_of_batch b, c')) (next_batch next_diff peek_lsn c)"

partial_function (option) batches_loop ::
    "('c \<Rightarrow> (lsn_batch option \<times> 'c) option) \<Rightarrow> lsn option \<Rightarrow> lsn_batch list \<Rightarrow> 'c
       \<Rightarrow> ((lsn_batch list, router_error) result \<times> 'c) option" where
  "batches_loop next last_lsn batches c =
     (case next c of
        None \<Rightarrow> None
      | Some r \<Rightarrow>
          (case fst r of
             None \<Rightarrow> Some (Ok batches, snd r)
           | Some b \<Rightarrow>
               if (case last_lsn of None \<Rightarrow> False | Some prev \<Rightarrow> lb_lsn b < prev)
               then Some (Err ChannelSaturated, snd r)
               else batches_loop next (Some (lb_lsn b)) (batches @ [b]) (snd r)))"

definition batch_by_lsn ::
    "('c \<Rightarrow> raw_diff option \<times> 'c) \<Rightarrow> ('c \<Rightarrow> lsn option) \<Rightarrow> 'c
       \<Rightarrow> ((lsn_batch list, router_error) result \<times> 'c) option" where
  "batch_by_lsn next_diff peek_lsn c = batches_loop (next_batch next_diff peek_lsn) None [] c"

text \<open>The in-memory cursor \<^verbatim>\<open>VecCursor\<close> is its queue.\<close>

fun vec_next_diff :: "raw_diff list \<Rightarrow> raw_diff option \<times> raw_diff list" where
  "vec_next_diff [] = (None, [])"
| "vec_next_diff (d # ds) = (Some d, ds)"

fun vec_peek_lsn :: "raw_diff list \<Rightarrow> lsn option" where
  "vec_peek_lsn [] = None"
| "vec_peek_lsn (d # ds) = Some (rd_lsn d)"

section \<open>Snapshots\<close>

record snapshot_table_rows =
  st_table :: table_id
  st_rows :: "row list"

record snapshot_batch =
  sb_snapshot_lsn :: lsn
  sb_rows :: "snapshot_table_rows list"

record wal_update =
  wu_table :: table_id
  wu_row :: row
  wu_time :: lsn
  wu_diff :: i64

definition snapshot_to_seed_updates :: "snapshot_batch \<Rightarrow> wal_update list" where
  "snapshot_to_seed_updates b =
     concat (map (\<lambda>t. map (\<lambda>r. \<lparr>wu_table = st_table t, wu_row = r, wu_time = sb_snapshot_lsn b, wu_diff = 1\<rparr>)
       (st_rows t)) (sb_rows b))"

definition snapshot_seed ::
    "(string \<Rightarrow> (snapshot_batch, string) result) \<Rightarrow> string
       \<Rightarrow> (snapshot_batch \<times> wal_update list, router_error) result" where
  "snapshot_seed fetch query =
     rbind (map_err RSnapshot (fetch query)) (\<lambda>b. Ok (b, snapshot_to_seed_updates b))"

section \<open>The contract of a cursor\<close>

text \<open>The reference grouping: maximal runs of equal LSNs.\<close>

function lsn_groups :: "raw_diff list \<Rightarrow> lsn_batch list" where
  "lsn_groups [] = []"
| "lsn_groups (d # ds) = \<lparr>lb_lsn = rd_lsn d, lb_diffs = d # takeWhile (\<lambda>e. rd_lsn e = rd_lsn d) ds\<rparr>
     # lsn_groups (dropWhile (\<lambda>e. rd_lsn e = rd_lsn d) ds)"
  by pat_completeness auto
termination
  by (relation "measure length") (auto simp: le_imp_less_Suc length_dropWhile_le)

locale trace_cursor =
  fixes next_diff :: "'c \<Rightarrow> raw_diff option \<times> 'c"
    and peek_lsn :: "'c \<Rightarrow> lsn option"
    and pending :: "'c \<Rightarrow> raw_diff list"
    and invar :: "'c \<Rightarrow> bool"
  assumes invar_next: "invar c \<Longrightarrow> invar (snd (next_diff c))"
    and next_None: "invar c \<Longrightarrow> pending c = [] \<Longrightarrow> fst (next_diff c) = None \<and> pending (snd (next_diff c)) = []"
    and next_Some: "invar c \<Longrightarrow> pending c = d # ds \<Longrightarrow> fst (next_diff c) = Some d \<and> pending (snd (next_diff c)) = ds"
    and peek: "invar c \<Longrightarrow> peek_lsn c = (case pending c of [] \<Rightarrow> None | d # _ \<Rightarrow> Some (rd_lsn d))"
begin

lemma batch_loop_spec:
  "invar c \<Longrightarrow> \<exists>c'. invar c' \<and> batch_loop next_diff peek_lsn at acc c
      = Some (acc @ takeWhile (\<lambda>e. rd_lsn e = at) (pending c), c')
    \<and> pending c' = dropWhile (\<lambda>e. rd_lsn e = at) (pending c)"
proof (induction "pending c" arbitrary: acc c)
  case Nil
  then show ?case
    using peek [of c] by (subst batch_loop.simps) (auto simp: Nil(1) [symmetric])
next
  case (Cons d ds)
  have n: "fst (next_diff c) = Some d" "pending (snd (next_diff c)) = ds"
    using next_Some [of c d ds] Cons.hyps(2) Cons.prems by auto
  show ?case
  proof (cases "rd_lsn d = at")
    case True
    have "batch_loop next_diff peek_lsn at acc c
        = batch_loop next_diff peek_lsn at (acc @ [d]) (snd (next_diff c))"
      using peek [of c] Cons.prems Cons.hyps(2) [symmetric] True n by (subst batch_loop.simps) simp
    then show ?thesis
      using Cons.hyps(1) [of "snd (next_diff c)" "acc @ [d]"] invar_next [OF Cons.prems] n(2)
        Cons.hyps(2) [symmetric] True by simp
  next
    case False
    then show ?thesis
      using peek [of c] Cons.prems Cons.hyps(2) [symmetric] by (subst batch_loop.simps) simp
  qed
qed

lemma next_batch_None:
  "invar c \<Longrightarrow> pending c = [] \<Longrightarrow>
     \<exists>c'. invar c' \<and> next_batch next_diff peek_lsn c = Some (None, c') \<and> pending c' = []"
  using next_None [of c] invar_next [of c] by (cases "next_diff c") (simp add: next_batch_def)

lemma next_batch_Some:
  assumes "invar c" and "pending c = d # ds"
  shows "\<exists>c'. invar c' \<and> next_batch next_diff peek_lsn c
      = Some (Some \<lparr>lb_lsn = rd_lsn d, lb_diffs = d # takeWhile (\<lambda>e. rd_lsn e = rd_lsn d) ds\<rparr>, c')
    \<and> pending c' = dropWhile (\<lambda>e. rd_lsn e = rd_lsn d) ds"
  using next_Some [OF assms] invar_next [OF assms(1)] batch_loop_spec [of "snd (next_diff c)" "rd_lsn d" "[d]"]
  by (cases "next_diff c") (auto simp: next_batch_def)

lemma batches_loop_spec:
  "invar c \<Longrightarrow> \<exists>c'. batches_loop (next_batch next_diff peek_lsn) prev acc c
     = Some (if sorted ((case prev of None \<Rightarrow> [] | Some l \<Rightarrow> [l]) @ map rd_lsn (pending c))
             then Ok (acc @ lsn_groups (pending c)) else Err ChannelSaturated, c')"
proof (induction "pending c" arbitrary: prev acc c rule: lsn_groups.induct)
  case 1
  obtain c' where "next_batch next_diff peek_lsn c = Some (None, c')"
    using next_batch_None [of c] 1 by auto
  then show ?case by (subst batches_loop.simps) (simp add: 1(1) [symmetric] split: option.splits)
next
  case (2 d ds)
  define same where "same = (\<lambda>e :: raw_diff. rd_lsn e = rd_lsn d)"
  obtain c' where c': "next_batch next_diff peek_lsn c
      = Some (Some \<lparr>lb_lsn = rd_lsn d, lb_diffs = d # takeWhile same ds\<rparr>, c')"
    and p: "pending c' = dropWhile same ds" and "invar c'"
    using next_batch_Some [of c d ds] 2(2, 3) by (auto simp: same_def)
  have groups: "lsn_groups (pending c)
      = \<lparr>lb_lsn = rd_lsn d, lb_diffs = d # takeWhile same ds\<rparr> # lsn_groups (pending c')"
    using 2(2) [symmetric] by (simp add: p same_def)
  have split: "map rd_lsn ds = replicate (length (takeWhile same ds)) (rd_lsn d) @ map rd_lsn (pending c')"
  proof -
    have "map rd_lsn (takeWhile same ds) = replicate (length (takeWhile same ds)) (rd_lsn d)"
      by (auto simp: same_def dest: set_takeWhileD intro!: replicate_eqI)
    then show ?thesis using p by (metis map_append takeWhile_dropWhile_id)
  qed
  have sorted_tail: "sorted (map rd_lsn (pending c)) \<longleftrightarrow> sorted (rd_lsn d # map rd_lsn (pending c'))"
    using 2(2) [symmetric] by (auto simp: split sorted_append)
  show ?case
  proof (cases "case prev of None \<Rightarrow> False | Some l \<Rightarrow> rd_lsn d < l")
    case True
    then have "\<not> sorted ((case prev of None \<Rightarrow> [] | Some l \<Rightarrow> [l]) @ map rd_lsn (pending c))"
      using 2(2) [symmetric] by (auto split: option.splits)
    then show ?thesis using c' True by (subst batches_loop.simps) (auto split: option.splits)
  next
    case False
    have "batches_loop (next_batch next_diff peek_lsn) prev acc c
        = batches_loop (next_batch next_diff peek_lsn) (Some (rd_lsn d))
            (acc @ [\<lparr>lb_lsn = rd_lsn d, lb_diffs = d # takeWhile same ds\<rparr>]) c'"
      using c' False by (subst batches_loop.simps) (auto split: option.splits)
    moreover have "sorted ((case prev of None \<Rightarrow> [] | Some l \<Rightarrow> [l]) @ map rd_lsn (pending c))
        \<longleftrightarrow> sorted (rd_lsn d # map rd_lsn (pending c'))"
      using False sorted_tail 2(2) [symmetric] by (auto split: option.splits)
    moreover have "dropWhile (\<lambda>e. rd_lsn e = rd_lsn d) ds = pending c'" using p by (simp add: same_def)
    note 2(1) [OF this \<open>invar c'\<close>, of "Some (rd_lsn d)" "acc @ [\<lparr>lb_lsn = rd_lsn d, lb_diffs = d # takeWhile same ds\<rparr>]"]
    ultimately show ?thesis by (simp only: groups option.case append_assoc append_Cons append_Nil)
  qed
qed

lemma batch_by_lsn_spec:
  "invar c \<Longrightarrow> \<exists>c'. batch_by_lsn next_diff peek_lsn c
     = Some (if sorted (map rd_lsn (pending c)) then Ok (lsn_groups (pending c)) else Err ChannelSaturated, c')"
  using batches_loop_spec [of c None "[]"] unfolding batch_by_lsn_def by (simp only: option.case append_Nil)

end

interpretation vc: trace_cursor vec_next_diff vec_peek_lsn id "\<lambda>_. True"
  by unfold_locales (auto split: list.splits)

text \<open>The groups partition the diffs, each has one LSN, and over ordered diffs the LSNs of
  successive groups increase.\<close>

lemma concat_lsn_groups: "concat (map lb_diffs (lsn_groups ds)) = ds"
  by (induction ds rule: lsn_groups.induct) simp_all

lemma lsn_groups_uniform:
  "b \<in> set (lsn_groups ds) \<Longrightarrow> lb_diffs b \<noteq> [] \<and> (\<forall>d \<in> set (lb_diffs b). rd_lsn d = lb_lsn b)"
proof (induction ds rule: lsn_groups.induct)
  case (2 d ds)
  show ?case
  proof (cases "b \<in> set (lsn_groups (dropWhile (\<lambda>e. rd_lsn e = rd_lsn d) ds))")
    case True
    then show ?thesis by (rule 2(1))
  next
    case False
    with 2(2) have "b = \<lparr>lb_lsn = rd_lsn d, lb_diffs = d # takeWhile (\<lambda>e. rd_lsn e = rd_lsn d) ds\<rparr>" by simp
    moreover have "\<forall>e \<in> set (takeWhile (\<lambda>e. rd_lsn e = rd_lsn d) ds). rd_lsn e = rd_lsn d"
      using set_takeWhileD [of _ "\<lambda>e. rd_lsn e = rd_lsn d" ds] by blast
    ultimately show ?thesis by (metis list.distinct(1) lsn_batch.select_convs set_ConsD)
  qed
qed simp

lemma lsn_groups_lsn:
  assumes "b \<in> set (lsn_groups ds)"
  shows "lb_lsn b \<in> rd_lsn ` set ds"
proof -
  obtain d where d: "d \<in> set (lb_diffs b)"
    using lsn_groups_uniform [OF assms] by (cases "lb_diffs b") auto
  moreover have "d \<in> set (concat (map lb_diffs (lsn_groups ds)))" using assms d by auto
  ultimately show ?thesis using lsn_groups_uniform [OF assms] unfolding concat_lsn_groups by force
qed

lemma lsn_groups_increasing: "sorted (map rd_lsn ds) \<Longrightarrow> sorted_wrt (<) (map lb_lsn (lsn_groups ds))"
proof (induction ds rule: lsn_groups.induct)
  case (2 d ds)
  define same where "same = (\<lambda>e :: raw_diff. rd_lsn e = rd_lsn d)"
  have sd: "sorted (map rd_lsn (dropWhile same ds))"
    using 2(2) by (simp add: sorted_wrt_map sorted_wrt_dropWhile)
  have "rd_lsn d < rd_lsn e" if "e \<in> set (dropWhile same ds)" for e
  proof -
    obtain x xs where Cons: "dropWhile same ds = x # xs" using \<open>e \<in> _\<close> by (cases "dropWhile same ds") auto
    have "x \<in> set (dropWhile same ds)" using Cons by simp
    then have "x \<in> set ds" by (rule set_dropWhileD)
    then have "rd_lsn d \<le> rd_lsn x" using 2(2) by simp
    moreover have "\<not> same x" using hd_dropWhile [of same ds] Cons by simp
    ultimately have "rd_lsn d < rd_lsn x" by (simp add: same_def less_le)
    moreover have "rd_lsn x \<le> rd_lsn e" using sd that Cons by auto
    ultimately show ?thesis by simp
  qed
  then have "\<forall>b \<in> set (lsn_groups (dropWhile same ds)). rd_lsn d < lb_lsn b"
    using lsn_groups_lsn [of _ "dropWhile same ds"] by (metis (no_types, lifting) imageE)
  then show ?case using 2(1) sd unfolding same_def by simp
qed simp

end
