(* ===== verification/Pg_Runtime.thy ===== *)
theory Pg_Runtime
  imports Server_Cursor
begin

text \<open>
  The Postgres-backed runtime of \<^verbatim>\<open>palimpsest-postgres\<close>: table introspection
  (\<^verbatim>\<open>introspect.rs\<close>), the mirror of the streamed tables with its diff journal and its
  cursors (\<^verbatim>\<open>runtime.rs\<close>), and the frame loop that feeds it (\<^verbatim>\<open>replication.rs\<close>).

  Parameters: \<open>lower\<close> is \<^verbatim>\<open>palimpsest_sql::parse_and_lower\<close> with its error already rendered, and
  \<open>order\<close> is the iteration order of a hash map.  A snapshot reads the mirror under its lock and
  the clock afterwards, so \<open>fetch_snapshot\<close> takes the state at each of the two moments.  Journal
  sequence numbers, 64-bit counters of the entries ever pushed, are natural numbers.
\<close>

section \<open>Introspected tables\<close>

record introspected_column =
  ic_name :: string
  ic_type_oid :: u32
  ic_datum_type :: datum_type
  ic_column_type :: column_type
  ic_nullable :: bool
  ic_primary_key :: bool

record introspected_table =
  it_id :: table_id
  it_namespace :: string
  it_name :: string
  it_replica_identity :: replica_identity
  it_columns :: "introspected_column list"

definition scalar_schema :: "introspected_table \<Rightarrow> (string \<times> column_type) list" where
  "scalar_schema t = map (\<lambda>c. (ic_name c, ic_column_type c)) (it_columns t)"

definition it_relation_schema :: "introspected_table \<Rightarrow> relation_schema" where
  "it_relation_schema t = \<lparr>rs_table = it_id t, rs_namespace = it_namespace t, rs_name = it_name t,
     rs_replica_identity = it_replica_identity t,
     rs_columns = map (\<lambda>c. \<lparr>cd_name = ic_name c, type_oid = ic_type_oid c, cd_datum_type = ic_datum_type c,
       nullable = ic_nullable c, key = ic_primary_key c\<rparr>) (it_columns t)\<rparr>"

definition primary_key_positions :: "introspected_table \<Rightarrow> nat list" where
  "primary_key_positions t = List.map_filter (\<lambda>(i, c). if ic_primary_key c then Some i else None)
     (zip [0..<length (it_columns t)] (it_columns t))"

definition full_table_name :: "introspected_table \<Rightarrow> string" where
  "full_table_name t = it_namespace t @ ''.'' @ it_name t"

definition introspected_catalog :: "introspected_table list \<Rightarrow> sql_catalog" where
  "introspected_catalog tabs = sql_catalog_new (concat (map (\<lambda>t.
     let columns = map (\<lambda>c. \<lparr>cs_name = ic_name c, cs_ty = ic_column_type c\<rparr>) (it_columns t)
     in map (\<lambda>name. \<lparr>ts_name = name, ts_columns = columns\<rparr>) [it_name t, full_table_name t]) tabs))"

definition split_table_name :: "string \<Rightarrow> string \<times> string" where
  "split_table_name table = (case split_once (CHR ''.'') table of None \<Rightarrow> (''public'', table) | Some p \<Rightarrow> p)"

fun column_type_of :: "datum_type \<Rightarrow> column_type" where
  "column_type_of TBool = CtBool"
| "column_type_of TI16 = CtInt"
| "column_type_of TI32 = CtInt"
| "column_type_of TI64 = CtInt"
| "column_type_of TF32 = CtFloat"
| "column_type_of TF64 = CtFloat"
| "column_type_of TNumeric = CtNumeric"
| "column_type_of TText = CtText"
| "column_type_of TBytea = CtBytea"
| "column_type_of TDate = CtDate"
| "column_type_of TTime = CtTime"
| "column_type_of TTimestamp = CtTimestamp"
| "column_type_of TTimestampTz = CtTimestampTz"
| "column_type_of TInterval = CtInterval"
| "column_type_of TUuid = CtUuid"
| "column_type_of TJson = CtJsonb"
| "column_type_of TJsonb = CtJsonb"
| "column_type_of (TArray _) = CtArray"

definition map_type ::
    "u32 \<Rightarrow> string \<Rightarrow> string \<Rightarrow> u32 option \<Rightarrow> string option \<Rightarrow> u32 option \<Rightarrow> string option
       \<Rightarrow> datum_type \<times> column_type" where
  "map_type oid typtype typcategory base_oid base_typtype elem_oid elem_typtype =
     (case stock_postgres_16_type oid of
        Some ty \<Rightarrow> (ty, column_type_of ty)
      | None \<Rightarrow>
          if typtype = ''e'' then (TText, CtEnum)
          else if typtype = ''d'' then
            (case base_oid of
               None \<Rightarrow> (TText, CtText)
             | Some b \<Rightarrow>
                 (case stock_postgres_16_type b of
                    Some ty \<Rightarrow> (ty, column_type_of ty)
                  | None \<Rightarrow> if base_typtype = Some ''e'' then (TText, CtEnum) else (TText, CtText)))
          else if typcategory = ''A'' then
            (TArray (case Option.bind elem_oid stock_postgres_16_type of Some ty \<Rightarrow> ty | None \<Rightarrow> TText), CtArray)
          else (TText, CtText))"

section \<open>The journal\<close>

record journal =
  jn_entries :: "raw_diff list"
  jn_base_seq :: nat
  jn_truncated_through :: u64
  jn_capacity :: nat

definition journal_new :: "nat \<Rightarrow> journal" where
  "journal_new cap = \<lparr>jn_entries = [], jn_base_seq = 0, jn_truncated_through = 0, jn_capacity = max cap 1\<rparr>"

definition journal_push :: "raw_diff \<Rightarrow> journal \<Rightarrow> journal" where
  "journal_push d j =
     (let j' = (if length (jn_entries j) = jn_capacity j
                then (case jn_entries j of
                        [] \<Rightarrow> j
                      | dropped # rest \<Rightarrow> j\<lparr>jn_entries := rest, jn_base_seq := jn_base_seq j + 1,
                          jn_truncated_through := max (jn_truncated_through j) (rd_lsn dropped)\<rparr>)
                else j)
      in j'\<lparr>jn_entries := jn_entries j' @ [d]\<rparr>)"

section \<open>The runtime\<close>

type_synonym mirror = "(table_id, row list) btree"
type_synonym change = "table_id \<times> row_op \<times> tuple option \<times> tuple option"

record shared_state =
  ss_tables_by_name :: "(string, introspected_table) btree"
  ss_names_by_id :: "(table_id, introspected_table) btree"
  ss_mirror :: mirror
  ss_journal :: journal
  ss_clock :: u64
  ss_reconciles :: u64
  ss_failed :: "string option"

definition register_table ::
    "introspected_table \<Rightarrow> (string, introspected_table) btree \<times> (table_id, introspected_table) btree
       \<Rightarrow> (string, introspected_table) btree \<times> (table_id, introspected_table) btree" where
  "register_table t m =
     (let by_name = bt_insert (full_table_name t) t (fst m)
      in (case map_of by_name (it_name t) of None \<Rightarrow> bt_insert (it_name t) t by_name | Some _ \<Rightarrow> by_name,
          bt_insert (it_id t) t (snd m)))"

definition from_tables :: "introspected_table list \<Rightarrow> nat \<Rightarrow> shared_state" where
  "from_tables tabs journal_capacity =
     (let m = fold register_table tabs ([], [])
      in \<lparr>ss_tables_by_name = fst m, ss_names_by_id = snd m, ss_mirror = [],
          ss_journal = journal_new journal_capacity, ss_clock = 0, ss_reconciles = 0, ss_failed = None\<rparr>)"

definition table_by_id :: "shared_state \<Rightarrow> table_id \<Rightarrow> introspected_table option" where
  "table_by_id s t = map_of (ss_names_by_id s) t"

definition runtime_fail :: "string \<Rightarrow> shared_state \<Rightarrow> shared_state" where
  "runtime_fail msg s = s\<lparr>ss_failed := (case ss_failed s of None \<Rightarrow> Some msg | Some m \<Rightarrow> Some m)\<rparr>"

definition check_failed :: "shared_state \<Rightarrow> (unit, string) result" where
  "check_failed s = (case ss_failed s of None \<Rightarrow> Ok () | Some m \<Rightarrow> Err m)"

definition seed_snapshot :: "u64 \<Rightarrow> mirror \<Rightarrow> shared_state \<Rightarrow> shared_state" where
  "seed_snapshot l rows s = s\<lparr>ss_mirror := rows, ss_clock := l\<rparr>"

definition tuple_to_row :: "tuple \<Rightarrow> row option \<Rightarrow> row" where
  "tuple_to_row tup old = map (\<lambda>(i, d). case d of
       DUnchanged \<Rightarrow> (case old of None \<Rightarrow> DNull | Some r \<Rightarrow> if i < length r then r ! i else DNull)
     | _ \<Rightarrow> d) (zip [0..<length tup] tup)"

fun row_position :: "row \<Rightarrow> row list \<Rightarrow> nat option" where
  "row_position r [] = None"
| "row_position r (x # xs) = (if x = r then Some 0 else map_option Suc (row_position r xs))"

definition swap_remove :: "nat \<Rightarrow> 'a list \<Rightarrow> 'a list" where
  "swap_remove i xs = butlast (xs[i := last xs])"

definition mirror_rows :: "mirror \<Rightarrow> table_id \<Rightarrow> row list" where
  "mirror_rows m t = (case map_of m t of None \<Rightarrow> [] | Some rows \<Rightarrow> rows)"

definition diff_at :: "table_id \<Rightarrow> lsn \<Rightarrow> row \<Rightarrow> i64 \<Rightarrow> raw_diff" where
  "diff_at t l r n = \<lparr>rd_table = Some t, rd_row = r, rd_lsn = l, rd_diff = n\<rparr>"

fun apply_change :: "lsn \<Rightarrow> change \<Rightarrow> mirror \<times> journal \<Rightarrow> mirror \<times> journal" where
  "apply_change l (t, Insert, old, new) (m, j) =
     (case new of
        None \<Rightarrow> (bt_insert t (mirror_rows m t) m, j)
      | Some n \<Rightarrow> (let r = tuple_to_row n None
          in (bt_insert t (mirror_rows m t @ [r]) m, journal_push (diff_at t l r 1) j)))"
| "apply_change l (t, Update, old, new) (m, j) =
     (case (old, new) of
        (Some old', Some n) \<Rightarrow>
          (let old_row = tuple_to_row old' None; new_row = tuple_to_row n (Some old_row);
               rows = mirror_rows m t;
               rows' = (case row_position old_row rows of
                          Some i \<Rightarrow> rows[i := new_row] | None \<Rightarrow> rows @ [new_row])
           in (bt_insert t rows' m,
               journal_push (diff_at t l new_row 1) (journal_push (diff_at t l old_row (- 1)) j)))
      | _ \<Rightarrow> (bt_insert t (mirror_rows m t) m, j))"
| "apply_change l (t, Delete, old, new) (m, j) =
     (case old of
        None \<Rightarrow> (bt_insert t (mirror_rows m t) m, j)
      | Some old' \<Rightarrow>
          (let old_row = tuple_to_row old' None; rows = mirror_rows m t;
               rows' = (case row_position old_row rows of Some i \<Rightarrow> swap_remove i rows | None \<Rightarrow> rows)
           in (bt_insert t rows' m, journal_push (diff_at t l old_row (- 1)) j)))"

text \<open>The body that runs under the locks, and the store of the clock after they are released.\<close>

definition apply_changes_locked :: "lsn \<Rightarrow> change list \<Rightarrow> shared_state \<Rightarrow> shared_state" where
  "apply_changes_locked l changes s =
     (let mj = fold (apply_change l) changes (ss_mirror s, ss_journal s)
      in s\<lparr>ss_mirror := fst mj, ss_journal := snd mj\<rparr>)"

definition store_clock :: "u64 \<Rightarrow> shared_state \<Rightarrow> shared_state" where
  "store_clock l s = s\<lparr>ss_clock := l\<rparr>"

definition apply_transaction :: "u64 \<Rightarrow> change list \<Rightarrow> shared_state \<Rightarrow> shared_state" where
  "apply_transaction commit_lsn changes s =
     (if changes = [] then s else store_clock commit_lsn (apply_changes_locked commit_lsn changes s))"

definition truncate_table :: "lsn \<Rightarrow> table_id \<Rightarrow> mirror \<times> journal \<Rightarrow> mirror \<times> journal" where
  "truncate_table l t mj = (bt_insert t [] (fst mj),
     fold (\<lambda>r. journal_push (diff_at t l r (- 1))) (mirror_rows (fst mj) t) (snd mj))"

definition apply_truncate :: "u64 \<Rightarrow> table_id list \<Rightarrow> shared_state \<Rightarrow> shared_state" where
  "apply_truncate commit_lsn tabs s =
     (let mj = fold (truncate_table commit_lsn) tabs (ss_mirror s, ss_journal s)
      in store_clock commit_lsn (s\<lparr>ss_mirror := fst mj, ss_journal := snd mj\<rparr>))"

fun bump :: "i64 \<Rightarrow> row \<Rightarrow> (row \<times> i64) list \<Rightarrow> (row \<times> i64) list" where
  "bump v r [] = [(r, v)]"
| "bump v r ((r', n) # cs) = (if r' = r then (r', n + v) # cs else (r', n) # bump v r cs)"

definition row_counts :: "row list \<Rightarrow> row list \<Rightarrow> (row \<times> i64) list" where
  "row_counts new_rows old_rows = fold (bump (- 1)) old_rows (fold (bump 1) new_rows [])"

definition count_diffs :: "table_id \<Rightarrow> lsn \<Rightarrow> row \<times> i64 \<Rightarrow> raw_diff list" where
  "count_diffs t l rc = replicate (nat \<bar>sint (snd rc)\<bar>)
     (diff_at t l (fst rc) (if 0 < sint (snd rc) then 1 else - 1))"

definition reconcile_table ::
    "((row \<times> i64) list \<Rightarrow> (row \<times> i64) list) \<Rightarrow> lsn \<Rightarrow> mirror \<Rightarrow> table_id
       \<Rightarrow> mirror \<times> journal \<Rightarrow> mirror \<times> journal" where
  "reconcile_table order l fresh t mj =
     (let old_rows = mirror_rows (fst mj) t; new_rows = mirror_rows fresh t
      in (bt_insert t new_rows (bt_remove t (fst mj)),
          fold journal_push (concat (map (count_diffs t l) (order (row_counts new_rows old_rows)))) (snd mj)))"

definition reconcile_snapshot ::
    "((row \<times> i64) list \<Rightarrow> (row \<times> i64) list) \<Rightarrow> u64 \<Rightarrow> mirror \<Rightarrow> shared_state \<Rightarrow> shared_state" where
  "reconcile_snapshot order l fresh s =
     (let mj = fold (reconcile_table order l fresh) (map fst (ss_names_by_id s)) (ss_mirror s, ss_journal s)
      in store_clock l (s\<lparr>ss_reconciles := ss_reconciles s + 1, ss_mirror := fst mj, ss_journal := snd mj\<rparr>))"

section \<open>Snapshots and cursors\<close>

fun resolve_tables ::
    "(string, introspected_table) btree \<Rightarrow> string list \<Rightarrow> mir_node_kind list
       \<Rightarrow> (introspected_table list, string) result" where
  "resolve_tables by_name seen [] = Ok []"
| "resolve_tables by_name seen (k # ks) =
     (case k of
        BaseTable table _ \<Rightarrow>
          if table \<in> set seen then resolve_tables by_name seen ks
          else rbind (ok_or (''table '' @ [CHR 0x27] @ table @ [CHR 0x27]
                 @ '' is not in the streamed set (derived from the query registry)'') (map_of by_name table))
               (\<lambda>t. rbind (resolve_tables by_name (table # seen) ks) (\<lambda>ts. Ok (t # ts)))
      | _ \<Rightarrow> resolve_tables by_name seen ks)"

definition query_tables ::
    "(string \<Rightarrow> (mir_graph, string) result) \<Rightarrow> shared_state \<Rightarrow> string \<Rightarrow> (introspected_table list, string) result" where
  "query_tables lower s query =
     rbind (map_err (\<lambda>e. ''query does not parse: '' @ e) (lower query)) (\<lambda>g.
       resolve_tables (ss_tables_by_name s) [] (map ((!) (nodes g)) (base_table_indices g)))"

definition fetch_snapshot ::
    "(string \<Rightarrow> (mir_graph, string) result) \<Rightarrow> shared_state \<Rightarrow> shared_state \<Rightarrow> string
       \<Rightarrow> (snapshot_batch, string) result" where
  "fetch_snapshot lower s s' query =
     rbind (check_failed s) (\<lambda>_.
     rbind (query_tables lower s query) (\<lambda>tabs.
       Ok \<lparr>sb_snapshot_lsn = ss_clock s',
           sb_rows = map (\<lambda>t. \<lparr>st_table = it_id t, st_rows = mirror_rows (ss_mirror s) (it_id t)\<rparr>) tabs\<rparr>))"

record journal_cursor =
  jc_next_seq :: nat
  jc_from_lsn :: lsn
  jc_tables :: "table_id list"
  jc_poisoned :: bool

definition open_cursor ::
    "(string \<Rightarrow> (mir_graph, string) result) \<Rightarrow> shared_state \<Rightarrow> string \<Rightarrow> lsn \<Rightarrow> (journal_cursor, string) result" where
  "open_cursor lower s query from_lsn =
     rbind (check_failed s) (\<lambda>_.
     rbind (query_tables lower s query) (\<lambda>tabs.
       if jn_truncated_through (ss_journal s) > from_lsn
       then Err (''diff journal no longer covers LSN '' @ show_nat (unat from_lsn) @ '' (truncated through ''
              @ show_nat (unat (jn_truncated_through (ss_journal s))) @ ''); resubscribe for a fresh snapshot'')
       else Ok \<lparr>jc_next_seq = jn_base_seq (ss_journal s), jc_from_lsn = from_lsn,
                jc_tables = map it_id tabs, jc_poisoned = False\<rparr>))"

definition relevant :: "journal_cursor \<Rightarrow> raw_diff \<Rightarrow> bool" where
  "relevant c e \<longleftrightarrow> rd_lsn e > jc_from_lsn c
     \<and> (case rd_table e of None \<Rightarrow> False | Some t \<Rightarrow> t \<in> set (jc_tables c))"

fun cursor_scan :: "(raw_diff \<Rightarrow> bool) \<Rightarrow> raw_diff list \<Rightarrow> nat \<Rightarrow> raw_diff option \<times> nat" where
  "cursor_scan rel [] seq = (None, seq)"
| "cursor_scan rel (e # es) seq = (if rel e then (Some e, seq + 1) else cursor_scan rel es (seq + 1))"

definition journal_next_diff :: "journal \<times> journal_cursor \<Rightarrow> raw_diff option \<times> journal \<times> journal_cursor" where
  "journal_next_diff jc = (case jc of (j, c) \<Rightarrow>
     if jc_poisoned c then (None, j, c)
     else if jc_next_seq c < jn_base_seq j then (None, j, c\<lparr>jc_poisoned := True\<rparr>)
     else let r = cursor_scan (relevant c) (drop (jc_next_seq c - jn_base_seq j) (jn_entries j)) (jc_next_seq c)
          in (fst r, j, c\<lparr>jc_next_seq := snd r\<rparr>))"

definition journal_peek_lsn :: "journal \<times> journal_cursor \<Rightarrow> lsn option" where
  "journal_peek_lsn jc = (case jc of (j, c) \<Rightarrow>
     if jc_poisoned c \<or> jc_next_seq c < jn_base_seq j then None
     else map_option rd_lsn (find (relevant c) (drop (jc_next_seq c - jn_base_seq j) (jn_entries j))))"

fun wire_datum_type :: "column_type \<Rightarrow> datum_type" where
  "wire_datum_type CtBool = TBool"
| "wire_datum_type CtInt = TI64"
| "wire_datum_type CtFloat = TF64"
| "wire_datum_type CtNumeric = TNumeric"
| "wire_datum_type CtTimestamp = TTimestamp"
| "wire_datum_type CtTimestampTz = TTimestampTz"
| "wire_datum_type CtDate = TDate"
| "wire_datum_type CtTime = TTime"
| "wire_datum_type CtInterval = TInterval"
| "wire_datum_type CtUuid = TUuid"
| "wire_datum_type CtJsonb = TJsonb"
| "wire_datum_type CtBytea = TBytea"
| "wire_datum_type CtArray = TArray TText"
| "wire_datum_type CtText = TText"
| "wire_datum_type CtEnum = TText"
| "wire_datum_type CtUnknown = TText"

section \<open>The frame loop\<close>

record snapshot_fence =
  sf_xmax :: u64
  sf_in_progress :: "u64 list"

definition fence_parse :: "string \<Rightarrow> snapshot_fence option" where
  "fence_parse txt =
     (case split_on (CHR '':'') txt of
        _ # xmax # rest \<Rightarrow>
          (case parse_unsigned 10 xmax of
             None \<Rightarrow> None
           | Some x \<Rightarrow>
               (let xip = (case rest of [] \<Rightarrow> [] | p # _ \<Rightarrow> p)
                in Some \<lparr>sf_xmax = x, sf_in_progress =
                     (if xip = [] then [] else List.map_filter (parse_unsigned 10) (split_on (CHR '','') xip))\<rparr>))
      | _ \<Rightarrow> None)"

definition already_in_snapshot :: "snapshot_fence \<Rightarrow> u32 \<Rightarrow> bool" where
  "already_in_snapshot f xid =
     (if \<exists>x \<in> set (sf_in_progress f). (ucast x :: u32) = xid then False
      else sint (xid - (ucast (sf_xmax f) :: u32)) < 0)"

record pending_transaction =
  pt_xid :: u32
  pt_changes :: "change list"
  pt_truncates :: "table_id list"

datatype frame_error = FeTransport wal_error | FeFatal string string

definition drift_detail :: "string list \<Rightarrow> string list \<Rightarrow> string" where
  "drift_detail introspected streamed = ''columns changed from ['' @ intercalate '', '' introspected
     @ ''] to ['' @ intercalate '', '' streamed @ '']''"

text \<open>The part of \<^verbatim>\<open>apply_frame\<close> after decoding.\<close>

fun apply_event ::
    "decoded_event \<Rightarrow> snapshot_fence \<Rightarrow> shared_state \<times> catalog \<times> pending_transaction option
       \<Rightarrow> (u64 option, frame_error) result \<times> shared_state \<times> catalog \<times> pending_transaction option" where
  "apply_event (EvBegin xid final_lsn) fence (s, cat, pending) =
     (Ok None, s, cat, Some \<lparr>pt_xid = xid, pt_changes = [], pt_truncates = []\<rparr>)"
| "apply_event (EvRow t op old new) fence (s, cat, pending) =
     (Ok None, s, cat,
      if table_by_id s t \<noteq> None
      then map_option (\<lambda>p. p\<lparr>pt_changes := pt_changes p @ [(t, op, old, new)]\<rparr>) pending else pending)"
| "apply_event (EvTruncate tr) fence (s, cat, pending) =
     (Ok None, s, cat,
      map_option (\<lambda>p. p\<lparr>pt_truncates := pt_truncates p @ filter (\<lambda>t. table_by_id s t \<noteq> None) (tr_tables tr)\<rparr>) pending)"
| "apply_event (EvCommit commit_lsn end_lsn) fence (s, cat, pending) =
     (case pending of
        None \<Rightarrow> (Ok None, s, cat, None)
      | Some p \<Rightarrow>
          if already_in_snapshot fence (pt_xid p) then (Ok (Some commit_lsn), s, cat, None)
          else (let s1 = (if pt_truncates p \<noteq> [] then apply_truncate commit_lsn (pt_truncates p) s else s);
                    s2 = (if pt_changes p \<noteq> [] then apply_transaction commit_lsn (pt_changes p) s1 else s1)
                in (Ok (Some commit_lsn), s2, cat, None)))"
| "apply_event (EvSchema t columns) fence (s, cat, pending) =
     (case table_by_id s t of
        None \<Rightarrow> (Ok None, s, cat, pending)
      | Some known \<Rightarrow>
          (let streamed = map cd_name columns; introspected = map ic_name (it_columns known)
           in if streamed = introspected then (Ok None, s, upsert_relation (it_relation_schema known) cat, pending)
              else (Err (FeFatal (it_name known) (drift_detail introspected streamed)), s, cat, pending)))"
| "apply_event _ fence (s, cat, pending) = (Ok None, s, cat, pending)"

definition apply_frame ::
    "float_env \<Rightarrow> snapshot_fence \<Rightarrow> string \<Rightarrow> shared_state \<times> catalog \<times> pending_transaction option
       \<Rightarrow> (u64 option, frame_error) result \<times> shared_state \<times> catalog \<times> pending_transaction option" where
  "apply_frame fl fence payload st =
     (case st of (s, cat, pending) \<Rightarrow>
       (case decode_pgoutput_message fl cat payload of
          (Ok event, cat') \<Rightarrow> apply_event event fence (s, cat', pending)
        | (Err e, cat') \<Rightarrow> (Err (FeTransport e), s, cat', pending)
        | (Panic, cat') \<Rightarrow> (Panic, s, cat', pending)))"

section \<open>The journal keeps the tail of its history\<close>

definition journal_ok :: "raw_diff list \<Rightarrow> journal \<Rightarrow> bool" where
  "journal_ok hist j \<longleftrightarrow> (\<exists>dropped. hist = dropped @ jn_entries j \<and> jn_base_seq j = length dropped
     \<and> (\<forall>d \<in> set dropped. rd_lsn d \<le> jn_truncated_through j)
     \<and> (jn_truncated_through j = 0 \<or> jn_truncated_through j \<in> rd_lsn ` set dropped))
     \<and> length (jn_entries j) \<le> jn_capacity j \<and> 0 < jn_capacity j"

lemma journal_new_ok: "journal_ok [] (journal_new cap)"
  by (simp add: journal_ok_def journal_new_def)

lemma journal_push_ok:
  assumes "journal_ok hist j"
  shows "journal_ok (hist @ [d]) (journal_push d j)"
proof -
  obtain dropped where o: "hist = dropped @ jn_entries j" "jn_base_seq j = length dropped"
    "\<forall>d \<in> set dropped. rd_lsn d \<le> jn_truncated_through j"
    "jn_truncated_through j = 0 \<or> jn_truncated_through j \<in> rd_lsn ` set dropped"
    "length (jn_entries j) \<le> jn_capacity j" "0 < jn_capacity j"
    using assms by (auto simp: journal_ok_def)
  show ?thesis
  proof (cases "length (jn_entries j) = jn_capacity j")
    case False
    then show ?thesis using o by (auto simp: journal_ok_def journal_push_def)
  next
    case True
    then obtain x xs where x: "jn_entries j = x # xs" using o(6) by (cases "jn_entries j") auto
    show ?thesis
      unfolding journal_ok_def
    proof (intro conjI exI [of _ "dropped @ [x]"])
      show "jn_truncated_through (journal_push d j) = 0 \<or>
          jn_truncated_through (journal_push d j) \<in> rd_lsn ` set (dropped @ [x])"
        using o(4) True x by (auto simp: journal_push_def max_def)
      show "\<forall>d' \<in> set (dropped @ [x]). rd_lsn d' \<le> jn_truncated_through (journal_push d j)"
        using o(3) True x by (auto simp: journal_push_def le_max_iff_disj)
    qed (use o True x in \<open>auto simp: journal_push_def\<close>)
  qed
qed

lemma journal_push_all_ok: "journal_ok hist j \<Longrightarrow> journal_ok (hist @ ds) (fold journal_push ds j)"
proof (induction ds arbitrary: hist j)
  case (Cons d ds)
  then show ?case using Cons.IH [OF journal_push_ok [OF Cons.prems, of d]] by simp
qed simp

section \<open>Mirror and journal agree\<close>

definition diff_sum :: "raw_diff list \<Rightarrow> table_id \<Rightarrow> row \<Rightarrow> int" where
  "diff_sum ds t r = (\<Sum>d\<leftarrow>ds. if rd_table d = Some t \<and> rd_row d = r then sint (rd_diff d) else 0)"

definition row_count :: "mirror \<Rightarrow> table_id \<Rightarrow> row \<Rightarrow> int" where
  "row_count m t r = int (count_list (mirror_rows m t) r)"

lemma diff_sum_simps [simp]:
  "diff_sum [] t r = 0"
  "diff_sum (d # ds) t r = (if rd_table d = Some t \<and> rd_row d = r then sint (rd_diff d) else 0) + diff_sum ds t r"
  "diff_sum (ds @ ds') t r = diff_sum ds t r + diff_sum ds' t r"
  by (simp_all add: diff_sum_def)

lemma diff_at_simps [simp]:
  "rd_table (diff_at t l r n) = Some t" "rd_row (diff_at t l r n) = r" "rd_lsn (diff_at t l r n) = l"
  "rd_diff (diff_at t l r n) = n"
  by (simp_all add: diff_at_def)

definition balanced :: "lsn \<Rightarrow> mirror \<Rightarrow> raw_diff list \<Rightarrow> mirror \<Rightarrow> bool" where
  "balanced l m ds m' \<longleftrightarrow> bt_invar m' \<and> (\<forall>d \<in> set ds. rd_lsn d = l)
     \<and> (\<forall>t r. row_count m' t r = row_count m t r + diff_sum ds t r)"

lemma balanced_refl: "bt_invar m \<Longrightarrow> balanced l m [] m"
  by (simp add: balanced_def)

lemma balanced_trans: "balanced l m ds m' \<Longrightarrow> balanced l m' ds' m'' \<Longrightarrow> balanced l m (ds @ ds') m''"
  by (auto simp: balanced_def)

text \<open>One table replaced.\<close>

lemma balanced_table:
  assumes "bt_invar m" and "\<forall>d \<in> set ds. rd_lsn d = l \<and> rd_table d = Some t"
    and "\<And>r. int (count_list rows r) = int (count_list (mirror_rows m t) r) + diff_sum ds t r"
  shows "balanced l m ds (bt_insert t rows m)"
proof -
  have "diff_sum ds u r = 0" if "u \<noteq> t" for u r
    using assms(2) that by (induction ds) auto
  then show ?thesis
    using assms by (auto simp: balanced_def row_count_def mirror_rows_def bt.get_put bt.invar_put)
qed

lemma fold_emits:
  assumes "P xs (m, j)" and "bt_invar m"
    and step: "\<And>x xs m j. P (x # xs) (m, j) \<Longrightarrow> bt_invar m \<Longrightarrow>
      \<exists>ds m'. f x (m, j) = (m', fold journal_push ds j) \<and> balanced l m ds m' \<and> P xs (f x (m, j))"
  shows "\<exists>ds m'. fold f xs (m, j) = (m', fold journal_push ds j) \<and> balanced l m ds m'"
  using assms(1, 2)
proof (induction xs arbitrary: m j)
  case Nil
  then show ?case using balanced_refl [of m l] by (metis fold_simps(1))
next
  case (Cons x xs)
  obtain ds m' where 1: "f x (m, j) = (m', fold journal_push ds j)" "balanced l m ds m'" "P xs (f x (m, j))"
    using step [OF Cons.prems] by blast
  then have "bt_invar m'" by (simp add: balanced_def)
  then obtain ds' m'' where 2: "fold f xs (m', fold journal_push ds j) = (m'', fold journal_push ds' (fold journal_push ds j))"
    "balanced l m' ds' m''"
    using Cons.IH [of m' "fold journal_push ds j"] 1 by auto
  then have "fold f (x # xs) (m, j) = (m'', fold journal_push (ds @ ds') j)" using 1 by simp
  then show ?case using balanced_trans [OF 1(2) 2(2)] by blast
qed

subsection \<open>Transactions\<close>

fun change_ok :: "mirror \<Rightarrow> change \<Rightarrow> bool" where
  "change_ok m (t, Insert, old, new) = True"
| "change_ok m (t, Update, old, new) =
     (case (old, new) of (Some old', Some _) \<Rightarrow> tuple_to_row old' None \<in> set (mirror_rows m t) | _ \<Rightarrow> True)"
| "change_ok m (t, Delete, old, new) =
     (case old of Some old' \<Rightarrow> tuple_to_row old' None \<in> set (mirror_rows m t) | None \<Rightarrow> True)"

fun changes_ok :: "lsn \<Rightarrow> change list \<Rightarrow> mirror \<times> journal \<Rightarrow> bool" where
  "changes_ok l [] mj = True"
| "changes_ok l (c # cs) mj = (change_ok (fst mj) c \<and> changes_ok l cs (apply_change l c mj))"

lemma row_position_Some:
  "r \<in> set xs \<Longrightarrow> \<exists>i ys zs. row_position r xs = Some i \<and> xs = ys @ r # zs \<and> i = length ys"
proof (induction xs)
  case (Cons x xs)
  show ?case
  proof (cases "x = r")
    case True
    then show ?thesis by auto
  next
    case False
    then obtain ys zs where "row_position r xs = Some (length ys)" "xs = ys @ r # zs" using Cons by auto
    then show ?thesis using False by (intro exI [of _ "Suc (length ys)"] exI [of _ "x # ys"] exI [of _ zs]) auto
  qed
qed simp

lemma count_list_butlast: "xs \<noteq> [] \<Longrightarrow> count_list (butlast xs) r = count_list xs r - (if last xs = r then 1 else 0)"
  by (induction xs rule: rev_induct) simp_all

lemma count_swap_remove:
  "count_list (swap_remove (length ys) (ys @ x # zs)) r = count_list ys r + count_list zs r"
  by (cases zs rule: rev_cases) (simp_all add: swap_remove_def butlast_append)

lemma emitsI:
  "balanced l m ds m' \<Longrightarrow> x = (m', fold journal_push ds j) \<Longrightarrow>
     \<exists>ds m'. x = (m', fold journal_push ds j) \<and> balanced l m ds m'"
  by blast

lemma apply_change_emits:
  assumes "bt_invar m" and "change_ok m ch"
  shows "\<exists>ds m'. apply_change l ch (m, j) = (m', fold journal_push ds j) \<and> balanced l m ds m'"
proof -
  obtain t op old new where ch: "ch = (t, op, old, new)" by (cases ch)
  have same: "balanced l m [] (bt_insert t (mirror_rows m t) m)"
    by (rule balanced_table) (use assms in auto)
  show ?thesis
  proof (cases op)
    case Insert
    show ?thesis
    proof (cases new)
      case None
      then show ?thesis by (intro emitsI [OF same]) (simp add: ch Insert)
    next
      case (Some n)
      have "balanced l m [diff_at t l (tuple_to_row n None) 1] (bt_insert t (mirror_rows m t @ [tuple_to_row n None]) m)"
        by (rule balanced_table) (use assms in auto)
      then show ?thesis by (rule emitsI) (simp add: ch Insert Some Let_def)
    qed
  next
    case Update
    show ?thesis
    proof (cases "old = None \<or> new = None")
      case True
      then show ?thesis by (intro emitsI [OF same]) (auto simp: ch Update split: option.splits)
    next
      case False
      then obtain old' n where on: "old = Some old'" "new = Some n" by auto
      define r where "r = tuple_to_row old' None"
      define r' where "r' = tuple_to_row n (Some r)"
      obtain ys zs where p: "row_position r (mirror_rows m t) = Some (length ys)" "mirror_rows m t = ys @ r # zs"
        using assms(2) row_position_Some [of r "mirror_rows m t"] by (auto simp: ch Update on r_def)
      have b: "balanced l m [diff_at t l r (- 1), diff_at t l r' 1] (bt_insert t (ys @ r' # zs) m)"
        by (rule balanced_table) (use assms p(2) in auto)
      have "apply_change l ch (m, j) = (bt_insert t ((mirror_rows m t)[length ys := r']) m,
          journal_push (diff_at t l r' 1) (journal_push (diff_at t l r (- 1)) j))"
        using p(1) by (simp add: ch Update on Let_def r_def r'_def)
      then show ?thesis by (intro emitsI [OF b]) (simp add: p(2))
    qed
  next
    case Delete
    show ?thesis
    proof (cases old)
      case None
      then show ?thesis by (intro emitsI [OF same]) (simp add: ch Delete)
    next
      case (Some old')
      define r where "r = tuple_to_row old' None"
      obtain ys zs where p: "row_position r (mirror_rows m t) = Some (length ys)" "mirror_rows m t = ys @ r # zs"
        using assms(2) row_position_Some [of r "mirror_rows m t"] by (auto simp: ch Delete Some r_def)
      have "balanced l m [diff_at t l r (- 1)] (bt_insert t (swap_remove (length ys) (mirror_rows m t)) m)"
        by (rule balanced_table) (use assms p(2) in \<open>auto simp: count_swap_remove\<close>)
      then show ?thesis by (rule emitsI) (simp add: ch Delete Some p(1) Let_def r_def [symmetric])
    qed
  qed
qed

lemma apply_changes_emit:
  assumes "bt_invar m" and "changes_ok l cs (m, j)"
  shows "\<exists>ds m'. fold (apply_change l) cs (m, j) = (m', fold journal_push ds j) \<and> balanced l m ds m'"
proof (rule fold_emits [where P = "\<lambda>cs mj. changes_ok l cs mj", OF assms(2, 1)])
  fix c cs m j assume "changes_ok l (c # cs) (m, j)" and "bt_invar m"
  then show "\<exists>ds m'. apply_change l c (m, j) = (m', fold journal_push ds j) \<and> balanced l m ds m'
      \<and> changes_ok l cs (apply_change l c (m, j))"
    using apply_change_emits [of m c l j] by auto
qed

subsection \<open>Truncation and reconciliation\<close>

lemma diff_sum_replicate:
  "diff_sum (replicate n (diff_at t l r v)) t r' = (if r = r' then int n * sint v else 0)"
  by (induction n) (auto simp: algebra_simps)

lemma diff_sum_truncate:
  "diff_sum (map (\<lambda>r. diff_at t l r (- 1)) rows) t r = - int (count_list rows r)"
  by (induction rows) auto

lemma fold_map_push: "fold (\<lambda>r. journal_push (g r)) rows j = fold journal_push (map g rows) j"
  by (induction rows arbitrary: j) auto

lemma truncate_emits:
  assumes "bt_invar m"
  shows "\<exists>ds m'. fold (truncate_table l) ts (m, j) = (m', fold journal_push ds j) \<and> balanced l m ds m'"
proof (rule fold_emits [where P = "\<lambda>_ _. True", OF TrueI assms])
  fix t and ts :: "table_id list" and m :: mirror and j :: journal assume "bt_invar m"
  then have "balanced l m (map (\<lambda>r. diff_at t l r (- 1)) (mirror_rows m t)) (bt_insert t [] m)"
    by (intro balanced_table) (auto simp: diff_sum_truncate)
  then show "\<exists>ds m'. truncate_table l t (m, j) = (m', fold journal_push ds j) \<and> balanced l m ds m' \<and> True"
    by (intro exI conjI TrueI) (simp_all add: truncate_table_def fold_map_push [of "\<lambda>r. diff_at t l r (- 1)"])
qed

lemma bt_insert_least: "\<forall>k' \<in> fst ` set m. k < k' \<Longrightarrow> bt_insert k v m = (k, v) # m"
  by (cases m) auto

lemma bt_remove_absent: "k \<notin> fst ` set m \<Longrightarrow> bt_remove k m = m"
  by (induction m) auto

lemma bt_insert_remove: "bt_invar m \<Longrightarrow> bt_insert k v (bt_remove k m) = bt_insert k v m"
proof (induction m)
  case (Cons kv m)
  obtain k' v' where kv: "kv = (k', v')" by (cases kv)
  consider "k < k'" | "k = k'" | "k' < k" by (rule linorder_cases)
  then show ?case
  proof cases
    case 1
    then have "k \<notin> fst ` set (kv # m)" using Cons.prems kv by auto
    then show ?thesis by (metis bt_remove_absent)
  next
    case 2
    then show ?thesis using Cons.prems by (simp add: kv bt_insert_least)
  next
    case 3
    then show ?thesis using Cons by (auto simp: kv)
  qed
qed simp

definition count_in :: "(row \<times> i64) list \<Rightarrow> row \<Rightarrow> i64" where
  "count_in cs r = (case map_of cs r of None \<Rightarrow> 0 | Some n \<Rightarrow> n)"

lemma count_in_bump: "count_in (bump v r cs) r' = count_in cs r' + (if r' = r then v else 0)"
  by (induction v r cs rule: bump.induct) (auto simp: count_in_def)

lemma count_in_bumps: "count_in (fold (bump v) rows cs) r = count_in cs r + of_nat (count_list rows r) * v"
  by (induction rows arbitrary: cs) (auto simp: count_in_bump algebra_simps)

lemma fst_bump: "fst ` set (bump v r cs) = insert r (fst ` set cs)"
  by (induction v r cs rule: bump.induct) auto

lemma distinct_bump: "distinct (map fst cs) \<Longrightarrow> distinct (map fst (bump v r cs))"
proof (induction v r cs rule: bump.induct)
  case (2 v r r' n cs)
  then show ?case using fst_bump [of v r cs] by (auto simp: image_iff)
qed simp

lemma distinct_bumps: "distinct (map fst cs) \<Longrightarrow> distinct (map fst (fold (bump v) rows cs))"
  by (induction rows arbitrary: cs) (auto simp: distinct_bump)

lemma count_in_row_counts:
  assumes "length new_rows < 2 ^ 63" and "length old_rows < 2 ^ 63"
  shows "sint (count_in (row_counts new_rows old_rows) r) = int (count_list new_rows r) - int (count_list old_rows r)"
proof -
  have "count_list new_rows r < 2 ^ 63" "count_list old_rows r < 2 ^ 63"
    using assms count_le_length [of new_rows r] count_le_length [of old_rows r] by linarith+
  then have "sint (word_of_int (int (count_list new_rows r) - int (count_list old_rows r)) :: i64)
      = int (count_list new_rows r) - int (count_list old_rows r)"
    unfolding sint_sbintrunc' by (intro signed_take_bit_int_eq_self) simp_all
  moreover have "count_in (row_counts new_rows old_rows) r
      = word_of_int (int (count_list new_rows r) - int (count_list old_rows r))"
    by (simp add: row_counts_def count_in_bumps count_in_def [of "[]"])
  ultimately show ?thesis by simp
qed

lemma diff_sum_count_diffs: "diff_sum (count_diffs t l rc) t r = (if fst rc = r then sint (snd rc) else 0)"
  by (auto simp: count_diffs_def diff_sum_replicate)

lemma diff_sum_counts:
  "distinct (map fst cs) \<Longrightarrow> diff_sum (concat (map (count_diffs t l) cs)) t r = sint (count_in cs r)"
proof (induction cs)
  case (Cons rc cs)
  have "map_of cs (fst rc) = None" using Cons.prems by (simp add: map_of_eq_None_iff)
  then have "sint (count_in (rc # cs) r) = (if fst rc = r then sint (snd rc) else 0) + sint (count_in cs r)"
    by (cases rc) (auto simp: count_in_def)
  then show ?case using Cons by (simp add: diff_sum_count_diffs)
qed (simp add: count_in_def)

definition hash_order :: "((row \<times> i64) list \<Rightarrow> (row \<times> i64) list) \<Rightarrow> bool" where
  "hash_order order \<longleftrightarrow> (\<forall>cs. mset (order cs) = mset cs)"

lemma count_in_order:
  assumes "hash_order order" and "distinct (map fst cs)"
  shows "distinct (map fst (order cs))" and "count_in (order cs) = count_in cs"
proof -
  have m: "mset (order cs) = mset cs" using assms(1) by (simp add: hash_order_def)
  then have "mset (map fst (order cs)) = mset (map fst cs)" by simp
  then have "distinct (map fst (order cs)) = distinct (map fst cs)" by (rule mset_eq_imp_distinct_iff)
  then show d: "distinct (map fst (order cs))" using assms(2) by simp
  have "set (order cs) = set cs" using m by (rule mset_eq_setD)
  then have "map_of (order cs) = map_of cs" using map_of_inject_set [OF d assms(2)] by simp
  then show "count_in (order cs) = count_in cs" by (simp add: count_in_def fun_eq_iff)
qed

definition rows_fit :: "mirror \<Rightarrow> bool" where
  "rows_fit m \<longleftrightarrow> (\<forall>(t, rows) \<in> set m. length rows < 2 ^ 63)"

lemma rows_fit_mirror_rows: "rows_fit m \<Longrightarrow> length (mirror_rows m t) < 2 ^ 63"
  by (auto simp: rows_fit_def mirror_rows_def split: option.splits dest!: map_of_SomeD)

lemma rows_fit_insert: "rows_fit m \<Longrightarrow> length rows < 2 ^ 63 \<Longrightarrow> rows_fit (bt_insert t rows m)"
  by (induction t rows m rule: bt_insert.induct) (auto simp: rows_fit_def)

lemma reconcile_table_emits:
  assumes "hash_order order" and "rows_fit fresh" and "rows_fit m" and "bt_invar m"
  shows "\<exists>ds m'. reconcile_table order l fresh t (m, j) = (m', fold journal_push ds j)
    \<and> balanced l m ds m' \<and> rows_fit m'"
proof -
  define cs where "cs = order (row_counts (mirror_rows fresh t) (mirror_rows m t))"
  define ds where "ds = concat (map (count_diffs t l) cs)"
  have "distinct (map fst (row_counts (mirror_rows fresh t) (mirror_rows m t)))"
    by (simp add: row_counts_def distinct_bumps)
  then have cs: "distinct (map fst cs)"
    "count_in cs = count_in (row_counts (mirror_rows fresh t) (mirror_rows m t))"
    using count_in_order [OF assms(1)] by (simp_all add: cs_def)
  have "diff_sum ds t r = int (count_list (mirror_rows fresh t) r) - int (count_list (mirror_rows m t) r)" for r
    by (simp add: ds_def diff_sum_counts cs count_in_row_counts
        [OF rows_fit_mirror_rows [OF assms(2)] rows_fit_mirror_rows [OF assms(3)]])
  moreover have "\<forall>d \<in> set ds. rd_lsn d = l \<and> rd_table d = Some t"
    by (auto simp: ds_def count_diffs_def)
  ultimately have "balanced l m ds (bt_insert t (mirror_rows fresh t) m)"
    using assms(4) by (intro balanced_table) simp_all
  moreover have "reconcile_table order l fresh t (m, j)
      = (bt_insert t (mirror_rows fresh t) m, fold journal_push ds j)"
    by (simp add: reconcile_table_def Let_def cs_def ds_def bt_insert_remove assms(4))
  ultimately show ?thesis
    using rows_fit_insert [OF assms(3) rows_fit_mirror_rows [OF assms(2), of t], of t] by blast
qed

lemma reconcile_emits:
  assumes "hash_order order" and "rows_fit fresh" and "rows_fit m" and "bt_invar m"
  shows "\<exists>ds m'. fold (reconcile_table order l fresh) ts (m, j) = (m', fold journal_push ds j) \<and> balanced l m ds m'"
proof (rule fold_emits [where P = "\<lambda>_ mj. rows_fit (fst mj)", OF _ assms(4)])
  fix t and ts :: "table_id list" and m :: mirror and j :: journal
  assume "rows_fit (fst (m, j))" and "bt_invar m"
  then show "\<exists>ds m'. reconcile_table order l fresh t (m, j) = (m', fold journal_push ds j) \<and> balanced l m ds m'
      \<and> rows_fit (fst (reconcile_table order l fresh t (m, j)))"
    using reconcile_table_emits [OF assms(1, 2), of m l t j] by auto
qed (use assms in simp)

section \<open>Runs of the runtime\<close>

datatype runtime_op = ROTransaction u64 "change list" | ROTruncate u64 "table_id list" | ROReconcile u64 mirror

fun run_op :: "((row \<times> i64) list \<Rightarrow> (row \<times> i64) list) \<Rightarrow> runtime_op \<Rightarrow> shared_state \<Rightarrow> shared_state" where
  "run_op order (ROTransaction l cs) s = apply_transaction l cs s"
| "run_op order (ROTruncate l ts) s = apply_truncate l ts s"
| "run_op order (ROReconcile l fresh) s = reconcile_snapshot order l fresh s"

fun op_lsn :: "runtime_op \<Rightarrow> u64" where
  "op_lsn (ROTransaction l cs) = l"
| "op_lsn (ROTruncate l ts) = l"
| "op_lsn (ROReconcile l fresh) = l"

fun op_ok :: "shared_state \<Rightarrow> runtime_op \<Rightarrow> bool" where
  "op_ok s (ROTransaction l cs) = changes_ok l cs (ss_mirror s, ss_journal s)"
| "op_ok s (ROTruncate l ts) = True"
| "op_ok s (ROReconcile l fresh) = (rows_fit fresh \<and> rows_fit (ss_mirror s))"

fun run_ops :: "((row \<times> i64) list \<Rightarrow> (row \<times> i64) list) \<Rightarrow> runtime_op list \<Rightarrow> shared_state \<Rightarrow> shared_state" where
  "run_ops order [] s = s"
| "run_ops order (p # ps) s = run_ops order ps (run_op order p s)"

text \<open>The operations change rows the mirror holds, in the order of their LSNs, and after the LSN \<open>l0\<close>.\<close>

fun ops_ok :: "((row \<times> i64) list \<Rightarrow> (row \<times> i64) list) \<Rightarrow> lsn \<Rightarrow> runtime_op list \<Rightarrow> shared_state \<Rightarrow> bool" where
  "ops_ok order l0 [] s = True"
| "ops_ok order l0 (p # ps) s = (op_ok s p \<and> ss_clock s \<le> op_lsn p \<and> l0 < op_lsn p \<and> ops_ok order l0 ps (run_op order p s))"

definition same_tables :: "shared_state \<Rightarrow> shared_state \<Rightarrow> bool" where
  "same_tables s s' \<longleftrightarrow> ss_tables_by_name s' = ss_tables_by_name s \<and> ss_names_by_id s' = ss_names_by_id s
     \<and> ss_failed s' = ss_failed s"

lemma run_op_emits:
  assumes "hash_order order" and "bt_invar (ss_mirror s)" and "op_ok s p" and "ss_clock s \<le> op_lsn p"
  shows "\<exists>ds. ss_journal (run_op order p s) = fold journal_push ds (ss_journal s)
    \<and> balanced (op_lsn p) (ss_mirror s) ds (ss_mirror (run_op order p s))
    \<and> (ds \<noteq> [] \<longrightarrow> ss_clock (run_op order p s) = op_lsn p)
    \<and> ss_clock s \<le> ss_clock (run_op order p s)
    \<and> same_tables s (run_op order p s)"
proof (cases p)
  case (ROTransaction l cs)
  show ?thesis
  proof (cases "cs = []")
    case True
    then show ?thesis using balanced_refl [OF assms(2)]
      by (intro exI [of _ "[]"]) (simp add: ROTransaction apply_transaction_def same_tables_def)
  next
    case False
    obtain ds m' where "fold (apply_change l) cs (ss_mirror s, ss_journal s) = (m', fold journal_push ds (ss_journal s))"
      "balanced l (ss_mirror s) ds m'"
      using apply_changes_emit [of "ss_mirror s" l cs "ss_journal s"] assms by (auto simp: ROTransaction)
    then show ?thesis using False assms(4)
      by (intro exI [of _ ds]) (simp add: ROTransaction apply_transaction_def apply_changes_locked_def
          store_clock_def same_tables_def)
  qed
next
  case (ROTruncate l ts)
  obtain ds m' where "fold (truncate_table l) ts (ss_mirror s, ss_journal s) = (m', fold journal_push ds (ss_journal s))"
    "balanced l (ss_mirror s) ds m'"
    using truncate_emits [OF assms(2), of l ts "ss_journal s"] by auto
  then show ?thesis using assms(4)
    by (intro exI [of _ ds]) (simp add: ROTruncate apply_truncate_def store_clock_def same_tables_def)
next
  case (ROReconcile l fresh)
  obtain ds m' where "fold (reconcile_table order l fresh) (map fst (ss_names_by_id s)) (ss_mirror s, ss_journal s)
      = (m', fold journal_push ds (ss_journal s))" "balanced l (ss_mirror s) ds m'"
    using reconcile_emits [OF assms(1), of fresh "ss_mirror s" l "map fst (ss_names_by_id s)" "ss_journal s"] assms
    by (auto simp: ROReconcile)
  then show ?thesis using assms(4)
    by (intro exI [of _ ds]) (simp add: ROReconcile reconcile_snapshot_def store_clock_def same_tables_def)
qed

lemma run_ops_emit:
  assumes "hash_order order" and "bt_invar (ss_mirror s)" and "ops_ok order l0 ps s"
  shows "\<exists>ds. ss_journal (run_ops order ps s) = fold journal_push ds (ss_journal s)
    \<and> sorted (map rd_lsn ds)
    \<and> (\<forall>d \<in> set ds. l0 < rd_lsn d \<and> ss_clock s \<le> rd_lsn d \<and> rd_lsn d \<le> ss_clock (run_ops order ps s))
    \<and> (\<forall>t r. row_count (ss_mirror (run_ops order ps s)) t r = row_count (ss_mirror s) t r + diff_sum ds t r)
    \<and> bt_invar (ss_mirror (run_ops order ps s)) \<and> ss_clock s \<le> ss_clock (run_ops order ps s)
    \<and> same_tables s (run_ops order ps s)"
  using assms(2, 3)
proof (induction ps arbitrary: s)
  case Nil
  then show ?case by (intro exI [of _ "[]"]) (simp add: same_tables_def)
next
  case (Cons p ps)
  obtain ds where ds: "ss_journal (run_op order p s) = fold journal_push ds (ss_journal s)"
    "balanced (op_lsn p) (ss_mirror s) ds (ss_mirror (run_op order p s))"
    "ds \<noteq> [] \<longrightarrow> ss_clock (run_op order p s) = op_lsn p"
    "ss_clock s \<le> ss_clock (run_op order p s)" "same_tables s (run_op order p s)"
    using run_op_emits [OF assms(1) Cons.prems(1), of p] Cons.prems(2) by auto
  then have "bt_invar (ss_mirror (run_op order p s))" by (simp add: balanced_def)
  then obtain ds' where ds': "ss_journal (run_ops order (p # ps) s) = fold journal_push ds' (ss_journal (run_op order p s))"
    "sorted (map rd_lsn ds')"
    "\<forall>d \<in> set ds'. l0 < rd_lsn d \<and> ss_clock (run_op order p s) \<le> rd_lsn d \<and> rd_lsn d \<le> ss_clock (run_ops order (p # ps) s)"
    "\<forall>t r. row_count (ss_mirror (run_ops order (p # ps) s)) t r = row_count (ss_mirror (run_op order p s)) t r + diff_sum ds' t r"
    "bt_invar (ss_mirror (run_ops order (p # ps) s))"
    "ss_clock (run_op order p s) \<le> ss_clock (run_ops order (p # ps) s)"
    "same_tables (run_op order p s) (run_ops order (p # ps) s)"
    using Cons.IH [of "run_op order p s"] Cons.prems(2) by auto
  have lsns: "\<forall>d \<in> set ds. rd_lsn d = op_lsn p" using ds(2) by (simp add: balanced_def)
  show ?case
  proof (intro exI [of _ "ds @ ds'"] conjI)
    have "\<forall>d \<in> set ds. \<forall>d' \<in> set ds'. rd_lsn d \<le> rd_lsn d'"
      using lsns ds(3) ds'(3) by (cases ds) auto
    moreover have "sorted (map rd_lsn ds)"
      using lsns by (induction ds) auto
    ultimately show "sorted (map rd_lsn (ds @ ds'))" using ds'(2) by (auto simp: sorted_append)
    show "\<forall>d \<in> set (ds @ ds'). l0 < rd_lsn d \<and> ss_clock s \<le> rd_lsn d \<and> rd_lsn d \<le> ss_clock (run_ops order (p # ps) s)"
      using lsns ds(3, 4) ds'(3, 6) Cons.prems(2) by (cases ds) (auto intro: order_trans)
    show "\<forall>t r. row_count (ss_mirror (run_ops order (p # ps) s)) t r = row_count (ss_mirror s) t r + diff_sum (ds @ ds') t r"
      using ds(2) ds'(4) by (simp add: balanced_def)
    show "ss_clock s \<le> ss_clock (run_ops order (p # ps) s)" using ds(4) ds'(6) by (rule order_trans)
    show "same_tables s (run_ops order (p # ps) s)" using ds(5) ds'(7) by (simp add: same_tables_def)
  qed (use ds ds' in simp_all)
qed

definition runtime_inv :: "shared_state \<Rightarrow> bool" where
  "runtime_inv s \<longleftrightarrow> bt_invar (ss_mirror s) \<and> (\<exists>hist. journal_ok hist (ss_journal s)
     \<and> sorted (map rd_lsn hist) \<and> (\<forall>d \<in> set hist. rd_lsn d \<le> ss_clock s))"

lemma runtime_inv_start:
  "runtime_inv (from_tables ts cap)" "bt_invar rows \<Longrightarrow> runtime_inv (seed_snapshot l rows (from_tables ts cap))"
  using journal_new_ok [of cap]
  by (auto simp: runtime_inv_def from_tables_def seed_snapshot_def Let_def intro: exI [of _ "[]"])


section \<open>Cursors\<close>

definition cursor_pending :: "journal \<times> journal_cursor \<Rightarrow> raw_diff list" where
  "cursor_pending jc = (case jc of (j, c) \<Rightarrow>
     if jc_poisoned c \<or> jc_next_seq c < jn_base_seq j then []
     else filter (relevant c) (drop (jc_next_seq c - jn_base_seq j) (jn_entries j)))"

lemma relevant_next_seq [simp]: "relevant (c\<lparr>jc_next_seq := n\<rparr>) = relevant c"
  by (auto simp: relevant_def fun_eq_iff split: option.splits)

lemma cursor_scan_None: "filter rel es = [] \<Longrightarrow> cursor_scan rel es n = (None, n + length es)"
  by (induction es arbitrary: n) (auto split: if_splits)

lemma cursor_scan_Some:
  "filter rel es = d # ds \<Longrightarrow> \<exists>k. k < length es \<and> cursor_scan rel es n = (Some d, n + Suc k)
     \<and> filter rel (drop (Suc k) es) = ds"
proof (induction es arbitrary: n)
  case (Cons e es)
  show ?case
  proof (cases "rel e")
    case True
    then show ?thesis using Cons.prems by (intro exI [of _ 0]) simp
  next
    case False
    then obtain k where "k < length es" "cursor_scan rel es (Suc n) = (Some d, Suc n + Suc k)"
      "filter rel (drop (Suc k) es) = ds"
      using Cons.IH [of "Suc n"] Cons.prems by auto
    then show ?thesis using False by (intro exI [of _ "Suc k"]) simp
  qed
qed simp

interpretation jcur: trace_cursor journal_next_diff journal_peek_lsn cursor_pending "\<lambda>_. True"
proof
  fix jc :: "journal \<times> journal_cursor" and d ds
  obtain j c where jc: "jc = (j, c)" by (cases jc)
  let ?es = "drop (jc_next_seq c - jn_base_seq j) (jn_entries j)"
  let ?live = "\<not> jc_poisoned c \<and> jn_base_seq j \<le> jc_next_seq c"
  have pend: "cursor_pending jc = (if ?live then filter (relevant c) ?es else [])"
    by (auto simp: jc cursor_pending_def)
  have dead: "fst (journal_next_diff jc) = None \<and> cursor_pending (snd (journal_next_diff jc)) = []" if "\<not> ?live"
    using that by (auto simp: jc journal_next_diff_def cursor_pending_def)
  have live: "journal_next_diff jc = (fst (cursor_scan (relevant c) ?es (jc_next_seq c)), j,
      c\<lparr>jc_next_seq := snd (cursor_scan (relevant c) ?es (jc_next_seq c))\<rparr>)" if ?live
    using that by (simp add: jc journal_next_diff_def Let_def)
  have find: "find P xs = (case filter P xs of [] \<Rightarrow> None | x # _ \<Rightarrow> Some x)" for P :: "raw_diff \<Rightarrow> bool" and xs
    by (induction xs) auto
  show "journal_peek_lsn jc = (case cursor_pending jc of [] \<Rightarrow> None | d # _ \<Rightarrow> Some (rd_lsn d))"
    by (auto simp: jc journal_peek_lsn_def cursor_pending_def find split: list.splits)
  show "fst (journal_next_diff jc) = None \<and> cursor_pending (snd (journal_next_diff jc)) = []" if "cursor_pending jc = []"
  proof (cases ?live)
    case True
    then have "cursor_scan (relevant c) ?es (jc_next_seq c) = (None, jc_next_seq c + length ?es)"
      using that pend by (intro cursor_scan_None) simp
    then show ?thesis using True by (simp add: live cursor_pending_def)
  qed (rule dead)
  show "fst (journal_next_diff jc) = Some d \<and> cursor_pending (snd (journal_next_diff jc)) = ds"
    if "cursor_pending jc = d # ds"
  proof -
    have l: ?live using that pend by (metis list.distinct(1))
    with that pend have "filter (relevant c) ?es = d # ds" by simp
    from cursor_scan_Some [OF this, of "jc_next_seq c"]
    obtain k where k: "cursor_scan (relevant c) ?es (jc_next_seq c) = (Some d, jc_next_seq c + Suc k)"
      "filter (relevant c) (drop (Suc k) ?es) = ds" by blast
    have "drop (jc_next_seq c + Suc k - jn_base_seq j) (jn_entries j) = drop (Suc k) ?es"
    proof -
      have "jc_next_seq c + Suc k - jn_base_seq j = Suc k + (jc_next_seq c - jn_base_seq j)" using l by linarith
      then show ?thesis by (simp only: drop_drop)
    qed
    then show ?thesis using l k by (simp add: live cursor_pending_def del: drop_drop)
  qed
qed simp

lemma fetch_snapshot_Ok:
  assumes "fetch_snapshot lower s s' q = Ok snap"
  obtains ts where "ss_failed s = None" "query_tables lower s q = Ok ts" "sb_snapshot_lsn snap = ss_clock s'"
    "sb_rows snap = map (\<lambda>t. \<lparr>st_table = it_id t, st_rows = mirror_rows (ss_mirror s) (it_id t)\<rparr>) ts"
  using assms by (auto simp: fetch_snapshot_def check_failed_def rbind_eq_Ok split: option.splits)

lemma open_cursor_Ok:
  assumes "open_cursor lower s q l = Ok c"
  obtains ts where "ss_failed s = None" "query_tables lower s q = Ok ts" "jn_truncated_through (ss_journal s) \<le> l"
    "c = \<lparr>jc_next_seq = jn_base_seq (ss_journal s), jc_from_lsn = l, jc_tables = map it_id ts, jc_poisoned = False\<rparr>"
  using assms by (auto simp: open_cursor_def check_failed_def rbind_eq_Ok not_less split: option.splits if_splits)

lemma open_cursor_pending:
  assumes "journal_ok hist (ss_journal s)" and "open_cursor lower s q l = Ok c"
  shows "cursor_pending (ss_journal s, c) = filter (relevant c) hist"
proof -
  obtain dropped where d: "hist = dropped @ jn_entries (ss_journal s)"
    "\<forall>e \<in> set dropped. rd_lsn e \<le> jn_truncated_through (ss_journal s)"
    using assms(1) by (auto simp: journal_ok_def)
  obtain ts where "ss_failed s = None" "query_tables lower s q = Ok ts" and c: "jn_truncated_through (ss_journal s) \<le> l"
    "c = \<lparr>jc_next_seq = jn_base_seq (ss_journal s), jc_from_lsn = l, jc_tables = map it_id ts, jc_poisoned = False\<rparr>"
    by (rule open_cursor_Ok [OF assms(2)])
  have "\<forall>e \<in> set dropped. rd_lsn e \<le> l" using d(2) c(1) by (auto intro: order_trans)
  then have "filter (relevant c) dropped = []"
    by (auto simp: filter_empty_conv relevant_def c(2))
  then show ?thesis by (simp add: d(1) cursor_pending_def) (simp add: c(2))
qed

lemma diff_sum_relevant:
  assumes "\<forall>d \<in> set ds. jc_from_lsn c < rd_lsn d" and "t \<in> set (jc_tables c)"
  shows "diff_sum (filter (relevant c) ds) t r = diff_sum ds t r"
  using assms by (induction ds) (auto simp: relevant_def split: option.splits)

text \<open>C2: A subscriber that takes a snapshot at rest and later opens a cursor at the snapshot's LSN
  receives, in batches of strictly increasing LSN, exactly the diffs that lead from the snapshot
  to the current mirror: for every table of the query and every row, the copies in the snapshot
  plus the batched diffs are the copies in the mirror.\<close>

theorem snapshot_then_cursor:
  assumes "hash_order order" and "runtime_inv s" and "ops_ok order (ss_clock s) ps s"
    and "fetch_snapshot lower s s q = Ok snap"
    and "open_cursor lower (run_ops order ps s) q (sb_snapshot_lsn snap) = Ok c"
  shows "\<exists>batches c'. batch_by_lsn journal_next_diff journal_peek_lsn (ss_journal (run_ops order ps s), c) = Some (Ok batches, c')
    \<and> sorted_wrt (<) (map lb_lsn batches)
    \<and> (\<forall>st \<in> set (sb_rows snap). \<forall>r. int (count_list (st_rows st) r) + diff_sum (concat (map lb_diffs batches)) (st_table st) r
         = row_count (ss_mirror (run_ops order ps s)) (st_table st) r)"
proof -
  define s' where "s' = run_ops order ps s"
  obtain hist where h: "journal_ok hist (ss_journal s)" "\<forall>d \<in> set hist. rd_lsn d \<le> ss_clock s"
    and m: "bt_invar (ss_mirror s)"
    using assms(2) by (auto simp: runtime_inv_def)
  obtain ds where ds: "ss_journal s' = fold journal_push ds (ss_journal s)" "sorted (map rd_lsn ds)"
    "\<forall>d \<in> set ds. ss_clock s < rd_lsn d"
    "\<forall>t r. row_count (ss_mirror s') t r = row_count (ss_mirror s) t r + diff_sum ds t r" "same_tables s s'"
    using run_ops_emit [OF assms(1) m assms(3)] unfolding s'_def by blast
  obtain ts where "ss_failed s = None" and snap: "query_tables lower s q = Ok ts" "sb_snapshot_lsn snap = ss_clock s"
    "sb_rows snap = map (\<lambda>t. \<lparr>st_table = it_id t, st_rows = mirror_rows (ss_mirror s) (it_id t)\<rparr>) ts"
    by (rule fetch_snapshot_Ok [OF assms(4)])
  obtain ts' where c': "ss_failed s' = None" "query_tables lower s' q = Ok ts'"
    "jn_truncated_through (ss_journal s') \<le> sb_snapshot_lsn snap"
    "c = \<lparr>jc_next_seq = jn_base_seq (ss_journal s'), jc_from_lsn = sb_snapshot_lsn snap, jc_tables = map it_id ts', jc_poisoned = False\<rparr>"
    by (rule open_cursor_Ok [OF assms(5) [folded s'_def]])
  have c: "query_tables lower s' q = Ok ts'" "jc_from_lsn c = ss_clock s" "jc_tables c = map it_id ts'"
    using c' snap(2) by simp_all
  have "ts' = ts" using c(1) snap(1) ds(5) by (simp add: query_tables_def same_tables_def)
  have old: "filter (relevant c) hist = []" using h(2) by (auto simp: filter_empty_conv relevant_def c(2))
  have "journal_ok (hist @ ds) (ss_journal s')" using journal_push_all_ok [OF h(1), of ds] ds(1) by simp
  then have pending: "cursor_pending (ss_journal s', c) = filter (relevant c) ds"
    using open_cursor_pending [of "hist @ ds" s'] assms(5) old unfolding s'_def [symmetric] by simp
  have sorted: "sorted (map rd_lsn (cursor_pending (ss_journal s', c)))"
    using ds(2) by (simp add: pending sorted_filter)
  obtain c' where b: "batch_by_lsn journal_next_diff journal_peek_lsn (ss_journal s', c)
      = Some (Ok (lsn_groups (cursor_pending (ss_journal s', c))), c')"
    using jcur.batch_by_lsn_spec [of "(ss_journal s', c)"] sorted by auto
  have "int (count_list (st_rows st) r) + diff_sum (cursor_pending (ss_journal s', c)) (st_table st) r
      = row_count (ss_mirror s') (st_table st) r" if st: "st \<in> set (sb_rows snap)" for st r
  proof -
    obtain t where "t \<in> set ts" "st = \<lparr>st_table = it_id t, st_rows = mirror_rows (ss_mirror s) (it_id t)\<rparr>"
      using st snap(3) by auto
    then show ?thesis
      using ds(3, 4) c(2, 3) \<open>ts' = ts\<close> by (simp add: pending diff_sum_relevant row_count_def)
  qed
  then show ?thesis
    using b lsn_groups_increasing [OF sorted] unfolding s'_def [symmetric]
    by (intro exI [of _ "lsn_groups (cursor_pending (ss_journal s', c))"] exI [of _ c']) (simp add: concat_lsn_groups)
qed

lemma cursor_scan_cases:
  "(\<exists>skipped e rest. es = skipped @ e # rest \<and> filter rel skipped = [] \<and> rel e
       \<and> cursor_scan rel es n = (Some e, n + length skipped + 1))
   \<or> (filter rel es = [] \<and> cursor_scan rel es n = (None, n + length es))"
proof (induction es arbitrary: n)
  case (Cons x es)
  show ?case
  proof (cases "rel x")
    case True
    then show ?thesis by (intro disjI1 exI [of _ "[]"] exI [of _ x] exI [of _ es]) simp
  next
    case False
    with Cons.IH [of "Suc n"] show ?thesis
    proof (elim disjE exE conjE)
      fix skipped e rest
      assume "es = skipped @ e # rest" "filter rel skipped = []" "rel e"
        "cursor_scan rel es (Suc n) = (Some e, Suc n + length skipped + 1)"
      then show ?thesis using False
        by (intro disjI1 exI [of _ "x # skipped"] exI [of _ e] exI [of _ rest]) simp
    qed (simp add: False)
  qed
qed simp

text \<open>C15: A live cursor never skips an entry of the journal's history: the diff it yields is the
  first relevant one at or after its position, it reports nothing only when nothing relevant is
  left, and when entries it has not read were dropped it stops for good instead of serving a gap.\<close>

theorem cursor_never_skips:
  assumes "journal_ok hist j" and "\<not> jc_poisoned c" and "jc_next_seq c \<le> length hist"
    and "journal_next_diff (j, c) = (r, j', c')"
  shows "case r of
      Some e \<Rightarrow> relevant c e \<and> \<not> jc_poisoned c' \<and> (\<exists>skipped rest. drop (jc_next_seq c) hist = skipped @ e # rest
          \<and> filter (relevant c) skipped = [] \<and> drop (jc_next_seq c') hist = rest)
    | None \<Rightarrow> if jc_next_seq c < jn_base_seq j then jc_poisoned c'
        else \<not> jc_poisoned c' \<and> filter (relevant c) (drop (jc_next_seq c) hist) = [] \<and> jc_next_seq c' = length hist"
proof (cases "jc_next_seq c < jn_base_seq j")
  case True
  then show ?thesis using assms(2, 4) by (auto simp: journal_next_diff_def)
next
  case False
  obtain dropped where d: "hist = dropped @ jn_entries j" "jn_base_seq j = length dropped"
    using assms(1) by (auto simp: journal_ok_def)
  define es where "es = drop (jc_next_seq c) hist"
  have len: "jc_next_seq c + length es = length hist" using assms(3) by (simp add: es_def)
  have "drop (jc_next_seq c - jn_base_seq j) (jn_entries j) = es" using False d by (simp add: es_def)
  then have r: "r = fst (cursor_scan (relevant c) es (jc_next_seq c))"
    "c' = c\<lparr>jc_next_seq := snd (cursor_scan (relevant c) es (jc_next_seq c))\<rparr>"
    using assms(2, 4) False by (auto simp: journal_next_diff_def Let_def)
  from cursor_scan_cases [of es "relevant c" "jc_next_seq c"] show ?thesis
  proof (elim disjE exE conjE)
    fix skipped e rest
    assume "es = skipped @ e # rest" "filter (relevant c) skipped = []" "relevant c e"
      "cursor_scan (relevant c) es (jc_next_seq c) = (Some e, jc_next_seq c + length skipped + 1)"
    moreover have "drop (jc_next_seq c + length skipped + 1) hist = drop (length skipped + 1) es"
      by (simp add: es_def add.commute)
    ultimately show ?thesis using r assms(2) by (auto simp: es_def [symmetric])
  next
    assume "filter (relevant c) es = []" "cursor_scan (relevant c) es (jc_next_seq c) = (None, jc_next_seq c + length es)"
    then show ?thesis using r assms(2) False len by (simp add: es_def)
  qed
qed

section \<open>The frame loop applies whole transactions\<close>

fun run_events ::
    "snapshot_fence \<Rightarrow> decoded_event list \<Rightarrow> shared_state \<times> catalog \<times> pending_transaction option
       \<Rightarrow> shared_state \<times> catalog \<times> pending_transaction option" where
  "run_events fence [] st = st"
| "run_events fence (e # es) st = run_events fence es (snd (apply_event e fence st))"

fun row_event :: "change \<Rightarrow> decoded_event" where
  "row_event (t, op, old, new) = EvRow t op old new"

abbreviation known_changes :: "shared_state \<Rightarrow> change list \<Rightarrow> change list" where
  "known_changes s \<equiv> filter (\<lambda>ch. table_by_id s (fst ch) \<noteq> None)"

lemma run_rows:
  "run_events fence (map row_event changes) (s, cat, Some p)
     = (s, cat, Some (p\<lparr>pt_changes := pt_changes p @ known_changes s changes\<rparr>))"
proof (induction changes arbitrary: p)
  case (Cons ch changes)
  then show ?case by (cases ch) simp
qed simp


lemma low_word: "(ucast (of_nat n :: u64) :: u32) = of_nat n"
  by (simp add: unsigned_of_nat word_of_nat_eq_iff)

lemma low_word_eq:
  assumes "int p < int x + 2 ^ 32" and "int x < int p + 2 ^ 32"
  shows "(of_nat p :: u32) = of_nat x \<longleftrightarrow> p = x"
proof
  assume "(of_nat p :: u32) = of_nat x"
  then have "p mod 4294967296 = x mod 4294967296" by (simp add: word_of_nat_eq_iff take_bit_eq_mod)
  then have "int (p mod 4294967296) = int (x mod 4294967296)" by (rule arg_cong)
  then have "int p mod 4294967296 = int x mod 4294967296" by (simp add: zmod_int)
  then have "(4294967296::int) dvd int p - int x" by (simp add: mod_eq_dvd_iff)
  then obtain k where k: "int p - int x = 4294967296 * k" by (auto elim: dvdE)
  then have "k = 0" using assms by simp
  then show "p = x" using k by simp
qed simp

lemma xid_distance:
  assumes "int x < int xmax + 2 ^ 31" and "int xmax \<le> int x + 2 ^ 31"
  shows "sint (of_nat x - of_nat xmax :: u32) = int x - int xmax"
proof -
  have "(of_nat x - of_nat xmax :: u32) = word_of_int (int x - int xmax)" by simp
  then show ?thesis
    unfolding sint_sbintrunc' using assms by (simp only: sint_sbintrunc') (intro signed_take_bit_int_eq_self, simp_all)
qed

text \<open>C36: Transaction ids are compared modulo wrap-around: for full ids within half the 32-bit range
  of the snapshot's horizon, a transaction counts as already in the snapshot exactly when its id
  precedes the horizon and it was not in progress.\<close>

theorem already_in_snapshot_wraps:
  assumes "int x < int xmax + 2 ^ 31" and "int xmax \<le> int x + 2 ^ 31"
    and "\<forall>p \<in> set xip. p < xmax \<and> xmax < p + 2 ^ 31"
    and "x < 2 ^ 64" and "xmax < 2 ^ 64"
  shows "already_in_snapshot \<lparr>sf_xmax = of_nat xmax, sf_in_progress = map of_nat xip\<rparr> (of_nat x)
    \<longleftrightarrow> x < xmax \<and> x \<notin> set xip"
proof -
  have low: "(of_nat p :: u32) = of_nat x \<longleftrightarrow> p = x" if "p \<in> set xip" for p
    using assms(1, 2) bspec [OF assms(3) that] by (intro low_word_eq) simp_all
  then have "(\<exists>p \<in> set xip. (of_nat p :: u32) = of_nat x) \<longleftrightarrow> x \<in> set xip" by auto
  then show ?thesis
    by (auto simp: already_in_snapshot_def low_word xid_distance [OF assms(1, 2)])
qed

lemma already_in_snapshot_wraps_witness:
  "already_in_snapshot \<lparr>sf_xmax = of_nat 4294967298, sf_in_progress = map of_nat [4294967295]\<rparr> (of_nat 4294967290)
   \<and> \<not> already_in_snapshot \<lparr>sf_xmax = of_nat 4294967298, sf_in_progress = map of_nat [4294967295]\<rparr> (of_nat 4294967295)"
  using already_in_snapshot_wraps [of 4294967290 4294967298 "[4294967295]"]
    already_in_snapshot_wraps [of 4294967295 4294967298 "[4294967295]"] by simp

section \<open>Rows decode with the introspected types\<close>

lemma decode_changes_catalog:
  assumes "decode_pgoutput_message fl cat payload = (Ok event, cat')"
  shows "cat' = cat \<or> (\<exists>r. cat' = upsert_relation r cat \<and> event = EvSchema (rs_table r) (rs_columns r))"
proof (cases payload)
  case Nil
  then show ?thesis using assms by (simp add: decode_pgoutput_message_def decode_effect_def)
next
  case (Cons tag rest)
  show ?thesis
  proof (cases "tag = CHR ''R''")
    case True
    have m: "decode_message fl cat payload = Ok event" and e: "decode_effect cat payload = cat'"
      using assms by (simp_all add: decode_pgoutput_message_def)
    then obtain r rest' where "decode_relation rest = Ok (r, rest')" "event = EvSchema (rs_table r) (rs_columns r)"
      using True Cons
      by (auto simp: decode_message_def decode_body_def dbind_def dec_u8_def dec_take_def dreturn_def rbind_eq_Ok
          split: if_splits)
    then show ?thesis using e True Cons by (auto simp: decode_effect_def)
  next
    case False
    then show ?thesis using assms Cons by (simp add: decode_pgoutput_message_def decode_effect_def)
  qed
qed

definition catalog_introspected :: "shared_state \<Rightarrow> catalog \<Rightarrow> bool" where
  "catalog_introspected s cat \<longleftrightarrow> bt_invar (relations cat)
     \<and> (\<forall>t known. table_by_id s t = Some known \<longrightarrow> relation cat t = Some (it_relation_schema known))"

definition ids_ok :: "shared_state \<Rightarrow> bool" where
  "ids_ok s \<longleftrightarrow> (\<forall>t known. table_by_id s t = Some known \<longrightarrow> it_id known = t)"

text \<open>The decoder's catalog at the start of a session.\<close>

definition session_catalog :: "shared_state \<Rightarrow> catalog" where
  "session_catalog s = fold (\<lambda>t. upsert_relation (it_relation_schema t)) (map snd (ss_names_by_id s)) catalog_new"

fun apply_frames ::
    "float_env \<Rightarrow> snapshot_fence \<Rightarrow> string list \<Rightarrow> shared_state \<times> catalog \<times> pending_transaction option
       \<Rightarrow> (shared_state \<times> catalog \<times> pending_transaction option) option" where
  "apply_frames fl fence [] st = Some st"
| "apply_frames fl fence (payload # payloads) st =
     (case apply_frame fl fence payload st of
        (Ok _, st') \<Rightarrow> apply_frames fl fence payloads st'
      | _ \<Rightarrow> None)"

lemma lookup_upserted:
  "bt_invar (relations cat) \<Longrightarrow> relation (upsert_relation r cat) t = (if t = rs_table r then Some r else relation cat t)"
  "bt_invar (relations cat) \<Longrightarrow> bt_invar (relations (upsert_relation r cat))"
  by (simp_all add: relation_def upsert_relation_def bt.get_put bt.invar_put)

lemma rs_table_introspected [simp]: "rs_table (it_relation_schema t) = it_id t"
  by (simp add: it_relation_schema_def)

lemma names_apply_event:
  "ss_names_by_id (fst (snd (apply_event e fence (s, cat, p)))) = ss_names_by_id s"
  by (cases e) (auto simp: Let_def apply_truncate_def apply_transaction_def apply_changes_locked_def
      store_clock_def split: option.splits)

lemma apply_event_catalog:
  assumes "apply_event e fence (s, cat, p) = (Ok r, s', cat', p')"
  shows "cat' = cat \<or> (\<exists>t columns known. e = EvSchema t columns \<and> table_by_id s t = Some known
    \<and> cat' = upsert_relation (it_relation_schema known) cat)"
  using assms by (cases e) (auto simp: Let_def split: option.splits if_splits)

lemma apply_event_schema_Ok:
  assumes "apply_event (EvSchema t columns) fence (s, cat, p) = (Ok r, s', cat', p')" and "table_by_id s t = Some known"
  shows "cat' = upsert_relation (it_relation_schema known) cat"
  using assms by (auto simp: Let_def split: if_splits)

lemma apply_frame_catalog:
  assumes "ids_ok s" and "catalog_introspected s cat"
    and "apply_frame fl fence payload (s, cat, p) = (Ok r, s', cat', p')"
  shows "catalog_introspected s' cat' \<and> ids_ok s'"
proof -
  obtain event cat1 where d: "decode_pgoutput_message fl cat payload = (Ok event, cat1)"
    "apply_event event fence (s, cat1, p) = (Ok r, s', cat', p')"
    using assms(3) by (auto simp: apply_frame_def split: prod.splits result.splits)
  have names: "table_by_id s' = table_by_id s"
    using names_apply_event [of event fence s cat1 p] d(2) by (simp add: table_by_id_def fun_eq_iff)
  have inv: "bt_invar (relations cat)" using assms(2) by (simp add: catalog_introspected_def)
  have "catalog_introspected s cat'"
    using decode_changes_catalog [OF d(1)]
  proof (elim disjE exE conjE)
    assume "cat1 = cat"
    then show ?thesis using apply_event_catalog [OF d(2)] assms(1, 2) inv
      by (auto simp: catalog_introspected_def lookup_upserted ids_ok_def)
  next
    fix rel assume r: "cat1 = upsert_relation rel cat" "event = EvSchema (rs_table rel) (rs_columns rel)"
    show ?thesis
    proof (cases "table_by_id s (rs_table rel)")
      case None
      then have "cat' = cat1" using apply_event_catalog [OF d(2)] r(2) by auto
      then show ?thesis using assms(2) inv None r(1) by (auto simp: catalog_introspected_def lookup_upserted)
    next
      case (Some known)
      then have "cat' = upsert_relation (it_relation_schema known) (upsert_relation rel cat)"
        using apply_event_schema_Ok d(2) r by simp
      moreover have "it_id known = rs_table rel" using assms(1) Some by (simp add: ids_ok_def)
      ultimately show ?thesis using assms(2) inv Some by (auto simp: catalog_introspected_def lookup_upserted)
    qed
  qed
  then show ?thesis using assms(1) names by (simp add: catalog_introspected_def ids_ok_def)
qed

lemma relations_upserts:
  "relations (fold (\<lambda>t. upsert_relation (it_relation_schema t)) ts c)
     = fold (\<lambda>(k, v). bt_insert k v) (map (\<lambda>t. (it_id t, it_relation_schema t)) ts) (relations c)"
  by (induction ts arbitrary: c) (simp_all add: upsert_relation_def)

lemma session_catalog_ok:
  assumes "ids_ok s" and "bt_invar (ss_names_by_id s)"
  shows "catalog_introspected s (session_catalog s)"
proof -
  let ?names = "ss_names_by_id s"
  let ?kvs = "map (\<lambda>t. (it_id t, it_relation_schema t)) (map snd ?names)"
  have "map_of ?names k = Some t" if "(k, t) \<in> set ?names" for k t
    using that bt_invar_distinct [OF assms(2)] by simp
  then have ids: "\<forall>(k, t) \<in> set ?names. it_id t = k"
    using assms(1) by (auto simp: ids_ok_def table_by_id_def)
  have kvs: "?kvs = map (\<lambda>(k, t). (k, it_relation_schema t)) ?names" using ids by auto
  have d: "distinct (map fst ?kvs)"
    using bt_invar_distinct [OF assms(2)] unfolding kvs by (simp add: comp_def case_prod_unfold)
  then have "map_of (rev ?kvs) = map_of ?kvs"
    by (intro iffD2 [OF map_of_inject_set]) (simp_all add: rev_map [symmetric])
  moreover have "map_of ?kvs k = map_option it_relation_schema (map_of ?names k)" for k
    unfolding kvs by (simp add: map_of_map)
  ultimately show ?thesis
    using bt.get_put_all [of "[]" ?kvs] bt.invar_put_all [of "[]" ?kvs]
    by (simp add: catalog_introspected_def session_catalog_def relation_def relations_upserts catalog_new_def
        table_by_id_def map_add_def)
qed

text \<open>C32: In every session, as long as frames are accepted, the decoder's catalog holds for each
  streamed table the introspected relation, so its tuples decode with the introspected types; a
  relation message with other columns ends the session.\<close>

theorem session_keeps_types:
  assumes "ids_ok s" and "bt_invar (ss_names_by_id s)"
    and "apply_frames fl fence payloads (s, session_catalog s, None) = Some (s', cat', p')"
  shows "catalog_introspected s' cat'"
proof -
  have "catalog_introspected s' cat' \<and> ids_ok s'"
    if "apply_frames fl fence payloads (s, cat, p) = Some (s', cat', p')" "ids_ok s" "catalog_introspected s cat" for s cat p
    using that
  proof (induction payloads arbitrary: s cat p)
    case (Cons payload payloads)
    obtain r s1 cat1 p1 where f: "apply_frame fl fence payload (s, cat, p) = (Ok r, s1, cat1, p1)"
      "apply_frames fl fence payloads (s1, cat1, p1) = Some (s', cat', p')"
      using Cons.prems(1) by (auto split: prod.splits result.splits)
    then show ?case using Cons.IH [OF f(2)] apply_frame_catalog [OF Cons.prems(2, 3) f(1)] by blast
  qed simp
  from this [OF assms(3) assms(1) session_catalog_ok [OF assms(1, 2)]] show ?thesis by (rule conjunct1)
qed

text \<open>C33: A non-null value of a decoder type, sent under the type the server announces for its
  column, passes the client's validation exactly when the type is not one of \<^verbatim>\<open>int2\<close>, \<^verbatim>\<open>int4\<close>,
  \<^verbatim>\<open>float4\<close> and \<^verbatim>\<open>json\<close>, which are announced as wider types but sent unchanged.\<close>

theorem announced_type_accepts:
  assumes "datum_has_type t d" and "datum_to_wire d = Ok w"
  shows "wire_is_compatible w (datum_type_to_proto (column_type_to_datum_type (column_type_of t))) b
    \<longleftrightarrow> t \<notin> {TI16, TI32, TF32, TJson}"
  using assms by (cases d rule: datum_to_wire.cases) (auto simp: rmap_eq_Ok)

lemma announced_type_accepts_witness:
  "\<not> wire_is_compatible (WI32 5) (datum_type_to_proto (column_type_to_datum_type (column_type_of TI32))) True
   \<and> wire_is_compatible (WI64 5) (datum_type_to_proto (column_type_to_datum_type (column_type_of TI64))) True"
  using announced_type_accepts [of TI32 "DI32 5" "WI32 5" True] announced_type_accepts [of TI64 "DI64 5" "WI64 5" True]
  by simp

section \<open>An example runtime\<close>

definition demo_table :: introspected_table where
  "demo_table = \<lparr>it_id = 7, it_namespace = ''public'', it_name = ''t'', it_replica_identity = RIFull,
     it_columns = [\<lparr>ic_name = ''id'', ic_type_oid = 20, ic_datum_type = TI64, ic_column_type = CtInt,
       ic_nullable = False, ic_primary_key = True\<rparr>]\<rparr>"

definition demo_runtime :: shared_state where
  "demo_runtime = seed_snapshot 10 [(7, [[DI64 1]])] (from_tables [demo_table] 4)"

definition demo_lower :: "string \<Rightarrow> (mir_graph, string) result" where
  "demo_lower sql = Ok (mir_new (BaseTable ''t'' []))"

definition demo_insert :: change where
  "demo_insert = (7, Insert, None, Some [DI64 2])"

definition demo_ops :: "runtime_op list" where
  "demo_ops = [ROTransaction 20 [demo_insert], ROTruncate 30 [7]]"

lemma demo_names: "ss_names_by_id demo_runtime = [(7, demo_table)]"
  by (simp add: demo_runtime_def seed_snapshot_def from_tables_def Let_def register_table_def demo_table_def)

lemma demo_by_name: "map_of (ss_tables_by_name demo_runtime) ''t'' = Some demo_table"
  by (simp add: demo_runtime_def seed_snapshot_def from_tables_def Let_def register_table_def demo_table_def
      full_table_name_def)

lemma demo_state:
  "ss_mirror demo_runtime = [(7, [[DI64 1]])]" "ss_clock demo_runtime = 10" "ss_failed demo_runtime = None"
  "ss_journal demo_runtime = \<lparr>jn_entries = [], jn_base_seq = 0, jn_truncated_through = 0, jn_capacity = 4\<rparr>"
  by (simp_all add: demo_runtime_def seed_snapshot_def from_tables_def Let_def journal_new_def)

lemma demo_inv: "runtime_inv demo_runtime"
  unfolding demo_runtime_def by (rule runtime_inv_start) simp

lemma demo_query: "query_tables demo_lower s q = (case map_of (ss_tables_by_name s) ''t'' of
    None \<Rightarrow> Err (''table '' @ [CHR 0x27] @ ''t'' @ [CHR 0x27] @ '' is not in the streamed set (derived from the query registry)'')
  | Some t \<Rightarrow> Ok [t])"
  by (simp add: query_tables_def demo_lower_def mir_new_def base_table_indices_def split: option.splits)

lemmas demo_eval = demo_state demo_query demo_by_name fetch_snapshot_def open_cursor_def check_failed_def
  apply_transaction_def apply_changes_locked_def store_clock_def apply_truncate_def truncate_table_def
  demo_insert_def mirror_rows_def tuple_to_row_def diff_at_def journal_push_def Let_def

lemma hash_order_id: "hash_order id"
  by (simp add: hash_order_def)

lemma demo_ops_ok: "ops_ok id (ss_clock demo_runtime) demo_ops demo_runtime"
  by (simp add: demo_ops_def demo_eval)


lemma snapshot_then_cursor_witness:
  "\<exists>snap c batches c'. fetch_snapshot demo_lower demo_runtime demo_runtime ''q'' = Ok snap
    \<and> open_cursor demo_lower (run_ops id demo_ops demo_runtime) ''q'' (sb_snapshot_lsn snap) = Ok c
    \<and> batch_by_lsn journal_next_diff journal_peek_lsn (ss_journal (run_ops id demo_ops demo_runtime), c) = Some (Ok batches, c')
    \<and> sorted_wrt (<) (map lb_lsn batches) \<and> sb_rows snap = [\<lparr>st_table = 7, st_rows = [[DI64 1]]\<rparr>]"
proof -
  obtain snap where s: "fetch_snapshot demo_lower demo_runtime demo_runtime ''q'' = Ok snap"
    "sb_rows snap = [\<lparr>st_table = 7, st_rows = [[DI64 1]]\<rparr>]"
    by (simp add: demo_eval demo_table_def)
  obtain c where c: "open_cursor demo_lower (run_ops id demo_ops demo_runtime) ''q'' (sb_snapshot_lsn snap) = Ok c"
    using s(1) by (auto simp: demo_eval demo_ops_def)
  from snapshot_then_cursor [OF hash_order_id demo_inv demo_ops_ok s(1) c] s c show ?thesis by blast
qed

lemma cursor_never_skips_witness:
  "fst (journal_next_diff (journal_push (diff_at 7 20 [DI64 2] 1) (journal_new 4),
      \<lparr>jc_next_seq = 0, jc_from_lsn = 10, jc_tables = [7], jc_poisoned = False\<rparr>)) = Some (diff_at 7 20 [DI64 2] 1)
    \<and> relevant \<lparr>jc_next_seq = 0, jc_from_lsn = 10, jc_tables = [7], jc_poisoned = False\<rparr> (diff_at 7 20 [DI64 2] 1)"
proof -
  let ?j = "journal_push (diff_at 7 20 [DI64 2] 1) (journal_new 4)"
  let ?c = "\<lparr>jc_next_seq = 0, jc_from_lsn = 10, jc_tables = [7], jc_poisoned = False\<rparr>"
  have ok: "journal_ok [diff_at 7 20 [DI64 2] 1] ?j"
    using journal_push_ok [OF journal_new_ok [of 4], of "diff_at 7 20 [DI64 2] 1"] by simp
  obtain c' where n: "journal_next_diff (?j, ?c) = (Some (diff_at 7 20 [DI64 2] 1), ?j, c')"
    by (simp add: journal_next_diff_def Let_def journal_push_def journal_new_def relevant_def)
  from cursor_never_skips [OF ok _ _ n] n show ?thesis by auto
qed

lemma demo_ids_ok: "ids_ok demo_runtime" "bt_invar (ss_names_by_id demo_runtime)"
  by (simp_all add: ids_ok_def table_by_id_def demo_names demo_table_def split: if_splits)

definition demo_floats :: float_env where
  "demo_floats = \<lparr>parse_f32 = (\<lambda>_. None), parse_f64 = (\<lambda>_. None)\<rparr>"

lemma session_keeps_types_witness:
  "apply_frames demo_floats \<lparr>sf_xmax = 0, sf_in_progress = []\<rparr> [''E''] (demo_runtime, session_catalog demo_runtime, None)
     = Some (demo_runtime, session_catalog demo_runtime, None)
   \<and> catalog_introspected demo_runtime (session_catalog demo_runtime)"
proof -
  have "decode_pgoutput_message demo_floats (session_catalog demo_runtime) ''E''
      = (Ok (EvStream StreamStop), session_catalog demo_runtime)"
    by (simp add: decode_pgoutput_message_def decode_message_def decode_effect_def decode_body_def dbind_def
        dreturn_def dec_u8_def dec_take_def)
  then have "apply_frames demo_floats \<lparr>sf_xmax = 0, sf_in_progress = []\<rparr> [''E''] (demo_runtime, session_catalog demo_runtime, None)
     = Some (demo_runtime, session_catalog demo_runtime, None)"
    by (simp add: apply_frame_def)
  with session_keeps_types [OF demo_ids_ok this] show ?thesis by (intro conjI)
qed

section \<open>Observed deviations\<close>

text \<open>A snapshot that runs between the release of the locks of a transaction and the store of its
  clock contains the transaction's rows but carries the previous LSN: its cursor delivers them a
  second time.\<close>

lemma snapshot_race_duplicates:
  "\<exists>s1 s2 snap c. s1 = apply_changes_locked 20 [demo_insert] demo_runtime \<and> s2 = store_clock 20 s1
    \<and> s2 = apply_transaction 20 [demo_insert] demo_runtime
    \<and> fetch_snapshot demo_lower s1 s1 ''q'' = Ok snap
    \<and> open_cursor demo_lower s2 ''q'' (sb_snapshot_lsn snap) = Ok c
    \<and> sb_rows snap = [\<lparr>st_table = 7, st_rows = mirror_rows (ss_mirror s2) 7\<rparr>]
    \<and> cursor_pending (ss_journal s2, c) = [diff_at 7 20 [DI64 2] 1]"
  by (simp add: demo_eval demo_table_def cursor_pending_def relevant_def)

text \<open>A snapshot that reads the mirror before a transaction and the clock after it misses the
  transaction's rows for good.\<close>

lemma snapshot_race_loses:
  "\<exists>s2 snap c. s2 = apply_transaction 20 [demo_insert] demo_runtime
    \<and> fetch_snapshot demo_lower demo_runtime s2 ''q'' = Ok snap
    \<and> open_cursor demo_lower s2 ''q'' (sb_snapshot_lsn snap) = Ok c
    \<and> sb_rows snap = [\<lparr>st_table = 7, st_rows = [[DI64 1]]\<rparr>]
    \<and> mirror_rows (ss_mirror s2) 7 = [[DI64 1], [DI64 2]]
    \<and> cursor_pending (ss_journal s2, c) = []"
  by (simp add: demo_eval demo_table_def cursor_pending_def relevant_def)

text \<open>Truncations of a transaction are applied before its row changes whatever their order: a row
  inserted before the truncation survives it.\<close>

lemma truncate_after_insert_keeps_row:
  "fst (snd (apply_event (EvCommit 20 21) \<lparr>sf_xmax = 0, sf_in_progress = []\<rparr>
     (run_events \<lparr>sf_xmax = 0, sf_in_progress = []\<rparr>
       [EvBegin 5 20, row_event demo_insert, EvTruncate \<lparr>tr_tables = [7], cascade = False, restart_identity = False\<rparr>]
       (demo_runtime, catalog_new, None)))) = s \<Longrightarrow> mirror_rows (ss_mirror s) 7 = [[DI64 2]]"
  by (auto simp: demo_eval table_by_id_def demo_names already_in_snapshot_def)

text \<open>An update whose old image is not mirrored retracts a row that nobody holds: the mirror gains a
  row, the journaled diffs cancel.\<close>

lemma update_of_absent_row_diverges:
  "row_count (ss_mirror (apply_transaction 20 [(7, Update, Some [DI64 5], Some [DI64 5])] demo_runtime)) 7 [DI64 5] = 1
   \<and> diff_sum (jn_entries (ss_journal (apply_transaction 20 [(7, Update, Some [DI64 5], Some [DI64 5])] demo_runtime))) 7 [DI64 5] = 0"
  by (simp add: demo_eval row_count_def)

end
