(* ===== verification/Client_Connection.thy ===== *)
theory Client_Connection
  imports Wire_Codec "HOL-Library.AList"
begin

text \<open>
  The client's connection manager: \<^verbatim>\<open>palimpsest-client/src/cache.rs\<close> (the keyed row cache),
  \<^verbatim>\<open>reconnect.rs\<close> (the backoff schedule), \<^verbatim>\<open>subscription.rs\<close> (the events of a subscription) and
  \<^verbatim>\<open>connection.rs\<close> (commands of the user, messages of the server, resubscription after a
  reconnect).  A hash map is an association list whose order is the map's unspecified iteration
  order; the channel to the user and the outbound channel are the lists of what was sent on them.
\<close>

section \<open>The keyed row cache\<close>

definition get_at :: "'a list \<Rightarrow> nat \<Rightarrow> 'a option" where
  "get_at xs i = (if i < length xs then Some (xs ! i) else None)"

type_synonym primary_key = "wire_datum list"

record local_cache =
  lc_pk_columns :: "nat list"
  lc_rows :: "primary_key \<rightharpoonup> wire_row"

definition lc_default :: local_cache where
  "lc_default = \<lparr>lc_pk_columns = [], lc_rows = Map.empty\<rparr>"

definition for_schema :: "proto_schema \<Rightarrow> local_cache" where
  "for_schema sch = \<lparr>lc_pk_columns = map unat (ps_primary_key_columns sch), lc_rows = Map.empty\<rparr>"

definition row_key :: "nat list \<Rightarrow> wire_row \<Rightarrow> primary_key" where
  "row_key cols r = List.map_filter (get_at r) cols"

definition cache_key :: "local_cache \<Rightarrow> wire_row \<Rightarrow> primary_key" where
  "cache_key c r = row_key (lc_pk_columns c) r"

definition cache_put :: "wire_row \<Rightarrow> local_cache \<Rightarrow> local_cache" where
  "cache_put r c = c\<lparr>lc_rows := (lc_rows c)(cache_key c r \<mapsto> r)\<rparr>"

definition cache_drop :: "wire_row \<Rightarrow> local_cache \<Rightarrow> local_cache" where
  "cache_drop r c = c\<lparr>lc_rows := (lc_rows c)(cache_key c r := None)\<rparr>"

definition cache_apply :: "proto_diff_op \<Rightarrow> wire_row list \<Rightarrow> local_cache \<Rightarrow> local_cache" where
  "cache_apply op rows c =
     (case op of
        POpInitial \<Rightarrow> fold cache_put rows c
      | POpInsert \<Rightarrow> fold cache_put rows c
      | POpUpdate \<Rightarrow> fold cache_put rows c
      | POpDelete \<Rightarrow> fold cache_drop rows c
      | POpUnspecified \<Rightarrow> c)"

definition if_some :: "('a \<Rightarrow> 'c \<Rightarrow> 'c) \<Rightarrow> 'a option \<Rightarrow> 'c \<Rightarrow> 'c" where
  "if_some f x c = (case x of None \<Rightarrow> c | Some y \<Rightarrow> f y c)"

definition cache_apply_change :: "wire_row_change \<Rightarrow> local_cache \<Rightarrow> local_cache" where
  "cache_apply_change ch c =
     (case wrc_op ch of
        POpInitial \<Rightarrow> if_some cache_put (wrc_new ch) c
      | POpInsert \<Rightarrow> if_some cache_put (wrc_new ch) c
      | POpUpdate \<Rightarrow> if_some cache_put (wrc_new ch) (if_some cache_drop (wrc_old ch) c)
      | POpDelete \<Rightarrow> if_some cache_drop (wrc_old ch) c
      | POpUnspecified \<Rightarrow> c)"

definition cache_apply_transaction :: "wire_row_change list \<Rightarrow> local_cache \<Rightarrow> local_cache" where
  "cache_apply_transaction changes c = fold cache_apply_change changes c"

definition cache_get :: "local_cache \<Rightarrow> primary_key \<Rightarrow> wire_row option" where
  "cache_get c k = lc_rows c k"

section \<open>The reconnect schedule\<close>

text \<open>A \<^verbatim>\<open>Duration\<close> is a number of nanoseconds; the product of a duration and a factor panics above
  the largest one, \<^verbatim>\<open>u64::MAX\<close> seconds and 999,999,999 nanoseconds.\<close>

definition duration_max :: nat where
  "duration_max = 2 ^ 64 * 1000000000 - 1"

record backoff_config =
  bo_initial :: nat
  bo_max :: nat
  bo_factor :: u32

definition backoff_default :: backoff_config where
  "backoff_default = \<lparr>bo_initial = 50 * 1000000, bo_max = 5 * 1000000000, bo_factor = 2\<rparr>"

record backoff =
  bk_current :: nat
  bk_max :: nat
  bk_factor :: u32

definition backoff_schedule :: "backoff_config \<Rightarrow> backoff" where
  "backoff_schedule cfg = \<lparr>bk_current = bo_initial cfg, bk_max = bo_max cfg, bk_factor = bo_factor cfg\<rparr>"

definition next_delay :: "backoff \<Rightarrow> (nat \<times> backoff, unit) result" where
  "next_delay b =
     (let product = bk_current b * unat (bk_factor b) in
      if product > duration_max then Panic
      else Ok (bk_current b, b\<lparr>bk_current := min product (bk_max b)\<rparr>))"

definition backoff_reset :: "nat \<Rightarrow> backoff \<Rightarrow> backoff" where
  "backoff_reset initial b = b\<lparr>bk_current := initial\<rparr>"

fun delays :: "nat \<Rightarrow> backoff \<Rightarrow> (nat list \<times> backoff, unit) result" where
  "delays 0 b = Ok ([], b)"
| "delays (Suc n) b =
     rbind (next_delay b) (\<lambda>(d, b'). rbind (delays n b') (\<lambda>(ds, b''). Ok (d # ds, b'')))"

section \<open>Events, commands and messages\<close>

datatype client_error =
    EndpointError string
  | TransportError string
  | GrpcError string
  | ConnectionClosed
  | CodecFailure codec_error
  | EmptyServerMessage
  | UnacceptedSubscription string
  | InvalidRequest string

datatype client_event =
    CeAccepted u64 u64 proto_schema
  | CeDiff u64 proto_diff_op "wire_row list"
  | CeTransaction u64 "u64 option" "u64 option" "u32 option" "wire_row_change list"
  | CeResync proto_resync_reason string
  | CeError string string

datatype var_value =
    VarBool bool | VarInt i64 | VarFloat u64 | VarString string | VarBytes string | VarNull bool
  | VarList "var_value list" | VarUnset

type_synonym vars = "(string \<times> var_value) list"

datatype query_spec = QSql string | QNamed string

datatype command =
    CmdSubscribe string query_spec vars "local_cache option"
  | CmdUpdate string vars
  | CmdUnsubscribe string
  | CmdAck string u64
  | CmdShutdown

datatype client_message =
    MsgSubscribe string string vars "u64 option" string
  | MsgUpdate string vars
  | MsgUnsubscribe string
  | MsgAck string u64

record sub_state =
  ss_query :: query_spec
  ss_vars :: vars
  ss_events :: "(client_event, client_error) result list"
  ss_cache :: "local_cache option"
  ss_schema_id :: "u64 option"
  ss_last_seen_lsn :: u64
  ss_last_acked_lsn :: "u64 option"

record connection_task =
  ct_state :: "(string \<times> sub_state) list"
  ct_registry :: schema_registry
  ct_outbound :: "client_message list"

definition task_new :: connection_task where
  "task_new = \<lparr>ct_state = [], ct_registry = [], ct_outbound = []\<rparr>"

definition client_subscribe :: "string \<Rightarrow> sub_state \<Rightarrow> u64 option \<Rightarrow> client_message" where
  "client_subscribe sub_id s resume_lsn =
     (case ss_query s of
        QSql sql \<Rightarrow> MsgSubscribe sub_id sql (ss_vars s) resume_lsn []
      | QNamed name \<Rightarrow> MsgSubscribe sub_id [] (ss_vars s) resume_lsn name)"

section \<open>The handlers of the manager\<close>

definition set_sub :: "string \<Rightarrow> sub_state \<Rightarrow> connection_task \<Rightarrow> connection_task" where
  "set_sub sub_id s t = t\<lparr>ct_state := AList.update sub_id s (ct_state t)\<rparr>"

definition push_event :: "(client_event, client_error) result \<Rightarrow> sub_state \<Rightarrow> sub_state" where
  "push_event e s = s\<lparr>ss_events := ss_events s @ [e]\<rparr>"

text \<open>Sending on the outbound channel: \<open>alive\<close> says whether its receiver still exists.\<close>

definition send_outbound :: "bool \<Rightarrow> client_message \<Rightarrow> connection_task \<Rightarrow> bool \<times> connection_task" where
  "send_outbound alive m t = (if alive then (True, t\<lparr>ct_outbound := ct_outbound t @ [m]\<rparr>) else (False, t))"

fun handle_command :: "bool \<Rightarrow> command \<Rightarrow> connection_task \<Rightarrow> bool \<times> connection_task" where
  "handle_command alive CmdShutdown t = (True, t)"
| "handle_command alive (CmdSubscribe sub_id query vs cache) t =
     (let s = \<lparr>ss_query = query, ss_vars = vs, ss_events = [], ss_cache = cache, ss_schema_id = None,
               ss_last_seen_lsn = 0, ss_last_acked_lsn = None\<rparr>
      in send_outbound alive (client_subscribe sub_id s None) (set_sub sub_id s t))"
| "handle_command alive (CmdUpdate sub_id vs) t =
     send_outbound alive (MsgUpdate sub_id vs)
       (case map_of (ct_state t) sub_id of
          None \<Rightarrow> t
        | Some s \<Rightarrow> set_sub sub_id (s\<lparr>ss_vars := vs\<rparr>) t)"
| "handle_command alive (CmdUnsubscribe sub_id) t =
     send_outbound alive (MsgUnsubscribe sub_id)
       (case map_of (ct_state t) sub_id of
          None \<Rightarrow> t
        | Some s \<Rightarrow>
            t\<lparr>ct_state := AList.delete sub_id (ct_state t),
              ct_registry := (case ss_schema_id s of
                 None \<Rightarrow> ct_registry t
               | Some schema_id \<Rightarrow> snd (registry_remove schema_id (ct_registry t)))\<rparr>)"
| "handle_command alive (CmdAck sub_id at) t =
     send_outbound alive (MsgAck sub_id at)
       (case map_of (ct_state t) sub_id of
          None \<Rightarrow> t
        | Some s \<Rightarrow> set_sub sub_id (s\<lparr>ss_last_acked_lsn :=
            Some (case ss_last_acked_lsn s of None \<Rightarrow> at | Some prev \<Rightarrow> max prev at)\<rparr>) t)"

definition fail_sub :: "string \<Rightarrow> client_error \<Rightarrow> connection_task \<Rightarrow> connection_task" where
  "fail_sub sub_id e t =
     (case map_of (ct_state t) sub_id of
        None \<Rightarrow> t
      | Some s \<Rightarrow> set_sub sub_id (push_event (Err e) s) t)"

definition handle_accepted :: "proto_accepted \<Rightarrow> connection_task \<Rightarrow> connection_task" where
  "handle_accepted a t =
     (case pa_schema a of
        None \<Rightarrow> fail_sub (pa_subscription_id a) EmptyServerMessage t
      | Some sch \<Rightarrow>
          (let t' = t\<lparr>ct_registry := registry_register (pa_schema_id a) sch (ct_registry t)\<rparr> in
           case map_of (ct_state t') (pa_subscription_id a) of
             None \<Rightarrow> t'
           | Some s \<Rightarrow>
               set_sub (pa_subscription_id a)
                 (push_event (Ok (CeAccepted (pa_schema_id a) (pa_snapshot_lsn a) sch))
                    (s\<lparr>ss_schema_id := Some (pa_schema_id a),
                       ss_cache := map_option (\<lambda>_. for_schema sch) (ss_cache s)\<rparr>)) t'))"

definition replayed :: "u64 \<Rightarrow> sub_state \<Rightarrow> bool" where
  "replayed at s = (at \<le> ss_last_seen_lsn s \<and> ss_last_seen_lsn s > 0)"

text \<open>An abort of the decoder ends the task; the state is then what it was.\<close>

definition handle_diff :: "bincode \<Rightarrow> proto_diff \<Rightarrow> connection_task \<Rightarrow> connection_task" where
  "handle_diff bc diff t =
     (case map_of (ct_state t) (pd_subscription_id diff) of
        None \<Rightarrow> t
      | Some s \<Rightarrow>
          if replayed (pd_lsn diff) s then t
          else (case registry_decode bc (ct_registry t) diff of
              Err e \<Rightarrow> set_sub (pd_subscription_id diff) (push_event (Err (CodecFailure e)) s) t
            | Panic \<Rightarrow> t
            | Ok rows \<Rightarrow>
                (let op = (case diff_op_try_from (pd_op diff) of Some p \<Rightarrow> p | None \<Rightarrow> POpUnspecified)
                 in set_sub (pd_subscription_id diff)
                      (push_event (Ok (CeDiff (pd_lsn diff) op rows))
                         (s\<lparr>ss_cache := map_option (cache_apply op rows) (ss_cache s),
                            ss_last_seen_lsn := pd_lsn diff\<rparr>)) t)))"

definition handle_transaction_update ::
    "bincode \<Rightarrow> proto_transaction_update \<Rightarrow> connection_task \<Rightarrow> connection_task" where
  "handle_transaction_update bc u t =
     (case map_of (ct_state t) (ptu_subscription_id u) of
        None \<Rightarrow> t
      | Some s \<Rightarrow>
          if replayed (ptu_commit_lsn u) s then t
          else (case registry_decode_transaction bc (ct_registry t) u of
              Err e \<Rightarrow> set_sub (ptu_subscription_id u) (push_event (Err (CodecFailure e)) s) t
            | Panic \<Rightarrow> t
            | Ok changes \<Rightarrow>
                set_sub (ptu_subscription_id u)
                  (push_event (Ok (CeTransaction (ptu_commit_lsn u) (ptu_begin_lsn u) (ptu_end_lsn u)
                       (ptu_transaction_id u) changes))
                     (s\<lparr>ss_cache := map_option (cache_apply_transaction changes) (ss_cache s),
                        ss_last_seen_lsn := ptu_commit_lsn u\<rparr>)) t))"

definition handle_resync :: "proto_resync \<Rightarrow> connection_task \<Rightarrow> connection_task" where
  "handle_resync r t =
     (case map_of (ct_state t) (prs_subscription_id r) of
        None \<Rightarrow> t
      | Some s \<Rightarrow>
          set_sub (prs_subscription_id r)
            (push_event (Ok (CeResync (case resync_reason_try_from (prs_reason r) of
                 Some p \<Rightarrow> p | None \<Rightarrow> PRUnspecified) (prs_message r)))
               (s\<lparr>ss_last_seen_lsn := 0, ss_cache := map_option (\<lambda>_. lc_default) (ss_cache s)\<rparr>)) t)"

definition handle_error :: "proto_error \<Rightarrow> connection_task \<Rightarrow> connection_task" where
  "handle_error e t =
     (case map_of (ct_state t) (pe_subscription_id e) of
        None \<Rightarrow> t
      | Some s \<Rightarrow> set_sub (pe_subscription_id e) (push_event (Ok (CeError (pe_code e) (pe_message e))) s) t)"

fun dispatch_server :: "bincode \<Rightarrow> server_message option \<Rightarrow> connection_task \<Rightarrow> connection_task" where
  "dispatch_server bc None t = t"
| "dispatch_server bc (Some (MsgAccepted a)) t = handle_accepted a t"
| "dispatch_server bc (Some (MsgDiff d)) t = handle_diff bc d t"
| "dispatch_server bc (Some (MsgTransactionUpdate u)) t = handle_transaction_update bc u t"
| "dispatch_server bc (Some (MsgResync r)) t = handle_resync r t"
| "dispatch_server bc (Some (MsgError e)) t = handle_error e t"

fun err_clone :: "client_error \<Rightarrow> client_error" where
  "err_clone (EndpointError s) = EndpointError s"
| "err_clone EmptyServerMessage = EmptyServerMessage"
| "err_clone (UnacceptedSubscription s) = UnacceptedSubscription s"
| "err_clone (InvalidRequest s) = InvalidRequest s"
| "err_clone _ = ConnectionClosed"

text \<open>\<^verbatim>\<open>fail_all\<close>: the last event of every subscription, and the emptied state.\<close>

definition fail_all :: "client_error \<Rightarrow> connection_task \<Rightarrow> (string \<times> sub_state) list \<times> connection_task" where
  "fail_all e t = (map (\<lambda>(i, s). (i, push_event (Err (err_clone e)) s)) (ct_state t), t\<lparr>ct_state := []\<rparr>)"

text \<open>The start of \<^verbatim>\<open>run_once\<close>: a new connection has an empty outbound channel on which every
  subscription is requested again from the last acknowledged position.\<close>

definition resubscribe_all :: "connection_task \<Rightarrow> connection_task" where
  "resubscribe_all t =
     t\<lparr>ct_outbound := map (\<lambda>(i, s). client_subscribe i s (ss_last_acked_lsn s)) (ct_state t)\<rparr>"

text \<open>\<^verbatim>\<open>Client::subscribe_spec_with_cache\<close>: the command for the subscription numbered \<open>n\<close>, and the
  next number.\<close>

definition subscribe_spec_with_cache :: "u64 \<Rightarrow> query_spec \<Rightarrow> vars \<Rightarrow> bool \<Rightarrow> command \<times> u64" where
  "subscribe_spec_with_cache n query vs cache_enabled =
     (CmdSubscribe (''sub-'' @ show_nat (unat n)) query vs (if cache_enabled then Some lc_default else None),
      n + 1)"

fun subscription_command :: "command \<Rightarrow> bool" where
  "subscription_command (CmdSubscribe _ _ _ _) = True"
| "subscription_command _ = False"

text \<open>What one turn of the manager's loop does: a new subscription, another command of the user, a
  message of the server, or a new connection.\<close>

inductive client_step :: "bincode \<Rightarrow> connection_task \<Rightarrow> connection_task \<Rightarrow> bool" for bc where
  subscribe: "client_step bc t
     (snd (handle_command alive (fst (subscribe_spec_with_cache n query vs cached)) t))"
| command: "\<not> subscription_command cmd \<Longrightarrow> client_step bc t (snd (handle_command alive cmd t))"
| server: "client_step bc t (dispatch_server bc m t)"
| reconnect: "client_step bc t (resubscribe_all t)"

inductive client_run :: "bincode \<Rightarrow> connection_task \<Rightarrow> bool" for bc where
  start: "client_run bc task_new"
| step: "client_run bc t \<Longrightarrow> client_step bc t t' \<Longrightarrow> client_run bc t'"

section \<open>What the user observes\<close>

text \<open>The positions of the data events delivered since the last resync.\<close>

fun delivered_step :: "(client_event, client_error) result \<Rightarrow> u64 list \<Rightarrow> u64 list" where
  "delivered_step (Ok (CeDiff at op rows)) acc = acc @ [at]"
| "delivered_step (Ok (CeTransaction at b e x cs)) acc = acc @ [at]"
| "delivered_step (Ok (CeResync r m)) acc = []"
| "delivered_step _ acc = acc"

definition delivered :: "(client_event, client_error) result list \<Rightarrow> u64 list" where
  "delivered es = fold delivered_step es []"

text \<open>A user who keeps a cache of their own from the events alone.\<close>

fun observe :: "(client_event, client_error) result \<Rightarrow> local_cache \<Rightarrow> local_cache" where
  "observe (Ok (CeAccepted i at sch)) c = for_schema sch"
| "observe (Ok (CeDiff at op rows)) c = cache_apply op rows c"
| "observe (Ok (CeTransaction at b e x cs)) c = cache_apply_transaction cs c"
| "observe (Ok (CeResync r m)) c = lc_default"
| "observe _ c = c"

definition in_order :: "sub_state \<Rightarrow> bool" where
  "in_order s = (sorted_wrt (<) (filter ((<) 0) (delivered (ss_events s)))
     \<and> (\<forall>at \<in> set (delivered (ss_events s)). at \<le> ss_last_seen_lsn s))"


section \<open>Invariants of a subscription\<close>

text \<open>The ways in which the manager changes a subscription it keeps.\<close>

definition bookkeeping :: "sub_state \<Rightarrow> sub_state \<Rightarrow> bool" where
  "bookkeeping s s' = (ss_events s' = ss_events s \<and> ss_cache s' = ss_cache s
     \<and> ss_last_seen_lsn s' = ss_last_seen_lsn s)"

locale subscription_invariant =
  fixes P :: "sub_state \<Rightarrow> bool"
  assumes fresh: "\<And>query vs cached.
      P \<lparr>ss_query = query, ss_vars = vs, ss_events = [], ss_cache = (if cached then Some lc_default else None),
         ss_schema_id = None, ss_last_seen_lsn = 0, ss_last_acked_lsn = None\<rparr>"
    and kept: "\<And>s s'. P s \<Longrightarrow> bookkeeping s s' \<Longrightarrow> P s'"
    and notice: "\<And>s e. P s \<Longrightarrow> P (push_event (Err e) s)"
    and server_error: "\<And>s code m. P s \<Longrightarrow> P (push_event (Ok (CeError code m)) s)"
    and accepted: "\<And>s i at sch. P s \<Longrightarrow>
      P (push_event (Ok (CeAccepted i at sch))
          (s\<lparr>ss_schema_id := Some i, ss_cache := map_option (\<lambda>_. for_schema sch) (ss_cache s)\<rparr>))"
    and diff: "\<And>s at op rows. P s \<Longrightarrow> \<not> replayed at s \<Longrightarrow>
      P (push_event (Ok (CeDiff at op rows))
          (s\<lparr>ss_cache := map_option (cache_apply op rows) (ss_cache s), ss_last_seen_lsn := at\<rparr>))"
    and transaction: "\<And>s at b e x changes. P s \<Longrightarrow> \<not> replayed at s \<Longrightarrow>
      P (push_event (Ok (CeTransaction at b e x changes))
          (s\<lparr>ss_cache := map_option (cache_apply_transaction changes) (ss_cache s), ss_last_seen_lsn := at\<rparr>))"
    and resync: "\<And>s r m. P s \<Longrightarrow>
      P (push_event (Ok (CeResync r m))
          (s\<lparr>ss_last_seen_lsn := 0, ss_cache := map_option (\<lambda>_. lc_default) (ss_cache s)\<rparr>))"
begin

definition all_subs :: "connection_task \<Rightarrow> bool" where
  "all_subs t = (\<forall>i s. map_of (ct_state t) i = Some s \<longrightarrow> P s)"

lemma all_subs_set: "all_subs t \<Longrightarrow> P s \<Longrightarrow> all_subs (set_sub i s t)"
  by (auto simp: all_subs_def set_sub_def update_conv')

lemma all_subs_cong: "ct_state t' = ct_state t \<Longrightarrow> all_subs t' = all_subs t"
  by (simp add: all_subs_def)

lemma all_subs_update: "all_subs t \<Longrightarrow> map_of (ct_state t) i = Some s \<Longrightarrow> (P s \<Longrightarrow> P s') \<Longrightarrow>
    all_subs (set_sub i s' t)"
  by (rule all_subs_set) (auto simp: all_subs_def)

lemma all_subs_kept: "all_subs t \<Longrightarrow> map_of (ct_state t) i = Some s \<Longrightarrow> bookkeeping s s' \<Longrightarrow>
    all_subs (set_sub i s' t)"
  by (erule (1) all_subs_update) (erule (1) kept)

lemma all_subs_send: "all_subs (snd (send_outbound alive m t)) = all_subs t"
  by (simp add: send_outbound_def all_subs_def)

lemma all_subs_command:
  assumes "all_subs t" "\<not> subscription_command cmd"
  shows "all_subs (snd (handle_command alive cmd t))"
proof (cases cmd)
  case (CmdUnsubscribe i)
  have "all_subs t' " if "ct_state t' = AList.delete i (ct_state t)" for t'
    using assms(1) that by (auto simp: all_subs_def delete_conv')
  then show ?thesis using assms by (simp add: CmdUnsubscribe all_subs_send split: option.splits)
next
  case (CmdUpdate i vs)
  show ?thesis using assms
    by (simp add: CmdUpdate all_subs_send all_subs_kept bookkeeping_def split: option.split)
next
  case (CmdAck i at)
  show ?thesis using assms
    by (simp add: CmdAck all_subs_send all_subs_kept bookkeeping_def split: option.split)
qed (use assms in auto)

lemma all_subs_subscribe:
  assumes "all_subs t"
  shows "all_subs (snd (handle_command alive (fst (subscribe_spec_with_cache n query vs cached)) t))"
  using assms fresh by (simp add: subscribe_spec_with_cache_def Let_def all_subs_send all_subs_set)

lemma all_subs_accepted:
  assumes "all_subs t"
  shows "all_subs (handle_accepted a t)"
proof (cases "pa_schema a")
  case None
  then show ?thesis using assms
    by (auto simp: handle_accepted_def fail_sub_def split: option.splits intro!: all_subs_update notice)
next
  case (Some sch)
  let ?t = "t\<lparr>ct_registry := registry_register (pa_schema_id a) sch (ct_registry t)\<rparr>"
  have "all_subs ?t" using assms all_subs_cong [of ?t t] by simp
  then show ?thesis
    by (auto simp: handle_accepted_def Some Let_def split: option.splits intro!: all_subs_update accepted)
qed

lemma all_subs_diff: "all_subs t \<Longrightarrow> all_subs (handle_diff bc d t)"
  unfolding handle_diff_def Let_def
  by (auto split: option.split result.split intro!: all_subs_update notice diff)

lemma all_subs_transaction: "all_subs t \<Longrightarrow> all_subs (handle_transaction_update bc u t)"
  unfolding handle_transaction_update_def
  by (auto split: option.split result.split intro!: all_subs_update notice transaction)

lemma all_subs_resync: "all_subs t \<Longrightarrow> all_subs (handle_resync r t)"
  unfolding handle_resync_def by (auto split: option.split intro!: all_subs_update resync)

lemma all_subs_error: "all_subs t \<Longrightarrow> all_subs (handle_error e t)"
  unfolding handle_error_def by (auto split: option.split intro!: all_subs_update server_error)

lemma all_subs_dispatch: "all_subs t \<Longrightarrow> all_subs (dispatch_server bc m t)"
  by (induction bc m t rule: dispatch_server.induct)
    (simp_all add: all_subs_accepted all_subs_diff all_subs_transaction all_subs_resync all_subs_error)

lemma all_subs_resubscribe: "all_subs (resubscribe_all t) = all_subs t"
  by (rule all_subs_cong) (simp add: resubscribe_all_def)

lemma all_subs_step: "client_step bc t t' \<Longrightarrow> all_subs t \<Longrightarrow> all_subs t'"
  by (induction rule: client_step.induct)
    (simp_all add: all_subs_command all_subs_subscribe all_subs_dispatch all_subs_resubscribe)

lemma all_subs_run: "client_run bc t \<Longrightarrow> all_subs t"
  by (induction rule: client_run.induct) (simp_all add: all_subs_step, simp add: all_subs_def task_new_def)

lemma invariant: "client_run bc t \<Longrightarrow> map_of (ct_state t) i = Some s \<Longrightarrow> P s"
  using all_subs_run [of bc t] by (simp add: all_subs_def)

end

lemma delivered_snoc: "delivered (es @ [e]) = delivered_step e (delivered es)"
  by (simp add: delivered_def)

lemma in_order_data:
  assumes "in_order s" "\<not> replayed at s"
    and "delivered (ss_events s') = delivered (ss_events s) @ [at]" "ss_last_seen_lsn s' = at"
  shows "in_order s'"
proof (cases "ss_last_seen_lsn s > 0")
  case True
  then have "ss_last_seen_lsn s < at" using assms(2) by (simp add: replayed_def not_le)
  then have below: "x < at" if "x \<in> set (delivered (ss_events s))" for x
    using assms(1) that unfolding in_order_def by (meson le_less_trans)
  have "sorted_wrt (<) (filter ((<) 0) (delivered (ss_events s)))"
    using assms(1) by (simp add: in_order_def)
  then show ?thesis using assms(3,4) below
    by (simp add: in_order_def sorted_wrt_append less_imp_le)
next
  case False
  then have zero: "\<forall>x \<in> set (delivered (ss_events s)). x = 0"
    using assms(1) by (simp add: in_order_def word_gt_0)
  then have "\<forall>x \<in> set (delivered (ss_events s)). \<not> 0 < x" by (metis less_irrefl)
  moreover have "\<forall>x \<in> set (delivered (ss_events s)). x \<le> at" using zero by (metis word_zero_le)
  ultimately show ?thesis using assms(3,4) by (simp add: in_order_def filter_empty_conv)
qed

lemma in_order_cong:
  "delivered (ss_events s') = delivered (ss_events s) \<Longrightarrow> ss_last_seen_lsn s' = ss_last_seen_lsn s \<Longrightarrow>
   in_order s \<Longrightarrow> in_order s'"
  by (simp add: in_order_def)

lemma in_order_empty: "delivered (ss_events s) = [] \<Longrightarrow> in_order s"
  by (simp add: in_order_def)

interpretation ordered: subscription_invariant in_order
proof
  fix s at op rows
  assume "in_order s" "\<not> replayed at s"
  then show "in_order (push_event (Ok (CeDiff at op rows))
      (s\<lparr>ss_cache := map_option (cache_apply op rows) (ss_cache s), ss_last_seen_lsn := at\<rparr>))"
    by (rule in_order_data) (simp_all add: push_event_def delivered_snoc)
next
  fix s at b e x changes
  assume "in_order s" "\<not> replayed at s"
  then show "in_order (push_event (Ok (CeTransaction at b e x changes))
      (s\<lparr>ss_cache := map_option (cache_apply_transaction changes) (ss_cache s), ss_last_seen_lsn := at\<rparr>))"
    by (rule in_order_data) (simp_all add: push_event_def delivered_snoc)
next
  fix s s'
  assume "in_order s" "bookkeeping s s'"
  then show "in_order s'" by (simp add: in_order_def bookkeeping_def)
next
  fix s e
  assume "in_order s"
  then show "in_order (push_event (Err e) s)"
    by (rule in_order_cong [rotated 2]) (simp_all add: push_event_def delivered_snoc)
next
  fix s code m
  assume "in_order s"
  then show "in_order (push_event (Ok (CeError code m)) s)"
    by (rule in_order_cong [rotated 2]) (simp_all add: push_event_def delivered_snoc)
next
  fix s i at sch
  assume "in_order s"
  then show "in_order (push_event (Ok (CeAccepted i at sch))
      (s\<lparr>ss_schema_id := Some i, ss_cache := map_option (\<lambda>_. for_schema sch) (ss_cache s)\<rparr>))"
    by (rule in_order_cong [rotated 2]) (simp_all add: push_event_def delivered_snoc)
qed (rule in_order_empty, simp add: push_event_def delivered_snoc delivered_def [of "[]"])+

definition cache_observed :: "sub_state \<Rightarrow> bool" where
  "cache_observed s = (ss_cache s = None
     \<or> ss_cache s = Some (fold observe (ss_events s) lc_default))"

interpretation observed: subscription_invariant cache_observed
  by unfold_locales (simp_all add: cache_observed_def push_event_def bookkeeping_def, (elim disjE; simp)+)


section \<open>Properties\<close>

lemma next_delay_Ok:
  "bk_current b * unat (bk_factor b) \<le> duration_max \<Longrightarrow>
   next_delay b = Ok (bk_current b, b\<lparr>bk_current := min (bk_current b * unat (bk_factor b)) (bk_max b)\<rparr>)"
  by (simp add: next_delay_def Let_def)

lemma capped_product:
  fixes a m f :: nat
  assumes "1 \<le> f"
  shows "min (min a m * f) m = min (a * f) m"
proof (cases "a \<le> m")
  case False
  then have "m * f \<le> a * f" by simp
  moreover have "m \<le> m * f" using assms by simp
  ultimately have "m \<le> a * f" by (rule order_trans [rotated])
  then show ?thesis using False \<open>m \<le> m * f\<close> by (simp only: min_absorb2 not_le less_imp_le)
qed simp

lemma delays_closed_form:
  assumes "bk_max b * unat (bk_factor b) \<le> duration_max"
    and "bk_current b = min (c * unat (bk_factor b) ^ k) (bk_max b)" "unat (bk_factor b) \<ge> 1"
  shows "delays n b = Ok (map (\<lambda>i. min (c * unat (bk_factor b) ^ (k + i)) (bk_max b)) [0..<n],
    b\<lparr>bk_current := min (c * unat (bk_factor b) ^ (k + n)) (bk_max b)\<rparr>)"
  using assms
proof (induction n arbitrary: b k)
  case (Suc n)
  let ?f = "unat (bk_factor b)" and ?m = "bk_max b"
  let ?b = "b\<lparr>bk_current := min (bk_current b * ?f) ?m\<rparr>"
  have "bk_current b * ?f \<le> ?m * ?f" using Suc.prems(2) by simp
  from order_trans [OF this Suc.prems(1)]
  have nd: "next_delay b = Ok (bk_current b, ?b)" by (rule next_delay_Ok)
  have "min (min (c * ?f ^ k) ?m * ?f) ?m = min (c * ?f ^ Suc k) ?m"
    using capped_product [OF Suc.prems(3), of "c * ?f ^ k" ?m] by (simp add: ac_simps)
  then have "bk_current ?b = min (c * ?f ^ Suc k) ?m" using Suc.prems(2) by simp
  then have "delays n ?b = Ok (map (\<lambda>i. min (c * ?f ^ (Suc k + i)) ?m) [0..<n],
      ?b\<lparr>bk_current := min (c * ?f ^ (Suc k + n)) ?m\<rparr>)"
    using Suc.IH [of ?b "Suc k"] Suc.prems(1,3) by simp
  moreover have "map (\<lambda>i. min (c * ?f ^ (k + i)) ?m) [0..<Suc n]
      = bk_current b # map (\<lambda>i. min (c * ?f ^ (Suc k + i)) ?m) [0..<n]"
    using Suc.prems(2) by (simp add: upt_conv_Cons map_Suc_upt [symmetric] comp_def del: upt_Suc)
  ultimately show ?case using nd by simp
qed simp

text \<open>C40: The reconnect schedule.  When the first delay does not exceed the maximum, the factor is
  at least one and the maximum times the factor is a duration, the \<open>i\<close>-th of any number of
  consecutive delays is the first delay times the \<open>i\<close>-th power of the factor, capped at the
  maximum, and no multiplication overflows.\<close>

theorem reconnect_delays:
  assumes "bo_initial cfg \<le> bo_max cfg" "unat (bo_factor cfg) \<ge> 1"
    and "bo_max cfg * unat (bo_factor cfg) \<le> duration_max"
  shows "\<exists>b. delays n (backoff_schedule cfg)
    = Ok (map (\<lambda>i. min (bo_initial cfg * unat (bo_factor cfg) ^ i) (bo_max cfg)) [0..<n], b)"
  using delays_closed_form [of "backoff_schedule cfg" "bo_initial cfg" 0 n] assms
  by (simp add: backoff_schedule_def)

theorem reconnect_delays_witness:
  "\<exists>b. delays 9 (backoff_schedule backoff_default)
    = Ok ([50000000, 100000000, 200000000, 400000000, 800000000, 1600000000, 3200000000,
           5000000000, 5000000000], b)"
proof -
  have "[0..<9] = [0, 1, 2, 3, 4, 5, 6, 7, 8 :: nat]" by (simp add: upt_conv_Cons)
  then show ?thesis
    using reconnect_delays [of backoff_default 9] by (simp add: backoff_default_def duration_max_def)
qed

text \<open>C4: The manager delivers each position once and in order.  In every state reachable by
  subscriptions, commands, server messages in any order (repetitions and replays included) and
  reconnects, the non-zero positions of the data events a subscription has delivered since its last
  resync are strictly increasing.\<close>

theorem client_delivers_in_order:
  assumes "client_run bc t" "map_of (ct_state t) sub_id = Some s"
  shows "sorted_wrt (<) (filter ((<) 0) (delivered (ss_events s)))"
  using ordered.invariant [OF assms] by (simp add: in_order_def)

text \<open>C17: The cache a user reads is the cache they would compute from the events delivered to them:
  in every reachable state it is the result of folding the delivered events over the empty cache,
  so that no change reaches the cache without its event or the reverse.\<close>

theorem client_cache_replays_events:
  assumes "client_run bc t" "map_of (ct_state t) sub_id = Some s" "ss_cache s = Some c"
  shows "c = fold observe (ss_events s) lc_default"
  using observed.invariant [OF assms(1,2)] assms(3) by (simp add: cache_observed_def)

text \<open>A session: a subscription, its acceptance, a snapshot at position 7 and the same snapshot
  again.\<close>

definition demo_table_schema :: proto_schema where
  "demo_table_schema = \<lparr>ps_columns = [\<lparr>pc_name = ''id'', pc_type = 4, pc_nullable = False\<rparr>],
     ps_primary_key_columns = [0]\<rparr>"

definition demo_accepted :: proto_accepted where
  "demo_accepted = \<lparr>pa_subscription_id = ''sub-1'', pa_schema_id = 1, pa_snapshot_lsn = 7,
     pa_schema = Some demo_table_schema\<rparr>"

definition demo_initial :: proto_diff where
  "demo_initial = \<lparr>pd_subscription_id = ''sub-1'', pd_lsn = 7, pd_op = 1, pd_schema_id = 1,
     pd_rows = ''payload''\<rparr>"

definition demo_codec :: bincode where
  "demo_codec = demo_bincode [[WI64 5]]"

definition demo_subscribed :: connection_task where
  "demo_subscribed = snd (handle_command True (fst (subscribe_spec_with_cache 1 (QSql ''q'') [] True)) task_new)"

definition demo_session :: connection_task where
  "demo_session = dispatch_server demo_codec (Some (MsgDiff demo_initial))
     (dispatch_server demo_codec (Some (MsgDiff demo_initial))
       (dispatch_server demo_codec (Some (MsgAccepted demo_accepted)) demo_subscribed))"

lemma demo_subscribed_run: "client_run bc demo_subscribed"
  unfolding demo_subscribed_def by (rule client_run.step [OF client_run.start client_step.subscribe])

lemma client_run_server: "client_run bc t \<Longrightarrow> client_run bc (dispatch_server bc m t)"
  by (erule client_run.step) (rule client_step.server)

lemma demo_session_run: "client_run demo_codec demo_session"
  unfolding demo_session_def
  by (rule client_run_server [OF client_run_server [OF client_run_server [OF demo_subscribed_run]]])

definition demo_sub :: sub_state where
  "demo_sub = \<lparr>ss_query = QSql ''q'', ss_vars = [],
     ss_events = [Ok (CeAccepted 1 7 demo_table_schema), Ok (CeDiff 7 POpInitial [[WI64 5]])],
     ss_cache = Some \<lparr>lc_pk_columns = [0], lc_rows = [[WI64 5] \<mapsto> [WI64 5]]\<rparr>,
     ss_schema_id = Some 1, ss_last_seen_lsn = 7, ss_last_acked_lsn = None\<rparr>"

lemma demo_decode: "registry_decode demo_codec (registry_register 1 demo_table_schema []) demo_initial = Ok [[WI64 5]]"
  by (simp add: registry_decode_def registry_register_def demo_initial_def ok_or_def decode_diff_def
      wire_decode_rows_def demo_codec_def demo_bincode_def validate_row_def demo_table_schema_def
      declared_type_def datum_type_try_from_def proto_types_def wire_is_compatible_def)

lemma demo_subscribed_state: "ct_state demo_subscribed = [(''sub-1'',
    \<lparr>ss_query = QSql ''q'', ss_vars = [], ss_events = [], ss_cache = Some lc_default, ss_schema_id = None,
     ss_last_seen_lsn = 0, ss_last_acked_lsn = None\<rparr>)]" "ct_registry demo_subscribed = []"
  by (simp_all add: demo_subscribed_def subscribe_spec_with_cache_def task_new_def set_sub_def
      send_outbound_def Let_def digit_char_def show_nat.simps [of "Suc 0"] char_of_eq_iff)

lemma demo_session_sub: "map_of (ct_state demo_session) ''sub-1'' = Some demo_sub"
proof -
  let ?t1 = "handle_accepted demo_accepted demo_subscribed"
  let ?s1 = "demo_sub\<lparr>ss_events := [Ok (CeAccepted 1 7 demo_table_schema)],
    ss_cache := Some \<lparr>lc_pk_columns = [0], lc_rows = Map.empty\<rparr>, ss_last_seen_lsn := 0\<rparr>"
  have t1: "ct_state ?t1 = [(''sub-1'', ?s1)]" "ct_registry ?t1 = registry_register 1 demo_table_schema []"
    by (simp_all add: handle_accepted_def demo_accepted_def demo_subscribed_state set_sub_def
        push_event_def demo_sub_def for_schema_def demo_table_schema_def)
  let ?t2 = "handle_diff demo_codec demo_initial ?t1"
  have ids: "pd_subscription_id demo_initial = ''sub-1''" "pd_lsn demo_initial = 7" "pd_op demo_initial = 1"
    by (simp_all add: demo_initial_def)
  have t2: "ct_state ?t2 = [(''sub-1'', demo_sub)]"
    unfolding handle_diff_def ids t1
    by (simp add: demo_decode replayed_def demo_sub_def diff_op_try_from_def cache_apply_def
        cache_put_def cache_key_def row_key_def map_filter_def get_at_def set_sub_def push_event_def t1)
  have "handle_diff demo_codec demo_initial ?t2 = ?t2"
    unfolding handle_diff_def [of _ _ ?t2] ids t2 by (simp add: replayed_def demo_sub_def)
  then show ?thesis by (simp add: demo_session_def t2)
qed

theorem client_delivers_in_order_witness:
  "client_run demo_codec demo_session \<and> delivered (ss_events demo_sub) = [7]
   \<and> sorted_wrt (<) (filter ((<) 0) (delivered (ss_events demo_sub)))"
  using demo_session_run client_delivers_in_order [OF demo_session_run demo_session_sub]
  by (simp add: demo_sub_def delivered_def)

theorem client_cache_replays_events_witness:
  "client_run demo_codec demo_session
   \<and> \<lparr>lc_pk_columns = [0], lc_rows = [[WI64 5] \<mapsto> [WI64 5]]\<rparr> = fold observe (ss_events demo_sub) lc_default"
  using demo_session_run
  by (intro conjI client_cache_replays_events [OF demo_session_run demo_session_sub]) (simp_all add: demo_sub_def)

section \<open>A repeated acceptance\<close>

text \<open>A subscription that has received data and is accepted again, as after a reconnect, starts from
  an empty cache but keeps its last seen position: a fresh snapshot whose position is not beyond it
  is dropped as a replay, and the cache stays empty.\<close>

lemma reaccepted_snapshot_dropped:
  assumes "map_of (ct_state t) (pa_subscription_id a) = Some s" "ss_cache s = Some c"
    and "pa_schema a = Some sch" "0 < ss_last_seen_lsn s"
    and "pd_subscription_id d = pa_subscription_id a" "pd_lsn d \<le> ss_last_seen_lsn s"
  shows "\<exists>s'. map_of (ct_state (handle_diff bc d (handle_accepted a t))) (pa_subscription_id a) = Some s'
    \<and> ss_cache s' = Some (for_schema sch)"
proof -
  let ?s = "push_event (Ok (CeAccepted (pa_schema_id a) (pa_snapshot_lsn a) sch))
    (s\<lparr>ss_schema_id := Some (pa_schema_id a), ss_cache := map_option (\<lambda>_. for_schema sch) (ss_cache s)\<rparr>)"
  have *: "map_of (ct_state (handle_accepted a t)) (pa_subscription_id a) = Some ?s"
    using assms(1,3) by (simp add: handle_accepted_def set_sub_def update_conv')
  moreover have "replayed (pd_lsn d) ?s" using assms(4,6) by (simp add: replayed_def push_event_def)
  ultimately have "handle_diff bc d (handle_accepted a t) = handle_accepted a t"
    using assms(5) by (simp add: handle_diff_def)
  then show ?thesis using * assms(2) by (simp add: push_event_def)
qed

lemma reaccepted_snapshot_dropped_demo:
  "\<exists>s'. map_of (ct_state (handle_diff demo_codec demo_initial (handle_accepted demo_accepted demo_session)))
      ''sub-1'' = Some s' \<and> ss_cache s' = Some (for_schema demo_table_schema)"
  using reaccepted_snapshot_dropped [of demo_session demo_accepted demo_sub _ demo_table_schema demo_initial demo_codec]
    demo_session_sub by (simp add: demo_accepted_def demo_initial_def demo_sub_def)

end
