(* ===== verification/Client_Replica.thy ===== *)
theory Client_Replica
  imports Client_Connection
begin

text \<open>
  The local-first replica of the client: \<^verbatim>\<open>palimpsest-client/src/local/db.rs\<close> (table specifications
  and the storage trait), \<^verbatim>\<open>memory.rs\<close> (the in-memory store), \<^verbatim>\<open>reconcile.rs\<close> (the ledger of optimistic
  mutations) and \<^verbatim>\<open>replica.rs\<close> (mutations, the mirror pump and the completion of remote writes).
  The storage trait is a record of its operations; what the replica relies on is the locale
  \<open>reliable_store\<close>, interpreted on the in-memory store.
\<close>

section \<open>Table specifications and the storage trait\<close>

datatype local_db_error = Unsupported string | Execution string | Corrupt string

record table_spec =
  tsp_name :: string
  tsp_schema :: proto_schema

definition pk_indices :: "table_spec \<Rightarrow> nat list" where
  "pk_indices spec =
     (if ps_primary_key_columns (tsp_schema spec) = [] then [0..<length (ps_columns (tsp_schema spec))]
      else map unat (ps_primary_key_columns (tsp_schema spec)))"

definition key_of :: "table_spec \<Rightarrow> wire_row \<Rightarrow> primary_key" where
  "key_of spec r = row_key (pk_indices spec) r"

fun position :: "('a \<Rightarrow> bool) \<Rightarrow> 'a list \<Rightarrow> nat option" where
  "position p [] = None"
| "position p (x # xs) = (if p x then Some 0 else map_option Suc (position p xs))"

definition column_index :: "table_spec \<Rightarrow> string \<Rightarrow> nat option" where
  "column_index spec name = position (\<lambda>c. pc_name c = name) (ps_columns (tsp_schema spec))"

datatype local_write = Upsert wire_row | DeleteKey primary_key

text \<open>\<^verbatim>\<open>LocalDatabase\<close>: an operation that writes answers with its error, if any, and the new store.\<close>

record 'd local_database =
  db_ensure_table :: "table_spec \<Rightarrow> 'd \<Rightarrow> local_db_error option \<times> 'd"
  db_replace_rows :: "table_spec \<Rightarrow> wire_row list \<Rightarrow> 'd \<Rightarrow> local_db_error option \<times> 'd"
  db_apply_writes :: "table_spec \<Rightarrow> local_write list \<Rightarrow> 'd \<Rightarrow> local_db_error option \<times> 'd"
  db_get_row :: "table_spec \<Rightarrow> primary_key \<Rightarrow> 'd \<Rightarrow> local_db_error + wire_row option"

section \<open>The in-memory store\<close>

type_synonym mem_table = "primary_key \<rightharpoonup> wire_row"
type_synonym memory_database = "string \<rightharpoonup> mem_table"

definition mem_entry :: "string \<Rightarrow> memory_database \<Rightarrow> mem_table" where
  "mem_entry name d = (case d name of None \<Rightarrow> Map.empty | Some t \<Rightarrow> t)"

definition mem_ensure_table :: "table_spec \<Rightarrow> memory_database \<Rightarrow> local_db_error option \<times> memory_database" where
  "mem_ensure_table spec d = (None, d(tsp_name spec \<mapsto> mem_entry (tsp_name spec) d))"

definition mem_replace_rows ::
    "table_spec \<Rightarrow> wire_row list \<Rightarrow> memory_database \<Rightarrow> local_db_error option \<times> memory_database" where
  "mem_replace_rows spec rows d =
     (None, d(tsp_name spec \<mapsto> fold (\<lambda>r t. t(key_of spec r \<mapsto> r)) rows Map.empty))"

fun mem_write :: "table_spec \<Rightarrow> local_write \<Rightarrow> mem_table \<Rightarrow> mem_table" where
  "mem_write spec (Upsert r) t = t(key_of spec r \<mapsto> r)"
| "mem_write spec (DeleteKey k) t = t(k := None)"

definition mem_apply_writes ::
    "table_spec \<Rightarrow> local_write list \<Rightarrow> memory_database \<Rightarrow> local_db_error option \<times> memory_database" where
  "mem_apply_writes spec ws d = (None, d(tsp_name spec \<mapsto> fold (mem_write spec) ws (mem_entry (tsp_name spec) d)))"

definition mem_get_row :: "table_spec \<Rightarrow> primary_key \<Rightarrow> memory_database \<Rightarrow> local_db_error + wire_row option" where
  "mem_get_row spec k d = Inr (case d (tsp_name spec) of None \<Rightarrow> None | Some t \<Rightarrow> t k)"

definition memory_db :: "memory_database local_database" where
  "memory_db = \<lparr>db_ensure_table = mem_ensure_table, db_replace_rows = mem_replace_rows,
     db_apply_writes = mem_apply_writes, db_get_row = mem_get_row\<rparr>"

section \<open>The ledger of optimistic mutations\<close>

type_synonym mutation_token = u64

datatype resolved_kind =
    RInsert wire_row "nat list"
  | RUpdate "(nat \<times> wire_datum) list"
  | RDelete

record pending_op =
  op_token :: mutation_token
  op_key :: primary_key
  op_kind :: resolved_kind
  op_writer_done :: bool

record table_ledger =
  lg_base :: "primary_key \<rightharpoonup> wire_row option"
  lg_pending :: "pending_op list"

definition ledger_default :: table_ledger where
  "ledger_default = \<lparr>lg_base = Map.empty, lg_pending = []\<rparr>"

definition set_slot :: "nat \<times> wire_datum \<Rightarrow> wire_row \<Rightarrow> wire_row" where
  "set_slot s r = (if fst s < length r then r[fst s := snd s] else r)"

fun apply_kind :: "resolved_kind \<Rightarrow> wire_row option \<Rightarrow> wire_row option" where
  "apply_kind (RInsert new cols) r = Some new"
| "apply_kind (RUpdate slots) r = map_option (fold set_slot slots) r"
| "apply_kind RDelete r = None"

definition replay :: "table_ledger \<Rightarrow> primary_key \<Rightarrow> wire_row option" where
  "replay l k =
     fold (\<lambda>p. apply_kind (op_kind p)) (filter (\<lambda>p. op_key p = k) (lg_pending l))
       (case lg_base l k of None \<Rightarrow> None | Some r \<Rightarrow> r)"

definition has_pending :: "table_ledger \<Rightarrow> primary_key \<Rightarrow> bool" where
  "has_pending l k = (\<exists>p \<in> set (lg_pending l). op_key p = k)"

definition write_for :: "primary_key \<Rightarrow> table_ledger \<Rightarrow> local_write \<times> table_ledger" where
  "write_for k l =
     (case replay l k of Some r \<Rightarrow> Upsert r | None \<Rightarrow> DeleteKey k,
      if has_pending l k then l else l\<lparr>lg_base := (lg_base l)(k := None)\<rparr>)"

fun confirms :: "resolved_kind \<Rightarrow> wire_row option \<Rightarrow> bool" where
  "confirms (RInsert r cols) new_row =
     (case new_row of None \<Rightarrow> False | Some new \<Rightarrow> list_all (\<lambda>i. get_at new i = get_at r i) cols)"
| "confirms (RUpdate slots) new_row =
     (case new_row of None \<Rightarrow> False | Some new \<Rightarrow> list_all (\<lambda>(i, v). get_at new i = Some v) slots)"
| "confirms RDelete new_row = (new_row = None)"

record server_apply =
  sv_writes :: "local_write list"
  sv_settled :: "mutation_token list"
  sv_conflicted :: "mutation_token list"

definition server_apply_default :: server_apply where
  "server_apply_default = \<lparr>sv_writes = [], sv_settled = [], sv_conflicted = []\<rparr>"

definition remove_at :: "nat \<Rightarrow> 'a list \<Rightarrow> 'a list" where
  "remove_at i xs = take i xs @ drop (Suc i) xs"

lemma position_length: "position p xs = Some i \<Longrightarrow> i < length xs"
  by (induction xs arbitrary: i) (auto split: if_splits)

lemma length_remove_at: "i < length xs \<Longrightarrow> length (remove_at i xs) < length xs"
  by (simp add: remove_at_def)

text \<open>The loop of \<^verbatim>\<open>fold_change\<close>: it settles or drops the oldest mutation of the key until one survives.\<close>

function settle_loop :: "primary_key \<Rightarrow> wire_row option \<Rightarrow> table_ledger \<Rightarrow> server_apply
    \<Rightarrow> table_ledger \<times> server_apply" where
  "settle_loop k post l out =
     (case position (\<lambda>p. op_key p = k) (lg_pending l) of
        None \<Rightarrow> (l, out)
      | Some i \<Rightarrow>
          (let p = lg_pending l ! i;
               l' = l\<lparr>lg_pending := remove_at i (lg_pending l)\<rparr>
           in if confirms (op_kind p) post
              then settle_loop k post l' (out\<lparr>sv_settled := sv_settled out @ [op_token p]\<rparr>)
              else if op_writer_done p
              then settle_loop k post l' (out\<lparr>sv_conflicted := sv_conflicted out @ [op_token p]\<rparr>)
              else (l, out)))"
  by pat_completeness auto
termination
  by (relation "measure (\<lambda>(k, post, l, out). length (lg_pending l))")
    (auto dest: position_length length_remove_at)

declare settle_loop.simps [simp del]

definition fold_change :: "primary_key \<Rightarrow> wire_row option \<Rightarrow> table_ledger \<times> server_apply
    \<Rightarrow> table_ledger \<times> server_apply" where
  "fold_change k post s =
     (case s of (l, out) \<Rightarrow>
        if \<not> has_pending l k
        then (l, out\<lparr>sv_writes := sv_writes out @ [case post of Some r \<Rightarrow> Upsert r | None \<Rightarrow> DeleteKey k]\<rparr>)
        else (let (l1, out1) = settle_loop k post (l\<lparr>lg_base := (lg_base l)(k \<mapsto> post)\<rparr>) out;
                  (w, l2) = write_for k l1
              in (l2, out1\<lparr>sv_writes := sv_writes out1 @ [w]\<rparr>)))"

type_synonym reconciler = "(string \<times> table_ledger) list"

definition ledger_of :: "reconciler \<Rightarrow> string \<Rightarrow> table_ledger" where
  "ledger_of rc table = (case map_of rc table of None \<Rightarrow> ledger_default | Some l \<Rightarrow> l)"

definition stage :: "string \<Rightarrow> mutation_token \<Rightarrow> primary_key \<Rightarrow> resolved_kind \<Rightarrow> wire_row option
    \<Rightarrow> reconciler \<Rightarrow> local_write list \<times> reconciler" where
  "stage table token k kind current rc =
     (let l = ledger_of rc table;
          l1 = (if has_pending l k then l else l\<lparr>lg_base := (lg_base l)(k \<mapsto> current)\<rparr>);
          l2 = l1\<lparr>lg_pending := lg_pending l1 @
            [\<lparr>op_token = token, op_key = k, op_kind = kind, op_writer_done = False\<rparr>]\<rparr>;
          (w, l3) = write_for k l2
      in ([w], AList.update table l3 rc))"

definition fold_row_change :: "(wire_row \<Rightarrow> primary_key) \<Rightarrow> wire_row_change
    \<Rightarrow> table_ledger \<times> server_apply \<Rightarrow> table_ledger \<times> server_apply" where
  "fold_row_change kf ch s =
     (let old_key = map_option kf (wrc_old ch);
          new_key = map_option kf (wrc_new ch)
      in case (old_key, new_key) of
           (Some ok, Some nk) \<Rightarrow>
             if ok \<noteq> nk then fold_change nk (wrc_new ch) (fold_change ok None s)
             else if wrc_op ch = POpDelete then fold_change ok None s
             else fold_change nk (wrc_new ch) s
         | (Some ok, None) \<Rightarrow> fold_change ok None s
         | (None, Some nk) \<Rightarrow> if wrc_op ch = POpDelete then fold_change nk None s
                              else fold_change nk (wrc_new ch) s
         | (None, None) \<Rightarrow> s)"

definition apply_server_changes :: "string \<Rightarrow> wire_row_change list \<Rightarrow> (wire_row \<Rightarrow> primary_key)
    \<Rightarrow> reconciler \<Rightarrow> server_apply \<times> reconciler" where
  "apply_server_changes table changes kf rc =
     (let (l, out) = fold (fold_row_change kf) changes (ledger_of rc table, server_apply_default)
      in (out, AList.update table l rc))"

text \<open>\<^verbatim>\<open>apply_initial\<close>; the hash set of pending keys is visited in an unspecified order, here the order
  of the ledger.\<close>

definition pending_keys :: "table_ledger \<Rightarrow> primary_key list" where
  "pending_keys l = remdups (map op_key (lg_pending l))"

definition initial_row :: "(wire_row \<Rightarrow> primary_key) \<Rightarrow> primary_key list \<Rightarrow> wire_row
    \<Rightarrow> table_ledger \<times> wire_row list \<Rightarrow> table_ledger \<times> wire_row list" where
  "initial_row kf keys r s =
     (case s of (l, visible) \<Rightarrow>
        if kf r \<in> set keys then (l\<lparr>lg_base := (lg_base l)(kf r \<mapsto> Some r)\<rparr>, visible)
        else (l, visible @ [r]))"

definition apply_initial :: "string \<Rightarrow> wire_row list \<Rightarrow> (wire_row \<Rightarrow> primary_key)
    \<Rightarrow> reconciler \<Rightarrow> wire_row list \<times> reconciler" where
  "apply_initial table rows kf rc =
     (let l = ledger_of rc table;
          keys = pending_keys l;
          l1 = l\<lparr>lg_base := map_of (map (\<lambda>k. (k, None)) keys)\<rparr>;
          (l2, visible) = fold (initial_row kf keys) rows (l1, [])
      in (visible @ List.map_filter (replay l2) keys, AList.update table l2 rc))"

record writer_apply =
  wa_writes :: "local_write list"
  wa_table :: "string option"

fun find_token :: "mutation_token \<Rightarrow> reconciler \<Rightarrow> (string \<times> table_ledger \<times> nat) option" where
  "find_token token [] = None"
| "find_token token ((name, l) # rest) =
     (case position (\<lambda>p. op_token p = token) (lg_pending l) of
        None \<Rightarrow> find_token token rest
      | Some i \<Rightarrow> Some (name, l, i))"

definition writer_finished :: "mutation_token \<Rightarrow> bool \<Rightarrow> reconciler \<Rightarrow> writer_apply \<times> reconciler" where
  "writer_finished token ok rc =
     (case find_token token rc of
        None \<Rightarrow> (\<lparr>wa_writes = [], wa_table = None\<rparr>, rc)
      | Some (name, l, i) \<Rightarrow>
          if ok
          then (\<lparr>wa_writes = [], wa_table = Some name\<rparr>,
                AList.update name (l\<lparr>lg_pending := (lg_pending l)[i := (lg_pending l ! i)\<lparr>op_writer_done := True\<rparr>]\<rparr>) rc)
          else (let (w, l') = write_for (op_key (lg_pending l ! i)) (l\<lparr>lg_pending := remove_at i (lg_pending l)\<rparr>)
                in (\<lparr>wa_writes = [w], wa_table = Some name\<rparr>, AList.update name l' rc)))"

definition pending_count :: "reconciler \<Rightarrow> string \<Rightarrow> nat" where
  "pending_count rc table = (case map_of rc table of None \<Rightarrow> 0 | Some l \<Rightarrow> length (lg_pending l))"

section \<open>Mutations\<close>

datatype mutation =
    MInsert string "(string \<times> wire_datum) list"
  | MUpdate string "(string \<times> wire_datum) list" "(string \<times> wire_datum) list"
  | MDelete string "(string \<times> wire_datum) list"

fun mutation_table :: "mutation \<Rightarrow> string" where
  "mutation_table (MInsert table vs) = table"
| "mutation_table (MUpdate table ks vs) = table"
| "mutation_table (MDelete table ks) = table"

datatype mutate_error =
    NoWriter
  | TableNotReady string
  | UnknownColumn string
  | MissingKeyColumn string
  | KeyColumnUpdate string
  | Db local_db_error

fun insert_values :: "table_spec \<Rightarrow> (string \<times> wire_datum) list \<Rightarrow> wire_row \<Rightarrow> nat list
    \<Rightarrow> (wire_row \<times> nat list, mutate_error) result" where
  "insert_values spec [] r cols = Ok (r, cols)"
| "insert_values spec ((name, v) # rest) r cols =
     (case column_index spec name of
        None \<Rightarrow> Err (UnknownColumn name)
      | Some i \<Rightarrow> insert_values spec rest (r[i := v]) (cols @ [i]))"

definition column_name_at :: "table_spec \<Rightarrow> nat \<Rightarrow> string" where
  "column_name_at spec i =
     (case get_at (ps_columns (tsp_schema spec)) i of None \<Rightarrow> [] | Some c \<Rightarrow> pc_name c)"

fun require_keys :: "table_spec \<Rightarrow> nat list \<Rightarrow> nat list \<Rightarrow> (unit, mutate_error) result" where
  "require_keys spec cols [] = Ok ()"
| "require_keys spec cols (i # is) =
     (if i \<in> set cols then require_keys spec cols is else Err (MissingKeyColumn (column_name_at spec i)))"

fun known_columns :: "table_spec \<Rightarrow> (string \<times> wire_datum) list \<Rightarrow> (unit, mutate_error) result" where
  "known_columns spec [] = Ok ()"
| "known_columns spec ((name, v) # rest) =
     (if column_index spec name = None then Err (UnknownColumn name) else known_columns spec rest)"

definition resolve_key :: "table_spec \<Rightarrow> (string \<times> wire_datum) list \<Rightarrow> (primary_key, mutate_error) result" where
  "resolve_key spec kvs =
     rbind (known_columns spec kvs) (\<lambda>_.
       mapr (\<lambda>i. ok_or (MissingKeyColumn (column_name_at spec i)) (map_of kvs (column_name_at spec i)))
         (pk_indices spec))"

fun resolve_set :: "table_spec \<Rightarrow> (string \<times> wire_datum) list \<Rightarrow> ((nat \<times> wire_datum) list, mutate_error) result" where
  "resolve_set spec [] = Ok []"
| "resolve_set spec ((name, v) # rest) =
     (case column_index spec name of
        None \<Rightarrow> Err (UnknownColumn name)
      | Some i \<Rightarrow>
          if i \<in> set (pk_indices spec) then Err (KeyColumnUpdate name)
          else rmap ((#) (i, v)) (resolve_set spec rest))"

fun resolve_mutation :: "table_spec \<Rightarrow> mutation \<Rightarrow> (primary_key \<times> resolved_kind, mutate_error) result" where
  "resolve_mutation spec (MInsert table vs) =
     rbind (insert_values spec vs (replicate (length (ps_columns (tsp_schema spec))) WNull) []) (\<lambda>(r, cols).
     rbind (require_keys spec cols (pk_indices spec)) (\<lambda>_. Ok (key_of spec r, RInsert r cols)))"
| "resolve_mutation spec (MUpdate table kvs vs) =
     rbind (resolve_key spec kvs) (\<lambda>pk. rbind (resolve_set spec vs) (\<lambda>slots. Ok (pk, RUpdate slots)))"
| "resolve_mutation spec (MDelete table kvs) =
     rbind (resolve_key spec kvs) (\<lambda>pk. Ok (pk, RDelete))"

section \<open>The replica\<close>

datatype table_sync_state =
    Connecting | Snapshotting | Live u64 | Resyncing | Errored string

datatype replica_event =
    TableState string table_sync_state
  | Applied string u64
  | MutationSettled mutation_token string
  | MutationConflicted mutation_token string
  | MutationFailed mutation_token string string
  | MirrorError string string string

text \<open>The replica's shared state with, per mirror, the pump's flag \<^verbatim>\<open>replace_on_initial\<close>, the commands
  the pumps sent on their subscriptions and the notifications.\<close>

datatype pump_command = PumpAck string u64 | PumpUpdate string

record 'd replica =
  rp_db :: 'd
  rp_reconciler :: reconciler
  rp_specs :: "string \<rightharpoonup> table_spec"
  rp_next_token :: mutation_token
  rp_states :: "string \<rightharpoonup> table_sync_state"
  rp_replace :: "string \<Rightarrow> bool"
  rp_commands :: "pump_command list"
  rp_events :: "replica_event list"

definition replica_new :: "'d \<Rightarrow> string list \<Rightarrow> 'd replica" where
  "replica_new d mirrors = \<lparr>rp_db = d, rp_reconciler = [], rp_specs = Map.empty, rp_next_token = 1,
     rp_states = map_of (map (\<lambda>m. (m, Connecting)) mirrors), rp_replace = (\<lambda>_. True),
     rp_commands = [], rp_events = []\<rparr>"

definition emit :: "replica_event \<Rightarrow> 'd replica \<Rightarrow> 'd replica" where
  "emit e rp = rp\<lparr>rp_events := rp_events rp @ [e]\<rparr>"

definition set_state :: "string \<Rightarrow> table_sync_state \<Rightarrow> 'd replica \<Rightarrow> 'd replica" where
  "set_state table st rp = emit (TableState table st) (rp\<lparr>rp_states := (rp_states rp)(table \<mapsto> st)\<rparr>)"

definition send_command :: "pump_command \<Rightarrow> 'd replica \<Rightarrow> 'd replica" where
  "send_command c rp = rp\<lparr>rp_commands := rp_commands rp @ [c]\<rparr>"

definition mutate :: "'d local_database \<Rightarrow> bool \<Rightarrow> mutation \<Rightarrow> 'd replica
    \<Rightarrow> (mutation_token, mutate_error) result \<times> 'd replica" where
  "mutate db has_writer m rp =
     (if \<not> has_writer then (Err NoWriter, rp)
      else case rp_specs rp (mutation_table m) of
        None \<Rightarrow> (Err (TableNotReady (mutation_table m)), rp)
      | Some spec \<Rightarrow>
          (case resolve_mutation spec m of
             Err e \<Rightarrow> (Err e, rp)
           | Panic \<Rightarrow> (Panic, rp)
           | Ok (k, kind) \<Rightarrow>
               (case db_get_row db spec k (rp_db rp) of
                  Inl e \<Rightarrow> (Err (Db e), rp)
                | Inr current \<Rightarrow>
                    (let token = rp_next_token rp;
                         (ws, rc) = stage (mutation_table m) token k kind current (rp_reconciler rp);
                         (failure, d) = db_apply_writes db spec ws (rp_db rp);
                         rp' = rp\<lparr>rp_next_token := token + 1, rp_db := d\<rparr>
                     in case failure of
                          Some e \<Rightarrow> (Err (Db e), rp'\<lparr>rp_reconciler := snd (writer_finished token False rc)\<rparr>)
                        | None \<Rightarrow> (Ok token, rp'\<lparr>rp_reconciler := rc\<rparr>)))))"

text \<open>The task that \<^verbatim>\<open>mutate\<close> spawns, once the remote writer has answered.\<close>

definition write_finished :: "'d local_database \<Rightarrow> mutation_token \<Rightarrow> string option \<Rightarrow> 'd replica \<Rightarrow> 'd replica" where
  "write_finished db token failure rp =
     (let (wa, rc) = writer_finished token (failure = None) (rp_reconciler rp);
          rp1 = rp\<lparr>rp_reconciler := rc\<rparr>
      in case wa_table wa of
           None \<Rightarrow> rp1
         | Some table \<Rightarrow>
             (let rp2 = (if wa_writes wa = [] then rp1
                         else case rp_specs rp1 table of
                                None \<Rightarrow> rp1
                              | Some spec \<Rightarrow> rp1\<lparr>rp_db := snd (db_apply_writes db spec (wa_writes wa) (rp_db rp1))\<rparr>)
              in case failure of
                   None \<Rightarrow> rp2
                 | Some e \<Rightarrow> emit (MutationFailed token table e) rp2))"

fun change_of_row :: "proto_diff_op \<Rightarrow> wire_row \<Rightarrow> wire_row_change option" where
  "change_of_row POpInitial r = Some \<lparr>wrc_op = POpInsert, wrc_old = None, wrc_new = Some r\<rparr>"
| "change_of_row POpInsert r = Some \<lparr>wrc_op = POpInsert, wrc_old = None, wrc_new = Some r\<rparr>"
| "change_of_row POpUpdate r = Some \<lparr>wrc_op = POpUpdate, wrc_old = None, wrc_new = Some r\<rparr>"
| "change_of_row POpDelete r = Some \<lparr>wrc_op = POpDelete, wrc_old = Some r, wrc_new = None\<rparr>"
| "change_of_row POpUnspecified r = None"

definition diff_to_changes :: "proto_diff_op \<Rightarrow> wire_row list \<Rightarrow> wire_row_change list" where
  "diff_to_changes op rows = List.map_filter (change_of_row op) rows"

fun db_error_text :: "local_db_error \<Rightarrow> string" where
  "db_error_text (Unsupported s) = ''unsupported by this local database: '' @ s"
| "db_error_text (Execution s) = ''local execution failed: '' @ s"
| "db_error_text (Corrupt s) = ''local state corrupt: '' @ s"

definition finish_batch :: "string \<Rightarrow> u64 \<Rightarrow> local_db_error option \<Rightarrow> 'd replica \<Rightarrow> 'd replica" where
  "finish_batch table at failure rp =
     (case failure of
        None \<Rightarrow> send_command (PumpAck table at) (emit (Applied table at) (set_state table (Live at) rp))
      | Some e \<Rightarrow>
          send_command (PumpUpdate table)
            (set_state table (Errored (''local apply failed: '' @ db_error_text e))
              (rp\<lparr>rp_replace := (rp_replace rp)(table := True)\<rparr>)))"

definition apply_changes :: "'d local_database \<Rightarrow> string \<Rightarrow> u64 \<Rightarrow> wire_row_change list \<Rightarrow> 'd replica \<Rightarrow> 'd replica" where
  "apply_changes db table at changes rp =
     (case rp_specs rp table of
        None \<Rightarrow> rp
      | Some spec \<Rightarrow>
          (let (out, rc) = apply_server_changes table changes (key_of spec) (rp_reconciler rp);
               (failure, d) = db_apply_writes db spec (sv_writes out) (rp_db rp);
               rp1 = rp\<lparr>rp_reconciler := rc, rp_db := d\<rparr>;
               rp2 = fold (\<lambda>t. emit (MutationSettled t table)) (sv_settled out) rp1;
               rp3 = fold (\<lambda>t. emit (MutationConflicted t table)) (sv_conflicted out) rp2
           in finish_batch table at failure rp3))"

text \<open>One event of a mirror's subscription; \<open>error_text\<close> renders an error of the connection.\<close>

definition pump_event :: "'d local_database \<Rightarrow> (client_error \<Rightarrow> string) \<Rightarrow> string
    \<Rightarrow> (client_event, client_error) result \<Rightarrow> 'd replica \<Rightarrow> 'd replica" where
  "pump_event db error_text table ev rp =
     (case ev of
        Ok (CeAccepted i at sch) \<Rightarrow>
          (let spec = \<lparr>tsp_name = table, tsp_schema = sch\<rparr>;
               (failure, d) = db_ensure_table db spec (rp_db rp);
               rp1 = rp\<lparr>rp_db := d\<rparr>
           in case failure of
                Some e \<Rightarrow> set_state table (Errored (''creating local table: '' @ db_error_text e)) rp1
              | None \<Rightarrow> set_state table Snapshotting
                  (rp1\<lparr>rp_specs := (rp_specs rp1)(table \<mapsto> spec), rp_replace := (rp_replace rp1)(table := True)\<rparr>))
      | Ok (CeDiff at op rows) \<Rightarrow>
          if op = POpInitial \<and> rp_replace rp table
          then (let rp1 = rp\<lparr>rp_replace := (rp_replace rp)(table := False)\<rparr>
                in case rp_specs rp1 table of
                     None \<Rightarrow> rp1
                   | Some spec \<Rightarrow>
                       (let (visible, rc) = apply_initial table rows (key_of spec) (rp_reconciler rp1);
                            (failure, d) = db_replace_rows db spec visible (rp_db rp1)
                        in finish_batch table at failure (rp1\<lparr>rp_reconciler := rc, rp_db := d\<rparr>)))
          else apply_changes db table at (diff_to_changes op rows) rp
      | Ok (CeTransaction at b e x changes) \<Rightarrow> apply_changes db table at changes rp
      | Ok (CeResync reason m) \<Rightarrow>
          send_command (PumpUpdate table)
            (set_state table Resyncing (rp\<lparr>rp_replace := (rp_replace rp)(table := True)\<rparr>))
      | Ok (CeError code m) \<Rightarrow>
          emit (MirrorError table code m) (set_state table (Errored (code @ '': '' @ m)) rp)
      | Err e \<Rightarrow> set_state table (Errored (error_text e)) rp
      | Panic \<Rightarrow> rp)"


section \<open>What is visible: the server's table under the pending mutations\<close>

type_synonym table_view = "primary_key \<rightharpoonup> wire_row"

definition overlay :: "table_view \<Rightarrow> pending_op list \<Rightarrow> table_view" where
  "overlay A ps k = fold (\<lambda>p. apply_kind (op_kind p)) (filter (\<lambda>p. op_key p = k) ps) (A k)"

fun kind_wf :: "table_spec \<Rightarrow> primary_key \<Rightarrow> resolved_kind \<Rightarrow> bool" where
  "kind_wf spec k (RInsert r cols) = (key_of spec r = k)"
| "kind_wf spec k (RUpdate slots) = (\<forall>s \<in> set slots. fst s \<notin> set (pk_indices spec))"
| "kind_wf spec k RDelete = True"

definition pending_wf :: "table_spec \<Rightarrow> pending_op list \<Rightarrow> bool" where
  "pending_wf spec ps = (\<forall>p \<in> set ps. kind_wf spec (op_key p) (op_kind p))"

definition keyed :: "table_spec \<Rightarrow> table_view \<Rightarrow> bool" where
  "keyed spec A = (\<forall>k r. A k = Some r \<longrightarrow> key_of spec r = k)"

definition base_ok :: "table_view \<Rightarrow> table_ledger \<Rightarrow> bool" where
  "base_ok A l = (\<forall>k. has_pending l k \<longrightarrow> lg_base l k = Some (A k))"

definition table_inv :: "table_spec \<Rightarrow> table_view \<Rightarrow> table_ledger \<Rightarrow> table_view \<Rightarrow> bool" where
  "table_inv spec A l V = (keyed spec A \<and> pending_wf spec (lg_pending l) \<and> base_ok A l
     \<and> V = overlay A (lg_pending l))"

lemma overlay_Nil [simp]: "overlay A [] = A"
  by (rule ext) (simp add: overlay_def)

lemma overlay_no_op: "\<forall>p \<in> set ps. op_key p \<noteq> k \<Longrightarrow> overlay A ps k = A k"
  by (simp add: overlay_def filter_empty_conv)

lemma overlay_cong: "filter (\<lambda>p. op_key p = k) ps = filter (\<lambda>p. op_key p = k) qs \<Longrightarrow> A k = B k \<Longrightarrow>
    overlay A ps k = overlay B qs k"
  by (simp add: overlay_def)

lemma replay_overlay: "lg_base l k = Some (A k) \<Longrightarrow> replay l k = overlay A (lg_pending l) k"
  by (simp add: replay_def overlay_def)

lemma get_at_set_slot: "i \<noteq> fst s \<Longrightarrow> get_at (set_slot s r) i = get_at r i"
  by (auto simp: get_at_def set_slot_def)

lemma row_key_cong: "(\<And>i. i \<in> set cols \<Longrightarrow> get_at r i = get_at r' i) \<Longrightarrow> row_key cols r = row_key cols r'"
  by (induction cols) (auto simp: row_key_def map_filter_simps split: option.split)

lemma key_of_set_slots:
  "\<forall>s \<in> set slots. fst s \<notin> set (pk_indices spec) \<Longrightarrow> key_of spec (fold set_slot slots r) = key_of spec r"
proof (induction slots arbitrary: r)
  case (Cons s slots)
  have "key_of spec (set_slot s r) = key_of spec r"
    unfolding key_of_def by (rule row_key_cong, rule get_at_set_slot) (use Cons.prems in auto)
  then show ?case using Cons by simp
qed simp

lemma kind_wf_keyed:
  "kind_wf spec k kind \<Longrightarrow> (\<And>r. x = Some r \<Longrightarrow> key_of spec r = k) \<Longrightarrow>
   apply_kind kind x = Some r \<Longrightarrow> key_of spec r = k"
  by (cases kind) (auto simp: key_of_set_slots)

lemma overlay_keyed:
  assumes "keyed spec A" "pending_wf spec ps"
  shows "keyed spec (overlay A ps)"
proof -
  have step: "key_of spec r = k"
    if "fold (\<lambda>p. apply_kind (op_kind p)) qs x = Some r" "\<forall>q \<in> set qs. kind_wf spec k (op_kind q)"
      "\<And>r. x = Some r \<Longrightarrow> key_of spec r = k" for qs x r k
    using that
  proof (induction qs arbitrary: x)
    case (Cons q qs)
    have "key_of spec r' = k" if "apply_kind (op_kind q) x = Some r'" for r'
      using kind_wf_keyed [of spec k "op_kind q" x r'] Cons.prems that by simp
    then show ?case using Cons.IH [of "apply_kind (op_kind q) x"] Cons.prems by simp
  qed simp
  show ?thesis
    unfolding keyed_def overlay_def
  proof (intro allI impI, erule step)
    show "\<forall>q \<in> set (filter (\<lambda>p. op_key p = k) ps). kind_wf spec k (op_kind q)" for k
      using assms(2) by (auto simp: pending_wf_def)
  qed (use assms(1) in \<open>simp add: keyed_def\<close>)
qed

text \<open>The write of \<open>write_for\<close> makes one key of the visible table match the ledger.\<close>

lemma write_for_view:
  assumes "lg_base l k = Some (A k)" "keyed spec A" "pending_wf spec (lg_pending l)"
  shows "mem_write spec (fst (write_for k l)) V = V(k := overlay A (lg_pending l) k)"
  using overlay_keyed [OF assms(2,3)] replay_overlay [of l k A] assms(1)
  by (auto simp: write_for_def keyed_def split: option.split)

lemma write_for_pending [simp]: "lg_pending (snd (write_for k l)) = lg_pending l"
  by (simp add: write_for_def)

lemma has_pending_write_for [simp]: "has_pending (snd (write_for k l)) k' = has_pending l k'"
  by (simp add: has_pending_def)

lemma base_ok_write_for: "base_ok A l \<Longrightarrow> base_ok A (snd (write_for k l))"
  by (auto simp: base_ok_def write_for_def has_pending_def)

lemma table_inv_write:
  assumes "keyed spec A" "pending_wf spec (lg_pending l)" "base_ok A l" "lg_base l k = Some (A k)"
    and "\<And>k'. k' \<noteq> k \<Longrightarrow> V k' = overlay A (lg_pending l) k'"
  shows "table_inv spec A (snd (write_for k l)) (mem_write spec (fst (write_for k l)) V)"
proof -
  have "V(k := overlay A (lg_pending l) k) = overlay A (lg_pending l)" using assms(5) by auto
  then show ?thesis using assms by (simp add: table_inv_def base_ok_write_for write_for_view)
qed

lemma stage_table_inv:
  fixes token :: mutation_token
  assumes inv: "table_inv spec A l V" and wf: "kind_wf spec k kind"
  defines "l1 \<equiv> (if has_pending l k then l else l\<lparr>lg_base := (lg_base l)(k \<mapsto> V k)\<rparr>)"
  defines "l2 \<equiv> l1\<lparr>lg_pending := lg_pending l1 @
    [\<lparr>op_token = token, op_key = k, op_kind = kind, op_writer_done = False\<rparr>]\<rparr>"
  shows "table_inv spec A (snd (write_for k l2)) (mem_write spec (fst (write_for k l2)) V)"
proof (rule table_inv_write)
  have pend: "lg_pending l2 = lg_pending l @ [\<lparr>op_token = token, op_key = k, op_kind = kind, op_writer_done = False\<rparr>]"
    by (simp add: l2_def l1_def)
  show "keyed spec A" using inv by (simp add: table_inv_def)
  show "pending_wf spec (lg_pending l2)" using inv wf by (auto simp: table_inv_def pend pending_wf_def)
  have V: "V = overlay A (lg_pending l)" and b: "base_ok A l" using inv by (simp_all add: table_inv_def)
  show base: "lg_base l2 k = Some (A k)"
  proof (cases "has_pending l k")
    case False
    then have "V k = A k" unfolding V by (intro overlay_no_op) (auto simp: has_pending_def)
    then show ?thesis using False by (simp add: l2_def l1_def)
  qed (use b in \<open>simp add: l2_def l1_def base_ok_def\<close>)
  show "base_ok A l2"
    unfolding base_ok_def
  proof (intro allI impI)
    fix k' assume "has_pending l2 k'"
    then have "has_pending l k'" if "k' \<noteq> k" using that by (auto simp: has_pending_def pend)
    moreover have "lg_base l2 k' = lg_base l k'" if "k' \<noteq> k" using that by (simp add: l2_def l1_def)
    ultimately show "lg_base l2 k' = Some (A k')" using b base by (cases "k' = k") (simp_all add: base_ok_def)
  qed
  show "V k' = overlay A (lg_pending l2) k'" if "k' \<noteq> k" for k'
    using that by (simp add: V pend overlay_def)
qed

text \<open>The settlement loop removes operations of its key only, oldest first.\<close>

lemma filter_remove_at:
  "position p xs = Some i \<Longrightarrow> filter (\<lambda>x. \<not> p x) (remove_at i xs) = filter (\<lambda>x. \<not> p x) xs"
  by (induction xs arbitrary: i) (auto simp: remove_at_def split: if_splits)

lemma position_holds: "position p xs = Some i \<Longrightarrow> p (xs ! i)"
  by (induction xs arbitrary: i) (auto split: if_splits)

lemma position_None: "position p xs = None \<longleftrightarrow> (\<forall>x \<in> set xs. \<not> p x)"
  by (induction xs) auto

lemma set_remove_at: "set (remove_at i xs) \<subseteq> set xs"
  by (auto simp: remove_at_def dest: in_set_takeD in_set_dropD)

lemma settle_loop_props:
  "lg_base (fst (settle_loop k post l out)) = lg_base l
   \<and> filter (\<lambda>p. op_key p \<noteq> k) (lg_pending (fst (settle_loop k post l out))) = filter (\<lambda>p. op_key p \<noteq> k) (lg_pending l)
   \<and> set (lg_pending (fst (settle_loop k post l out))) \<subseteq> set (lg_pending l)
   \<and> sv_writes (snd (settle_loop k post l out)) = sv_writes out"
proof (induction k post l out rule: settle_loop.induct)
  case (1 k post l out)
  show ?case
  proof (cases "position (\<lambda>p. op_key p = k) (lg_pending l)")
    case None
    then show ?thesis by (subst (1 2 3 4) settle_loop.simps) simp
  next
    case (Some i)
    note IH = "1.IH" [OF Some refl refl]
    have f: "filter (\<lambda>p. op_key p \<noteq> k) (remove_at i (lg_pending l)) = filter (\<lambda>p. op_key p \<noteq> k) (lg_pending l)"
      by (rule filter_remove_at [OF Some])
    have s: "set (remove_at i (lg_pending l)) \<subseteq> set (lg_pending l)" by (rule set_remove_at)
    show ?thesis
      using IH f s by (subst (1 2 3 4) settle_loop.simps) (auto simp: Some Let_def)
  qed
qed

lemma filter_other_key:
  assumes "filter (\<lambda>p. op_key p \<noteq> k) ps = filter (\<lambda>p. op_key p \<noteq> k) qs" "k' \<noteq> k"
  shows "filter (\<lambda>p. op_key p = k') ps = filter (\<lambda>p. op_key p = k') qs"
proof -
  have "filter (\<lambda>p. op_key p = k') (filter (\<lambda>p. op_key p \<noteq> k) rs) = filter (\<lambda>p. op_key p = k') rs" for rs
    using assms(2) by (auto simp: filter_filter intro!: filter_cong)
  then show ?thesis using assms(1) by metis
qed

definition view_writes :: "table_spec \<Rightarrow> local_write list \<Rightarrow> table_view \<Rightarrow> table_view" where
  "view_writes spec ws V = fold (mem_write spec) ws V"

lemma view_writes_append [simp]: "view_writes spec (ws @ [w]) V = mem_write spec w (view_writes spec ws V)"
  by (simp add: view_writes_def)

lemma keyed_update: "keyed spec A \<Longrightarrow> (\<And>r. post = Some r \<Longrightarrow> key_of spec r = k) \<Longrightarrow> keyed spec (A(k := post))"
  by (auto simp: keyed_def)

lemma fold_change_inv:
  assumes inv: "table_inv spec A l (view_writes spec (sv_writes out) V)"
    and post: "\<And>r. post = Some r \<Longrightarrow> key_of spec r = k"
  shows "table_inv spec (A(k := post)) (fst (fold_change k post (l, out)))
    (view_writes spec (sv_writes (snd (fold_change k post (l, out)))) V)"
proof (cases "has_pending l k")
  case False
  have "overlay A (lg_pending l) k' = overlay (A(k := post)) (lg_pending l) k'" if "k' \<noteq> k" for k'
    using that by (simp add: overlay_def)
  moreover have "overlay (A(k := post)) (lg_pending l) k = post"
    using False by (subst overlay_no_op) (auto simp: has_pending_def)
  ultimately have "(overlay A (lg_pending l))(k := post) = overlay (A(k := post)) (lg_pending l)" by auto
  moreover have "mem_write spec (case post of None \<Rightarrow> DeleteKey k | Some r \<Rightarrow> Upsert r) W = W(k := post)" for W
    using post by (cases post) auto
  moreover have "base_ok (A(k := post)) l" using inv False by (auto simp: table_inv_def base_ok_def)
  ultimately show ?thesis
    using inv False post by (simp add: fold_change_def table_inv_def keyed_update)
next
  case True
  let ?l = "l\<lparr>lg_base := (lg_base l)(k \<mapsto> post)\<rparr>" and ?A = "A(k := post)"
  obtain l1 out1 where sl: "settle_loop k post ?l out = (l1, out1)" by (cases "settle_loop k post ?l out")
  have p: "lg_base l1 = (lg_base l)(k \<mapsto> post)"
    "filter (\<lambda>p. op_key p \<noteq> k) (lg_pending l1) = filter (\<lambda>p. op_key p \<noteq> k) (lg_pending l)"
    "set (lg_pending l1) \<subseteq> set (lg_pending l)" "sv_writes out1 = sv_writes out"
    using settle_loop_props [of k post ?l out] by (simp_all add: sl)
  have "table_inv spec ?A (snd (write_for k l1)) (mem_write spec (fst (write_for k l1)) (view_writes spec (sv_writes out) V))"
  proof (rule table_inv_write)
    show "keyed spec ?A" using inv post by (simp add: table_inv_def keyed_update)
    show "pending_wf spec (lg_pending l1)" using inv p(3) by (auto simp: table_inv_def pending_wf_def)
    show "base_ok ?A l1" using inv p(1,3) by (auto simp: table_inv_def base_ok_def has_pending_def)
    show "lg_base l1 k = Some (?A k)" by (simp add: p)
    show "view_writes spec (sv_writes out) V k' = overlay ?A (lg_pending l1) k'" if "k' \<noteq> k" for k'
      using inv overlay_cong [OF filter_other_key [OF p(2) that], of ?A A] that by (simp add: table_inv_def)
  qed
  then show ?thesis using True p(4) by (simp add: fold_change_def sl split_beta)
qed

text \<open>What a change of the server means for its table.\<close>

definition server_change :: "table_spec \<Rightarrow> wire_row_change \<Rightarrow> table_view \<Rightarrow> table_view" where
  "server_change spec ch A =
     (case (wrc_old ch, wrc_new ch) of
        (Some old, Some new) \<Rightarrow>
          if key_of spec old = key_of spec new \<and> wrc_op ch = POpDelete then A(key_of spec old := None)
          else (A(key_of spec old := None))(key_of spec new \<mapsto> new)
      | (Some old, None) \<Rightarrow> A(key_of spec old := None)
      | (None, Some new) \<Rightarrow> if wrc_op ch = POpDelete then A(key_of spec new := None) else A(key_of spec new \<mapsto> new)
      | (None, None) \<Rightarrow> A)"

lemma fold_row_change_inv:
  assumes inv: "table_inv spec A (fst s) (view_writes spec (sv_writes (snd s)) V)"
  shows "table_inv spec (server_change spec ch A) (fst (fold_row_change (key_of spec) ch s))
    (view_writes spec (sv_writes (snd (fold_row_change (key_of spec) ch s))) V)"
proof -
  have step: "table_inv spec (B(k := post)) (fst (fold_change k post s'))
      (view_writes spec (sv_writes (snd (fold_change k post s'))) V)"
    if "table_inv spec B (fst s') (view_writes spec (sv_writes (snd s')) V)"
      "\<And>r. post = Some r \<Longrightarrow> key_of spec r = k" for B k post s'
    using fold_change_inv [of spec B "fst s'" "snd s'" V post k] that by simp
  show ?thesis
    using inv step [OF inv, where post = None] step [OF inv, where post = "wrc_new ch"]
      step [OF step [OF inv, where post = None], where post = "wrc_new ch"]
    by (auto simp: fold_row_change_def server_change_def Let_def split: option.split)
qed

lemma fold_changes_inv:
  "table_inv spec A (fst s) (view_writes spec (sv_writes (snd s)) V) \<Longrightarrow>
   table_inv spec (fold (server_change spec) chs A) (fst (fold (fold_row_change (key_of spec)) chs s))
     (view_writes spec (sv_writes (snd (fold (fold_row_change (key_of spec)) chs s))) V)"
  by (induction chs arbitrary: A s) (simp_all add: fold_row_change_inv)


text \<open>A snapshot replaces the server's table.\<close>

definition rows_view :: "(wire_row \<Rightarrow> primary_key) \<Rightarrow> wire_row list \<Rightarrow> table_view" where
  "rows_view kf rows = fold (\<lambda>r t. t(kf r \<mapsto> r)) rows Map.empty"

lemma rows_view_snoc [simp]: "rows_view kf (rows @ [r]) = (rows_view kf rows)(kf r \<mapsto> r)"
  by (simp add: rows_view_def)

lemma rows_view_Nil [simp]: "rows_view kf [] = Map.empty"
  by (simp add: rows_view_def)

lemma rows_view_filter:
  "rows_view kf (filter (\<lambda>r. kf r \<notin> K) rows) k = (if k \<in> K then None else rows_view kf rows k)"
  by (induction rows rule: rev_induct) auto

lemma rows_view_keyed: "rows_view kf rows k = Some r \<Longrightarrow> kf r = k"
  by (induction rows rule: rev_induct) (auto split: if_splits)

lemma fold_keys_view:
  "(\<And>k r. f k = Some r \<Longrightarrow> kf r = k) \<Longrightarrow>
   fold (\<lambda>r t. t(kf r \<mapsto> r)) (List.map_filter f keys) t k
     = (if k \<in> set keys \<and> f k \<noteq> None then f k else t k)"
  by (induction keys arbitrary: t) (auto simp: map_filter_simps split: option.split)

definition snapshot_base :: "primary_key list \<Rightarrow> table_view \<Rightarrow> (primary_key \<rightharpoonup> wire_row option)
    \<Rightarrow> (primary_key \<rightharpoonup> wire_row option)" where
  "snapshot_base keys A b = (\<lambda>k. if k \<in> set keys \<and> A k \<noteq> None then Some (A k) else b k)"

lemma snapshot_base_update:
  "snapshot_base keys (A(k \<mapsto> r)) b
   = (if k \<in> set keys then (snapshot_base keys A b)(k \<mapsto> Some r) else snapshot_base keys A b)"
  by (auto simp: snapshot_base_def fun_eq_iff)

lemma fold_initial_row:
  "fold (initial_row kf keys) rows (l, vis)
   = (l\<lparr>lg_base := snapshot_base keys (rows_view kf rows) (lg_base l)\<rparr>,
      vis @ filter (\<lambda>r. kf r \<notin> set keys) rows)"
proof (induction rows rule: rev_induct)
  case Nil
  then show ?case by (simp add: snapshot_base_def)
next
  case (snoc r rows)
  then show ?case by (simp add: initial_row_def snapshot_base_update del: fun_upd_apply)
qed

lemma has_pending_keys: "has_pending l k \<longleftrightarrow> k \<in> set (pending_keys l)"
  by (auto simp: has_pending_def pending_keys_def)

lemma initial_table_inv:
  assumes wf: "pending_wf spec (lg_pending (ledger_of rc table))"
    and ap: "apply_initial table rows (key_of spec) rc = (visible, rc')"
  shows "table_inv spec (rows_view (key_of spec) rows) (ledger_of rc' table) (rows_view (key_of spec) visible)"
    and "table' \<noteq> table \<Longrightarrow> ledger_of rc' table' = ledger_of rc table'"
proof -
  let ?kf = "key_of spec" and ?l = "ledger_of rc table"
  let ?keys = "pending_keys ?l" and ?A = "rows_view (key_of spec) rows"
  define l2 where "l2 = ?l\<lparr>lg_base := (\<lambda>k. if k \<in> set ?keys then Some (?A k) else None)\<rparr>"
  have map_None: "map_of (map (\<lambda>k. (k, None)) ks) k = (if k \<in> set ks then Some None else None)" for ks k
    by (induction ks) auto
  have "snapshot_base ?keys ?A (map_of (map (\<lambda>k. (k, None)) ?keys))
      = (\<lambda>k. if k \<in> set ?keys then Some (?A k) else None)"
    by (auto simp: snapshot_base_def map_None fun_eq_iff)
  then have "fold (initial_row ?kf ?keys) rows (?l\<lparr>lg_base := map_of (map (\<lambda>k. (k, None)) ?keys)\<rparr>, [])
      = (l2, filter (\<lambda>r. ?kf r \<notin> set ?keys) rows)"
    by (simp add: fold_initial_row l2_def)
  then have vis: "visible = filter (\<lambda>r. ?kf r \<notin> set ?keys) rows @ List.map_filter (replay l2) ?keys"
    and rc': "rc' = AList.update table l2 rc"
    using ap by (simp_all add: apply_initial_def Let_def)
  show "table' \<noteq> table \<Longrightarrow> ledger_of rc' table' = ledger_of rc table'"
    by (simp add: rc' ledger_of_def update_conv')
  have l2: "ledger_of rc' table = l2" by (simp add: rc' ledger_of_def update_conv')
  have pend: "lg_pending l2 = lg_pending ?l" by (simp add: l2_def)
  have keyed: "keyed spec ?A" by (auto simp: keyed_def dest: rows_view_keyed)
  have base: "base_ok ?A l2" by (simp add: base_ok_def l2_def has_pending_def pending_keys_def) blast
  have replay: "replay l2 k = (if k \<in> set ?keys then overlay ?A (lg_pending l2) k else None)" for k
  proof (cases "k \<in> set ?keys")
    case True
    then show ?thesis by (simp add: l2_def replay_overlay)
  next
    case False
    then have "filter (\<lambda>p. op_key p = k) (lg_pending ?l) = []"
      by (auto simp: pending_keys_def filter_empty_conv)
    then show ?thesis using False by (simp add: replay_def l2_def)
  qed
  have ok: "keyed spec (overlay ?A (lg_pending l2))" using overlay_keyed [OF keyed] wf pend by simp
  have replay_key: "replay l2 k = Some r \<Longrightarrow> ?kf r = k" for k r
    using ok by (auto simp: replay keyed_def split: if_splits)
  have "rows_view ?kf visible k = overlay ?A (lg_pending l2) k" for k
  proof -
    have "rows_view ?kf visible k = (if k \<in> set ?keys \<and> replay l2 k \<noteq> None then replay l2 k
        else rows_view ?kf (filter (\<lambda>r. ?kf r \<notin> set ?keys) rows) k)"
      unfolding vis rows_view_def fold_append comp_def
      by (rule fold_keys_view) (rule replay_key)
    also have "\<dots> = overlay ?A (lg_pending l2) k"
    proof (cases "k \<in> set ?keys")
      case False
      then have "overlay ?A (lg_pending l2) k = ?A k"
        by (intro overlay_no_op) (auto simp: pend pending_keys_def)
      then show ?thesis using False by (simp add: rows_view_filter)
    qed (simp add: replay rows_view_filter)
    finally show ?thesis .
  qed
  then show "table_inv spec ?A (ledger_of rc' table) (rows_view ?kf visible)"
    using keyed base wf by (auto simp: table_inv_def l2 pend)
qed

text \<open>The end of a remote write.\<close>

lemma done_table_inv:
  assumes "table_inv spec A l V" "i < length (lg_pending l)"
  shows "table_inv spec A (l\<lparr>lg_pending := (lg_pending l)[i := (lg_pending l ! i)\<lparr>op_writer_done := True\<rparr>]\<rparr>) V"
proof -
  let ?qs = "(lg_pending l)[i := (lg_pending l ! i)\<lparr>op_writer_done := True\<rparr>]"
  have same: "map (\<lambda>p. (op_key p, op_kind p)) ?qs = map (\<lambda>p. (op_key p, op_kind p)) (lg_pending l)"
    using assms(2) by (simp add: map_update list_update_same_conv)
  have ov: "overlay A ps = overlay A qs"
    if "map (\<lambda>p. (op_key p, op_kind p)) ps = map (\<lambda>p. (op_key p, op_kind p)) qs" for ps qs
  proof (rule ext)
    fix k
    have pairs: "fold (\<lambda>p. apply_kind (op_kind p)) (filter (\<lambda>p. op_key p = k) rs) x
        = fold (\<lambda>q. apply_kind (snd q)) (filter (\<lambda>q. fst q = k) (map (\<lambda>p. (op_key p, op_kind p)) rs)) x" for rs x
      by (induction rs arbitrary: x) auto
    show "overlay A ps k = overlay A qs k" by (simp only: overlay_def pairs that)
  qed
  have wf: "pending_wf spec ps = list_all (\<lambda>q. kind_wf spec (fst q) (snd q)) (map (\<lambda>p. (op_key p, op_kind p)) ps)" for ps
    by (simp add: pending_wf_def list_all_iff)
  have keys: "has_pending m k = (k \<in> fst ` set (map (\<lambda>p. (op_key p, op_kind p)) (lg_pending m)))" for m k
    by (auto simp: has_pending_def image_iff)
  have "pending_wf spec ?qs = pending_wf spec (lg_pending l)" by (simp only: wf same)
  moreover have "has_pending (l\<lparr>lg_pending := ?qs\<rparr>) k = has_pending l k" for k
    unfolding keys using same by simp
  ultimately show ?thesis
    using assms(1) ov [OF same] by (simp add: table_inv_def base_ok_def)
qed

lemma filter_remove_at_other:
  assumes "i < length xs" "\<not> P (xs ! i)"
  shows "filter P (remove_at i xs) = filter P xs"
proof -
  have "xs = take i xs @ xs ! i # drop (Suc i) xs" using assms(1) by (rule id_take_nth_drop)
  then have "filter P xs = filter P (take i xs) @ filter P (drop (Suc i) xs)"
    using assms(2) by (metis (no_types, lifting) filter.simps(2) filter_append)
  then show ?thesis by (simp add: remove_at_def)
qed

lemma rollback_table_inv:
  assumes inv: "table_inv spec A l V" and i: "i < length (lg_pending l)"
  defines "l' \<equiv> l\<lparr>lg_pending := remove_at i (lg_pending l)\<rparr>" and "k \<equiv> op_key (lg_pending l ! i)"
  shows "table_inv spec A (snd (write_for k l')) (mem_write spec (fst (write_for k l')) V)"
proof (rule table_inv_write)
  have sub: "set (lg_pending l') \<subseteq> set (lg_pending l)" by (simp add: l'_def set_remove_at)
  show "keyed spec A" using inv by (simp add: table_inv_def)
  show "pending_wf spec (lg_pending l')" using inv sub by (auto simp: table_inv_def pending_wf_def)
  show "base_ok A l'" using inv sub by (auto simp: table_inv_def base_ok_def has_pending_def l'_def)
  have "has_pending l k" using i by (auto simp: has_pending_def k_def)
  then show "lg_base l' k = Some (A k)" using inv by (simp add: table_inv_def base_ok_def l'_def)
  show "V k' = overlay A (lg_pending l') k'" if "k' \<noteq> k" for k'
    using inv i that overlay_cong [OF filter_remove_at_other [OF i], of k' A A]
    by (simp add: table_inv_def l'_def k_def)
qed


section \<open>Mutations keep the identity of their row\<close>

lemma resolve_set_wf: "resolve_set spec vs = Ok slots \<Longrightarrow> \<forall>s \<in> set slots. fst s \<notin> set (pk_indices spec)"
proof (induction spec vs arbitrary: slots rule: resolve_set.induct)
  case (2 spec name v rest)
  from "2.prems" obtain i rest' where i: "column_index spec name = Some i" "i \<notin> set (pk_indices spec)"
    and r: "resolve_set spec rest = Ok rest'" "slots = (i, v) # rest'"
    by (cases "resolve_set spec rest") (auto simp: rmap_def split: option.splits if_splits)
  then show ?case using "2.IH" [OF i r(1)] by simp
qed simp

lemma resolve_mutation_wf:
  assumes "resolve_mutation spec m = Ok (k, kind)"
  shows "kind_wf spec k kind"
proof (cases m)
  case (MInsert table vs)
  let ?r = "insert_values spec vs (replicate (length (ps_columns (tsp_schema spec))) WNull) []"
  show ?thesis using assms
    by (cases ?r; cases "require_keys spec (snd (case ?r of Ok x \<Rightarrow> x)) (pk_indices spec)") (auto simp: MInsert)
next
  case (MUpdate table kvs vs)
  then show ?thesis using assms
    by (cases "resolve_key spec kvs"; cases "resolve_set spec vs") (auto dest: resolve_set_wf)
next
  case (MDelete table kvs)
  then show ?thesis using assms by (cases "resolve_key spec kvs") auto
qed

section \<open>The replica refines the server's tables\<close>

text \<open>The tables of the server that a mirror's events describe.\<close>

definition server_event :: "string \<Rightarrow> (client_event, client_error) result \<Rightarrow> 'd replica
    \<Rightarrow> (string \<Rightarrow> table_view) \<Rightarrow> string \<Rightarrow> table_view" where
  "server_event table ev rp A =
     (case rp_specs rp table of
        None \<Rightarrow> A
      | Some spec \<Rightarrow>
          (case ev of
             Ok (CeDiff at op rows) \<Rightarrow>
               A(table := (if op = POpInitial \<and> rp_replace rp table then rows_view (key_of spec) rows
                           else fold (server_change spec) (diff_to_changes op rows) (A table)))
           | Ok (CeTransaction at b e x changes) \<Rightarrow> A(table := fold (server_change spec) changes (A table))
           | _ \<Rightarrow> A))"

fun schema_stable :: "string \<Rightarrow> (client_event, client_error) result \<Rightarrow> 'd replica \<Rightarrow> bool" where
  "schema_stable table (Ok (CeAccepted i at sch)) rp =
     (case rp_specs rp table of None \<Rightarrow> True | Some spec \<Rightarrow> tsp_schema spec = sch)"
| "schema_stable table _ rp = True"

inductive replica_run :: "'d local_database \<Rightarrow> (client_error \<Rightarrow> string) \<Rightarrow> 'd \<Rightarrow> string list
    \<Rightarrow> 'd replica \<Rightarrow> (string \<Rightarrow> table_view) \<Rightarrow> bool"
  for db error_text d0 mirrors where
  start: "replica_run db error_text d0 mirrors (replica_new d0 mirrors) (\<lambda>_. Map.empty)"
| mutate: "replica_run db error_text d0 mirrors rp A \<Longrightarrow>
    replica_run db error_text d0 mirrors (snd (mutate db has_writer m rp)) A"
| written: "replica_run db error_text d0 mirrors rp A \<Longrightarrow>
    replica_run db error_text d0 mirrors (write_finished db token failure rp) A"
| event: "replica_run db error_text d0 mirrors rp A \<Longrightarrow> schema_stable table ev rp \<Longrightarrow>
    replica_run db error_text d0 mirrors (pump_event db error_text table ev rp) (server_event table ev rp A)"

lemma ledger_of_update: "ledger_of (AList.update t l rc) t' = (if t' = t then l else ledger_of rc t')"
  by (simp add: ledger_of_def update_conv')

lemma find_token_Some:
  "find_token token rc = Some (name, l, i) \<Longrightarrow> distinct (map fst rc) \<Longrightarrow>
   ledger_of rc name = l \<and> i < length (lg_pending l)"
proof (induction token rc rule: find_token.induct)
  case (2 token n l' rest)
  show ?case
  proof (cases "position (\<lambda>p. op_token p = token) (lg_pending l')")
    case None
    then have "find_token token rest = Some (name, l, i)" using "2.prems" by simp
    then have IH: "ledger_of rest name = l" "i < length (lg_pending l)" using "2.IH" [OF None] "2.prems" by simp_all
    have "name \<noteq> n"
    proof
      assume "name = n"
      then have "map_of rest name = None" using "2.prems"(2) by (simp add: map_of_eq_None_iff)
      then show False using IH by (auto simp: ledger_of_def ledger_default_def)
    qed
    then show ?thesis using IH by (simp add: ledger_of_def)
  next
    case (Some j)
    then show ?thesis using "2.prems" by (auto simp: ledger_of_def dest: position_length)
  qed
qed simp

locale reliable_store =
  fixes db :: "'d local_database" and view :: "'d \<Rightarrow> string \<Rightarrow> table_view"
  assumes get_row: "db_get_row db spec k d = Inr (view d (tsp_name spec) k)"
    and apply_writes: "\<exists>d'. db_apply_writes db spec ws d = (None, d')
      \<and> view d' = (view d)(tsp_name spec := fold (mem_write spec) ws (view d (tsp_name spec)))"
    and replace_rows: "\<exists>d'. db_replace_rows db spec rows d = (None, d')
      \<and> view d' = (view d)(tsp_name spec := rows_view (key_of spec) rows)"
    and ensure_table: "\<exists>d'. db_ensure_table db spec d = (None, d') \<and> view d' = view d"
begin

definition table_ok :: "'d replica \<Rightarrow> (string \<Rightarrow> table_view) \<Rightarrow> string \<Rightarrow> bool" where
  "table_ok rp A t =
     (case rp_specs rp t of
        None \<Rightarrow> A t = Map.empty \<and> view (rp_db rp) t = Map.empty \<and> lg_pending (ledger_of (rp_reconciler rp) t) = []
      | Some spec \<Rightarrow> tsp_name spec = t
          \<and> table_inv spec (A t) (ledger_of (rp_reconciler rp) t) (view (rp_db rp) t))"

definition replica_ok :: "'d replica \<Rightarrow> (string \<Rightarrow> table_view) \<Rightarrow> bool" where
  "replica_ok rp A = ((\<forall>t. table_ok rp A t) \<and> distinct (map fst (rp_reconciler rp)))"

lemma table_ok_cong:
  assumes "rp_specs rp' = rp_specs rp" "rp_reconciler rp' = rp_reconciler rp" "view (rp_db rp') = view (rp_db rp)"
  shows "replica_ok rp' A = replica_ok rp A"
  by (simp only: replica_ok_def table_ok_def assms)

lemma replica_okI:
  assumes ok: "replica_ok rp A" and spec: "rp_specs rp t = Some spec"
    and inv: "table_inv spec B l V"
    and r: "rp_specs rp' = rp_specs rp" "rp_reconciler rp' = AList.update t l (rp_reconciler rp)"
      "view (rp_db rp') = (view (rp_db rp))(t := V)"
  shows "replica_ok rp' (A(t := B))"
proof -
  have old: "table_ok rp A t'" for t' using ok by (simp add: replica_ok_def)
  have "table_ok rp' (A(t := B)) t'" for t'
    using old [of t'] spec inv
    by (cases "t' = t"; cases "rp_specs rp t'") (simp_all add: table_ok_def r ledger_of_update)
  then show ?thesis using ok by (simp add: replica_ok_def r distinct_update)
qed

lemma replica_ok_table:
  assumes "replica_ok rp A" "rp_specs rp t = Some spec"
  shows "tsp_name spec = t \<and> table_inv spec (A t) (ledger_of (rp_reconciler rp) t) (view (rp_db rp) t)"
proof -
  have "table_ok rp A t" using assms(1) by (simp add: replica_ok_def)
  then show ?thesis using assms(2) by (simp add: table_ok_def)
qed

lemma replica_ok_mutate:
  assumes ok: "replica_ok rp A"
  shows "replica_ok (snd (mutate db has_writer m rp)) A"
proof (cases "\<exists>spec k kind. has_writer \<and> rp_specs rp (mutation_table m) = Some spec
    \<and> resolve_mutation spec m = Ok (k, kind)")
  case False
  then have "snd (mutate db has_writer m rp) = rp"
    by (cases "rp_specs rp (mutation_table m)"; cases "resolve_mutation (the (rp_specs rp (mutation_table m))) m")
      (auto simp: mutate_def)
  then show ?thesis using ok by simp
next
  case True
  then obtain spec k kind where w: "has_writer" and spec: "rp_specs rp (mutation_table m) = Some spec"
    and res: "resolve_mutation spec m = Ok (k, kind)" by blast
  let ?t = "mutation_table m"
  have name: "tsp_name spec = ?t"
    and inv: "table_inv spec (A ?t) (ledger_of (rp_reconciler rp) ?t) (view (rp_db rp) ?t)"
    using replica_ok_table [OF ok spec] by simp_all
  let ?l = "ledger_of (rp_reconciler rp) ?t" and ?V = "view (rp_db rp) ?t"
  let ?l1 = "if has_pending ?l k then ?l else ?l\<lparr>lg_base := (lg_base ?l)(k \<mapsto> ?V k)\<rparr>"
  let ?l2 = "?l1\<lparr>lg_pending := lg_pending ?l1 @
    [\<lparr>op_token = rp_next_token rp, op_key = k, op_kind = kind, op_writer_done = False\<rparr>]\<rparr>"
  let ?w = "fst (write_for k ?l2)" and ?l3 = "snd (write_for k ?l2)"
  have st: "stage ?t (rp_next_token rp) k kind (?V k) (rp_reconciler rp)
      = ([?w], AList.update ?t ?l3 (rp_reconciler rp))"
    by (simp add: stage_def Let_def split_beta)
  obtain d where d: "db_apply_writes db spec [?w] (rp_db rp) = (None, d)"
    "view d = (view (rp_db rp))(?t := mem_write spec ?w ?V)"
    using apply_writes [of spec "[?w]" "rp_db rp"] name by auto
  have inv': "table_inv spec (A ?t) ?l3 (mem_write spec ?w ?V)"
    by (rule stage_table_inv [OF inv resolve_mutation_wf [OF res]])
  have "snd (mutate db has_writer m rp)
      = rp\<lparr>rp_next_token := rp_next_token rp + 1, rp_db := d, rp_reconciler := AList.update ?t ?l3 (rp_reconciler rp)\<rparr>"
    using w spec res by (simp add: mutate_def get_row name st d(1) Let_def)
  then show ?thesis
    using replica_okI [OF ok spec inv', of "snd (mutate db has_writer m rp)"] d(2) by simp
qed

lemma replica_ok_quiet [simp]:
  "replica_ok (emit e rp) A = replica_ok rp A"
  "replica_ok (set_state t st rp) A = replica_ok rp A"
  "replica_ok (send_command c rp) A = replica_ok rp A"
  "replica_ok (rp\<lparr>rp_replace := f\<rparr>) A = replica_ok rp A"
  by (rule table_ok_cong; simp add: emit_def set_state_def send_command_def)+

lemma replica_ok_emits: "replica_ok (fold (\<lambda>t. emit (f t)) ts rp) A = replica_ok rp A"
  by (induction ts arbitrary: rp) simp_all

lemma replica_ok_finish_batch [simp]: "replica_ok (finish_batch table at failure rp) A = replica_ok rp A"
  by (simp add: finish_batch_def split: option.split)

lemma replica_ok_written:
  assumes ok: "replica_ok rp A"
  shows "replica_ok (write_finished db token failure rp) A"
proof (cases "find_token token (rp_reconciler rp)")
  case None
  then have "write_finished db token failure rp = rp"
    by (simp add: write_finished_def writer_finished_def)
  then show ?thesis using ok by simp
next
  case (Some a)
  obtain t l i where a: "a = (t, l, i)" by (cases a)
  have l: "ledger_of (rp_reconciler rp) t = l" and i: "i < length (lg_pending l)"
    using find_token_Some [OF Some [unfolded a]] ok by (simp_all add: replica_ok_def)
  have "rp_specs rp t \<noteq> None"
  proof
    assume "rp_specs rp t = None"
    moreover have "table_ok rp A t" using ok by (simp add: replica_ok_def)
    ultimately show False using l i by (simp add: table_ok_def)
  qed
  then obtain spec where spec: "rp_specs rp t = Some spec" by blast
  have name: "tsp_name spec = t" and inv: "table_inv spec (A t) l (view (rp_db rp) t)"
    using replica_ok_table [OF ok spec] l by simp_all
  show ?thesis
  proof (cases failure)
    case None
    let ?l = "l\<lparr>lg_pending := (lg_pending l)[i := (lg_pending l ! i)\<lparr>op_writer_done := True\<rparr>]\<rparr>"
    have "write_finished db token failure rp = rp\<lparr>rp_reconciler := AList.update t ?l (rp_reconciler rp)\<rparr>"
      by (simp add: write_finished_def writer_finished_def Some a None)
    then show ?thesis
      using replica_okI [OF ok spec done_table_inv [OF inv i], of "write_finished db token failure rp"] by simp
  next
    case (Some e)
    let ?k = "op_key (lg_pending l ! i)" and ?l = "l\<lparr>lg_pending := remove_at i (lg_pending l)\<rparr>"
    let ?w = "fst (write_for ?k ?l)" and ?l' = "snd (write_for ?k ?l)"
    obtain d where d: "db_apply_writes db spec [?w] (rp_db rp) = (None, d)"
      "view d = (view (rp_db rp))(t := mem_write spec ?w (view (rp_db rp) t))"
      using apply_writes [of spec "[?w]" "rp_db rp"] name by auto
    let ?rp = "rp\<lparr>rp_reconciler := AList.update t ?l' (rp_reconciler rp), rp_db := d\<rparr>"
    have "write_finished db token failure rp = emit (MutationFailed token t e) ?rp"
      using \<open>find_token token (rp_reconciler rp) = Some a\<close> spec
      by (simp add: write_finished_def writer_finished_def a Some split_beta Let_def d(1))
    moreover have "replica_ok ?rp (A(t := A t))"
      by (rule replica_okI [OF ok spec rollback_table_inv [OF inv i]]) (simp_all add: d(2))
    ultimately show ?thesis by simp
  qed
qed

lemma replica_ok_changes:
  assumes ok: "replica_ok rp A" and spec: "rp_specs rp t = Some spec"
  shows "replica_ok (apply_changes db t at chs rp) (A(t := fold (server_change spec) chs (A t)))"
proof -
  have name: "tsp_name spec = t" and inv: "table_inv spec (A t) (ledger_of (rp_reconciler rp) t) (view (rp_db rp) t)"
    using replica_ok_table [OF ok spec] by simp_all
  let ?s = "fold (fold_row_change (key_of spec)) chs (ledger_of (rp_reconciler rp) t, server_apply_default)"
  have inv': "table_inv spec (fold (server_change spec) chs (A t)) (fst ?s)
      (view_writes spec (sv_writes (snd ?s)) (view (rp_db rp) t))"
    by (rule fold_changes_inv) (simp add: inv server_apply_default_def view_writes_def)
  obtain d where d: "db_apply_writes db spec (sv_writes (snd ?s)) (rp_db rp) = (None, d)"
    "view d = (view (rp_db rp))(t := view_writes spec (sv_writes (snd ?s)) (view (rp_db rp) t))"
    using apply_writes [of spec "sv_writes (snd ?s)" "rp_db rp"] name by (auto simp: view_writes_def)
  let ?rp = "rp\<lparr>rp_reconciler := AList.update t (fst ?s) (rp_reconciler rp), rp_db := d\<rparr>"
  have "replica_ok ?rp (A(t := fold (server_change spec) chs (A t)))"
    by (rule replica_okI [OF ok spec inv']) (simp_all add: d(2))
  then show ?thesis
    by (simp add: apply_changes_def spec apply_server_changes_def split_beta Let_def d(1) replica_ok_emits)
qed

lemma replica_ok_initial:
  assumes ok: "replica_ok rp A" and spec: "rp_specs rp t = Some spec" and rep: "rp_replace rp t"
  shows "replica_ok (pump_event db error_text t (Ok (CeDiff at POpInitial rows)) rp)
    (A(t := rows_view (key_of spec) rows))"
proof -
  have name: "tsp_name spec = t" and inv: "table_inv spec (A t) (ledger_of (rp_reconciler rp) t) (view (rp_db rp) t)"
    using replica_ok_table [OF ok spec] by simp_all
  obtain visible rc where ap: "apply_initial t rows (key_of spec) (rp_reconciler rp) = (visible, rc)"
    by (cases "apply_initial t rows (key_of spec) (rp_reconciler rp)")
  have rc: "rc = AList.update t (ledger_of rc t) (rp_reconciler rp)"
    using ap by (auto simp: apply_initial_def Let_def split_beta ledger_of_update)
  obtain d where d: "db_replace_rows db spec visible (rp_db rp) = (None, d)"
    "view d = (view (rp_db rp))(t := rows_view (key_of spec) visible)"
    using replace_rows [of spec visible "rp_db rp"] name by auto
  have inv': "table_inv spec (rows_view (key_of spec) rows) (ledger_of rc t) (rows_view (key_of spec) visible)"
    using inv by (intro initial_table_inv(1) [OF _ ap]) (simp add: table_inv_def)
  let ?rp = "rp\<lparr>rp_replace := (rp_replace rp)(t := False), rp_reconciler := rc, rp_db := d\<rparr>"
  have "replica_ok ?rp (A(t := rows_view (key_of spec) rows))"
    by (rule replica_okI [OF ok spec inv']) (simp_all add: d(2) rc [symmetric])
  then show ?thesis using rep spec by (simp add: pump_event_def Let_def ap d(1))
qed

lemma replica_ok_accepted:
  assumes ok: "replica_ok rp A" and stable: "schema_stable t (Ok (CeAccepted i at sch)) rp"
  shows "replica_ok (pump_event db error_text t (Ok (CeAccepted i at sch)) rp) A"
proof -
  let ?spec = "\<lparr>tsp_name = t, tsp_schema = sch\<rparr>"
  obtain d where d: "db_ensure_table db ?spec (rp_db rp) = (None, d)" "view d = view (rp_db rp)"
    using ensure_table by blast
  let ?rp = "rp\<lparr>rp_db := d, rp_specs := (rp_specs rp)(t \<mapsto> ?spec)\<rparr>"
  have old: "table_ok rp A t'" for t' using ok by (simp add: replica_ok_def)
  have "table_ok ?rp A t'" for t'
  proof (cases "t' = t")
    case False
    then show ?thesis using old [of t'] by (cases "rp_specs rp t'") (simp_all add: table_ok_def d(2))
  next
    case True
    show ?thesis
    proof (cases "rp_specs rp t")
      case None
      then show ?thesis using old [of t] True
        by (simp add: table_ok_def d(2) table_inv_def keyed_def pending_wf_def base_ok_def has_pending_def)
    next
      case (Some spec)
      then have "spec = ?spec" using old [of t] stable by (simp add: table_ok_def)
      then show ?thesis using old [of t] True Some by (simp add: table_ok_def d(2))
    qed
  qed
  then have "replica_ok ?rp A" using ok by (simp add: replica_ok_def)
  then show ?thesis
    using table_ok_cong [of "?rp\<lparr>rp_replace := (rp_replace rp)(t := True)\<rparr>" ?rp A]
    by (simp add: pump_event_def d(1))
qed

lemma replica_ok_event:
  assumes ok: "replica_ok rp A" and stable: "schema_stable t ev rp"
  shows "replica_ok (pump_event db error_text t ev rp) (server_event t ev rp A)"
proof (cases ev)
  case (Ok e)
  show ?thesis
  proof (cases e)
    case (CeAccepted i at sch)
    have "server_event t ev rp A = A" by (simp add: server_event_def Ok CeAccepted split: option.split)
    then show ?thesis using replica_ok_accepted [OF ok] stable by (simp add: Ok CeAccepted)
  next
    case (CeDiff at op rows)
    show ?thesis
    proof (cases "rp_specs rp t")
      case None
      then show ?thesis using ok
        by (simp add: Ok CeDiff pump_event_def server_event_def apply_changes_def)
    next
      case (Some spec)
      show ?thesis
      proof (cases "op = POpInitial \<and> rp_replace rp t")
        case True
        then show ?thesis using replica_ok_initial [OF ok Some, of error_text at rows] Some
          by (simp add: Ok CeDiff server_event_def)
      next
        case False
        then have "pump_event db error_text t ev rp = apply_changes db t at (diff_to_changes op rows) rp"
          by (auto simp: Ok CeDiff pump_event_def)
        moreover have "server_event t ev rp A = A(t := fold (server_change spec) (diff_to_changes op rows) (A t))"
          using False Some by (auto simp: Ok CeDiff server_event_def)
        ultimately show ?thesis using replica_ok_changes [OF ok Some] by simp
      qed
    qed
  next
    case (CeTransaction at b e' x changes)
    show ?thesis
    proof (cases "rp_specs rp t")
      case None
      then show ?thesis using ok by (simp add: Ok CeTransaction pump_event_def server_event_def apply_changes_def)
    next
      case (Some spec)
      then show ?thesis using replica_ok_changes [OF ok Some] by (simp add: Ok CeTransaction server_event_def pump_event_def)
    qed
  qed (use ok in \<open>simp_all add: Ok pump_event_def server_event_def split: option.split\<close>)
qed (use ok in \<open>simp_all add: pump_event_def server_event_def split: option.split\<close>)

lemma replica_ok_run:
  assumes "replica_run db error_text d0 mirrors rp A" "\<And>t. view d0 t = Map.empty"
  shows "replica_ok rp A"
  using assms(1)
proof (induction rule: replica_run.induct)
  case start
  then show ?case using assms(2)
    by (simp add: replica_ok_def table_ok_def replica_new_def ledger_of_def ledger_default_def)
qed (simp_all add: replica_ok_mutate replica_ok_written replica_ok_event)

lemma visible_overlay:
  assumes "replica_run db error_text d0 mirrors rp A" "\<And>t. view d0 t = Map.empty" "rp_specs rp t = Some spec"
  shows "view (rp_db rp) t = overlay (A t) (lg_pending (ledger_of (rp_reconciler rp) t))"
  using replica_ok_table [OF replica_ok_run [OF assms(1,2)] assms(3)] by (simp add: table_inv_def)

end

lemma mem_entry_update: "mem_entry t' (d(t \<mapsto> m)) = (if t' = t then m else mem_entry t' d)"
  by (simp add: mem_entry_def)

interpretation mem: reliable_store memory_db "\<lambda>d t. mem_entry t d"
proof
  fix spec :: table_spec and k d
  show "db_get_row memory_db spec k d = Inr (mem_entry (tsp_name spec) d k)"
    by (simp add: memory_db_def mem_get_row_def mem_entry_def split: option.split)
next
  fix spec :: table_spec and ws d
  show "\<exists>d'. db_apply_writes memory_db spec ws d = (None, d') \<and> (\<lambda>t. mem_entry t d')
      = (\<lambda>t. mem_entry t d)(tsp_name spec := fold (mem_write spec) ws (mem_entry (tsp_name spec) d))"
    by (simp add: memory_db_def mem_apply_writes_def) (rule ext, simp add: mem_entry_update)
next
  fix spec :: table_spec and rows d
  show "\<exists>d'. db_replace_rows memory_db spec rows d = (None, d') \<and> (\<lambda>t. mem_entry t d')
      = (\<lambda>t. mem_entry t d)(tsp_name spec := rows_view (key_of spec) rows)"
    by (simp add: memory_db_def mem_replace_rows_def) (rule ext, simp add: mem_entry_update rows_view_def)
next
  fix spec :: table_spec and d
  show "\<exists>d'. db_ensure_table memory_db spec d = (None, d') \<and> (\<lambda>t. mem_entry t d') = (\<lambda>t. mem_entry t d)"
    by (simp add: memory_db_def mem_ensure_table_def) (rule ext, simp add: mem_entry_update)
qed

section \<open>Properties\<close>

text \<open>C1: Optimistic reads.  In every state a replica over the in-memory store reaches by mutations,
  completions of remote writes and events of its mirrors, in any interleaving, the visible rows of a
  mirrored table are the server's rows as its events describe them with the pending mutations
  applied in order; with no pending mutation they are exactly the server's rows.\<close>

theorem replica_visible_rows:
  assumes "replica_run memory_db error_text Map.empty mirrors rp A" "rp_specs rp t = Some spec"
  shows "mem_entry t (rp_db rp) = overlay (A t) (lg_pending (ledger_of (rp_reconciler rp) t))
    \<and> (pending_count (rp_reconciler rp) t = 0 \<longrightarrow> mem_entry t (rp_db rp) = A t)"
proof -
  have "mem_entry t (rp_db rp) = overlay (A t) (lg_pending (ledger_of (rp_reconciler rp) t))"
    using mem.visible_overlay [OF assms(1) _ assms(2)] by (simp add: mem_entry_def)
  moreover have "lg_pending (ledger_of (rp_reconciler rp) t) = []" if "pending_count (rp_reconciler rp) t = 0"
    using that by (auto simp: pending_count_def ledger_of_def ledger_default_def split: option.splits)
  ultimately show ?thesis by auto
qed


text \<open>A replica of one table: it is accepted, receives a snapshot of one row, and that row's note is
  updated optimistically.\<close>

definition notes_schema :: proto_schema where
  "notes_schema = \<lparr>ps_columns = [\<lparr>pc_name = ''id'', pc_type = 4, pc_nullable = False\<rparr>,
     \<lparr>pc_name = ''note'', pc_type = 8, pc_nullable = True\<rparr>], ps_primary_key_columns = [0]\<rparr>"

definition notes_spec :: table_spec where
  "notes_spec = \<lparr>tsp_name = ''t'', tsp_schema = notes_schema\<rparr>"

abbreviation notes_new :: "memory_database replica" where
  "notes_new \<equiv> replica_new Map.empty [''t'']"

abbreviation notes_accepted :: "memory_database replica" where
  "notes_accepted \<equiv> pump_event memory_db (\<lambda>_. []) ''t'' (Ok (CeAccepted 1 7 notes_schema)) notes_new"

abbreviation notes_synced :: "memory_database replica" where
  "notes_synced \<equiv> pump_event memory_db (\<lambda>_. []) ''t'' (Ok (CeDiff 7 POpInitial [[WI64 5, WText ''a'']])) notes_accepted"

abbreviation notes_mutated :: "memory_database replica" where
  "notes_mutated \<equiv> snd (mutate memory_db True (MUpdate ''t'' [(''id'', WI64 5)] [(''note'', WText ''b'')]) notes_synced)"

lemma notes_key [simp]: "key_of notes_spec (WI64 5 # r) = [WI64 5]"
  by (simp add: key_of_def pk_indices_def notes_spec_def notes_schema_def row_key_def map_filter_simps get_at_def)

lemma notes_accepted_state:
  "rp_specs notes_accepted = [''t'' \<mapsto> notes_spec]" "rp_reconciler notes_accepted = []"
  "rp_replace notes_accepted ''t''" "rp_db notes_accepted = [''t'' \<mapsto> Map.empty]"
  by (simp_all add: pump_event_def replica_new_def memory_db_def mem_ensure_table_def mem_entry_def
      set_state_def emit_def notes_spec_def)

lemma notes_synced_state:
  "rp_specs notes_synced = [''t'' \<mapsto> notes_spec]"
  "rp_db notes_synced = [''t'' \<mapsto> [[WI64 5] \<mapsto> [WI64 5, WText ''a'']]]"
  "rp_reconciler notes_synced = [(''t'', ledger_default)]"
proof -
  have ap: "apply_initial ''t'' [[WI64 5, WText ''a'']] (key_of notes_spec) []
      = ([[WI64 5, WText ''a'']], [(''t'', ledger_default)])"
    by (simp add: apply_initial_def ledger_of_def ledger_default_def pending_keys_def initial_row_def map_filter_simps)
  have rep: "db_replace_rows memory_db notes_spec [[WI64 5, WText ''a'']] d
      = (None, d(''t'' \<mapsto> [[WI64 5] \<mapsto> [WI64 5, WText ''a'']]))" for d
    by (simp add: memory_db_def mem_replace_rows_def) (simp add: notes_spec_def)
  show "rp_specs notes_synced = [''t'' \<mapsto> notes_spec]"
    "rp_db notes_synced = [''t'' \<mapsto> [[WI64 5] \<mapsto> [WI64 5, WText ''a'']]]"
    "rp_reconciler notes_synced = [(''t'', ledger_default)]"
    by (subst pump_event_def, simp add: notes_accepted_state ap rep finish_batch_def set_state_def
        emit_def send_command_def)+
qed

theorem replica_visible_rows_witness:
  "mem_entry ''t'' (rp_db notes_mutated)
     = overlay [[WI64 5] \<mapsto> [WI64 5, WText ''a'']] (lg_pending (ledger_of (rp_reconciler notes_mutated) ''t''))"
proof -
  let ?A = "server_event ''t'' (Ok (CeDiff 7 POpInitial [[WI64 5, WText ''a'']])) notes_accepted
    (server_event ''t'' (Ok (CeAccepted 1 7 notes_schema)) notes_new (\<lambda>_. Map.empty))"
  have "replica_run memory_db (\<lambda>_. []) Map.empty [''t''] notes_new (\<lambda>_. Map.empty)"
    by (rule replica_run.start)
  then have "replica_run memory_db (\<lambda>_. []) Map.empty [''t''] notes_accepted
      (server_event ''t'' (Ok (CeAccepted 1 7 notes_schema)) notes_new (\<lambda>_. Map.empty))"
    by (rule replica_run.event) (simp add: replica_new_def)
  then have "replica_run memory_db (\<lambda>_. []) Map.empty [''t''] notes_synced ?A"
    by (rule replica_run.event) simp
  then have run: "replica_run memory_db (\<lambda>_. []) Map.empty [''t''] notes_mutated ?A"
    by (rule replica_run.mutate)
  have A: "?A ''t'' = [[WI64 5] \<mapsto> [WI64 5, WText ''a'']]"
    by (simp add: server_event_def notes_accepted_state rows_view_def)
  have "resolve_mutation notes_spec (MUpdate ''t'' [(''id'', WI64 5)] [(''note'', WText ''b'')])
      = Ok ([WI64 5], RUpdate [(1, WText ''b'')])"
    by (simp add: resolve_key_def column_index_def pk_indices_def notes_spec_def notes_schema_def
        column_name_at_def get_at_def ok_or_def rmap_def)
  then have "rp_specs notes_mutated ''t'' = Some notes_spec"
    by (subst mutate_def) (simp add: notes_synced_state mem.get_row split_beta Let_def split: option.split)
  from replica_visible_rows [OF run this] show ?thesis by (simp add: A)
qed

section \<open>Acknowledged mutations settle\<close>

definition acknowledged :: "primary_key \<Rightarrow> table_ledger \<Rightarrow> bool" where
  "acknowledged k l = (\<forall>p \<in> set (lg_pending l). op_key p = k \<longrightarrow> op_writer_done p)"

definition resolved_tokens :: "server_apply \<Rightarrow> mutation_token set" where
  "resolved_tokens out = set (sv_settled out) \<union> set (sv_conflicted out)"

definition pending_tokens :: "primary_key \<Rightarrow> table_ledger \<Rightarrow> mutation_token set" where
  "pending_tokens k l = op_token ` {p \<in> set (lg_pending l). op_key p = k}"

lemma set_remove_at_nth: "i < length xs \<Longrightarrow> set xs = insert (xs ! i) (set (remove_at i xs))"
  by (subst id_take_nth_drop [of i xs], assumption) (auto simp: remove_at_def)

lemma settle_loop_acknowledged:
  "acknowledged k l \<Longrightarrow>
   \<not> has_pending (fst (settle_loop k post l out)) k
   \<and> resolved_tokens (snd (settle_loop k post l out)) = resolved_tokens out \<union> pending_tokens k l"
proof (induction k post l out rule: settle_loop.induct)
  case (1 k post l out)
  show ?case
  proof (cases "position (\<lambda>p. op_key p = k) (lg_pending l)")
    case None
    then have "settle_loop k post l out = (l, out)" by (simp add: settle_loop.simps [of k post l out])
    then show ?thesis using None by (auto simp: position_None has_pending_def pending_tokens_def)
  next
    case (Some i)
    let ?p = "lg_pending l ! i" and ?l = "l\<lparr>lg_pending := remove_at i (lg_pending l)\<rparr>"
    have i: "i < length (lg_pending l)" and k: "op_key ?p = k"
      using position_length [OF Some] position_holds [OF Some] by simp_all
    have set: "set (lg_pending l) = insert ?p (set (remove_at i (lg_pending l)))" by (rule set_remove_at_nth [OF i])
    have ack: "acknowledged k ?l" "op_writer_done ?p" using "1.prems" k by (auto simp: acknowledged_def set)
    have tokens: "pending_tokens k l = insert (op_token ?p) (pending_tokens k ?l)"
      using k by (auto simp: pending_tokens_def set)
    show ?thesis
      using "1.IH" [OF Some refl refl] ack
      by (subst (1 2) settle_loop.simps) (auto simp: Some Let_def tokens resolved_tokens_def)
  qed
qed

lemma fold_change_acknowledged:
  assumes "acknowledged k l"
  shows "\<not> has_pending (fst (fold_change k post (l, out))) k
    \<and> resolved_tokens (snd (fold_change k post (l, out))) = resolved_tokens out \<union> pending_tokens k l"
proof (cases "has_pending l k")
  case True
  have "acknowledged k (l\<lparr>lg_base := (lg_base l)(k \<mapsto> post)\<rparr>)" using assms by (simp add: acknowledged_def)
  from settle_loop_acknowledged [OF this, of post out] show ?thesis
    using True by (simp add: fold_change_def split_beta Let_def resolved_tokens_def pending_tokens_def)
next
  case False
  then have "pending_tokens k l = {}" by (auto simp: pending_tokens_def has_pending_def)
  then show ?thesis using False by (simp add: fold_change_def resolved_tokens_def)
qed



section \<open>A store that refuses a write\<close>

definition fresh_token :: "mutation_token \<Rightarrow> reconciler \<Rightarrow> bool" where
  "fresh_token token rc = (\<forall>x \<in> set rc. \<forall>p \<in> set (lg_pending (snd x)). op_token p \<noteq> token)"

lemma position_append_fresh:
  "\<forall>x \<in> set xs. \<not> P x \<Longrightarrow> P y \<Longrightarrow> position P (xs @ [y]) = Some (length xs)"
  by (induction xs) auto

lemma find_token_fresh: "fresh_token token rc \<Longrightarrow> find_token token rc = None"
  by (induction token rc rule: find_token.induct) (auto simp: fresh_token_def position_None split: option.split)

lemma find_token_staged:
  assumes "fresh_token token rc" "lg_pending l = ps @ [p]" "op_token p = token" "\<forall>q \<in> set ps. op_token q \<noteq> token"
  shows "find_token token (AList.update t l rc) = Some (t, l, length ps)"
  using assms(1)
proof (induction rc)
  case Nil
  then show ?case using position_append_fresh [of ps "\<lambda>q. op_token q = token" p] assms(2-4) by simp
next
  case (Cons x rc)
  obtain n m where x: "x = (n, m)" by (cases x)
  have "position (\<lambda>q. op_token q = token) (lg_pending m) = None"
    using Cons.prems by (simp add: position_None fresh_token_def x)
  moreover have "fresh_token token rc" using Cons.prems by (simp add: fresh_token_def)
  ultimately show ?case
    using Cons.IH position_append_fresh [of ps "\<lambda>q. op_token q = token" p] assms(2-4) by (simp add: x)
qed

lemma fresh_token_ledger: "fresh_token token rc \<Longrightarrow> p \<in> set (lg_pending (ledger_of rc t)) \<Longrightarrow> op_token p \<noteq> token"
  by (fastforce simp: fresh_token_def ledger_of_def ledger_default_def split: option.splits dest: map_of_SomeD)

text \<open>C35: A refused local write leaves no trace in the ledger.  When the store rejects the optimistic
  write of a mutation whose token is fresh, \<^verbatim>\<open>mutate\<close> returns the store's error and the pending
  mutations of every table are what they were before.\<close>

theorem refused_mutation_unstaged:
  assumes "rp_specs rp (mutation_table m) = Some spec" "resolve_mutation spec m = Ok (k, kind)"
    and "db_get_row db spec k (rp_db rp) = Inr current"
    and "\<And>ws. fst (db_apply_writes db spec ws (rp_db rp)) = Some e"
    and "fresh_token (rp_next_token rp) (rp_reconciler rp)"
  shows "fst (mutate db True m rp) = Err (Db e)
    \<and> lg_pending (ledger_of (rp_reconciler (snd (mutate db True m rp))) t) = lg_pending (ledger_of (rp_reconciler rp) t)"
proof -
  let ?t = "mutation_table m" and ?token = "rp_next_token rp"
  let ?l = "ledger_of (rp_reconciler rp) ?t"
  let ?p = "\<lparr>op_token = ?token, op_key = k, op_kind = kind, op_writer_done = False\<rparr>"
  obtain w l3 where st: "stage ?t ?token k kind current (rp_reconciler rp) = ([w], AList.update ?t l3 (rp_reconciler rp))"
    and pend: "lg_pending l3 = lg_pending ?l @ [?p]"
    by (simp add: stage_def Let_def split_beta)
  have find: "find_token ?token (AList.update ?t l3 (rp_reconciler rp)) = Some (?t, l3, length (lg_pending ?l))"
    by (rule find_token_staged [OF assms(5) pend]) (auto dest: fresh_token_ledger [OF assms(5)])
  have rem: "remove_at (length (lg_pending ?l)) (lg_pending l3) = lg_pending ?l" by (simp add: pend remove_at_def)
  have unstaged: "lg_pending (ledger_of (snd (writer_finished ?token False (AList.update ?t l3 (rp_reconciler rp)))) t)
      = lg_pending (ledger_of (rp_reconciler rp) t)"
    by (simp add: writer_finished_def find split_beta Let_def ledger_of_update rem)
  obtain d where d: "db_apply_writes db spec [w] (rp_db rp) = (Some e, d)"
    using assms(4) [of "[w]"] by (cases "db_apply_writes db spec [w] (rp_db rp)") auto
  show ?thesis using assms(1-3) unstaged by (simp add: mutate_def Let_def st d)
qed

definition refusing_db :: "memory_database local_database" where
  "refusing_db = memory_db\<lparr>db_apply_writes := (\<lambda>spec ws d. (Some (Execution ''disk full''), d))\<rparr>"

theorem refused_mutation_unstaged_witness:
  "fst (mutate refusing_db True (MDelete ''t'' [(''id'', WI64 5)]) notes_synced) = Err (Db (Execution ''disk full''))
   \<and> lg_pending (ledger_of (rp_reconciler (snd (mutate refusing_db True (MDelete ''t'' [(''id'', WI64 5)]) notes_synced))) ''t'')
     = lg_pending (ledger_of (rp_reconciler notes_synced) ''t'')"
proof (rule refused_mutation_unstaged)
  show "rp_specs notes_synced (mutation_table (MDelete ''t'' [(''id'', WI64 5)])) = Some notes_spec"
    by (simp add: notes_synced_state)
  show "resolve_mutation notes_spec (MDelete ''t'' [(''id'', WI64 5)]) = Ok ([WI64 5], RDelete)"
    by (simp add: resolve_key_def column_index_def pk_indices_def notes_spec_def notes_schema_def
        column_name_at_def get_at_def ok_or_def)
  show "db_get_row refusing_db notes_spec [WI64 5] (rp_db notes_synced) = Inr (mem_entry ''t'' (rp_db notes_synced) [WI64 5])"
    using mem.get_row [of notes_spec] by (simp add: refusing_db_def notes_spec_def)
  show "fst (db_apply_writes refusing_db notes_spec ws (rp_db notes_synced)) = Some (Execution ''disk full'')" for ws
    by (simp add: refusing_db_def)
  show "fresh_token (rp_next_token notes_synced) (rp_reconciler notes_synced)"
    by (simp add: notes_synced_state fresh_token_def ledger_default_def)
qed

end
