(* ===== verification/Server_Router.thy ===== *)
theory Server_Router
  imports Server_Cursor
begin

text \<open>
  The subscription router of the server: \<^verbatim>\<open>palimpsest-server/src/subscription.rs\<close>, \<^verbatim>\<open>registry.rs\<close>,
  \<^verbatim>\<open>ack.rs\<close>, \<^verbatim>\<open>resume.rs\<close>, \<^verbatim>\<open>backpressure.rs\<close> and \<^verbatim>\<open>router.rs\<close>, with the watermark and sharing
  registries of \<^verbatim>\<open>palimpsest-dataflow/src/palimpsest/compaction.rs\<close> and \<^verbatim>\<open>shared.rs\<close> that it keeps.
  The run of a compiled plan on a snapshot is a parameter.
\<close>

section \<open>Subscriptions and their registry\<close>

type_synonym connection_id = u64

datatype subscription_state = Seeding | Streaming | Draining | Closed

record subscription =
  su_id :: subscription_id
  su_client_id :: string
  su_connection :: connection_id
  su_query :: string
  su_user_ctx :: user_context
  su_schema_id :: u64
  su_snapshot_lsn :: lsn
  su_cursor_lsn :: lsn
  su_state :: subscription_state

definition is_active :: "subscription \<Rightarrow> bool" where
  "is_active s = (su_state s = Seeding \<or> su_state s = Streaming)"

definition allocate_subscription_id :: "u64 \<Rightarrow> subscription_id \<times> u64" where
  "allocate_subscription_id next_id = (next_id, next_id + 1)"

record subscription_registry =
  by_id :: "(subscription_id, subscription) btree"
  by_client_id :: "(connection_id \<times> string, subscription_id) btree"
  by_connection :: "(connection_id, subscription_id list) btree"

definition registry_new :: subscription_registry where
  "registry_new = \<lparr>by_id = [], by_client_id = [], by_connection = []\<rparr>"

definition registry_insert :: "subscription \<Rightarrow> subscription_registry \<Rightarrow> (subscription_registry, router_error) result" where
  "registry_insert s reg =
     (if map_of (by_client_id reg) (su_connection s, su_client_id s) \<noteq> None
      then Err DuplicateClientSubscriptionId
      else Ok \<lparr>by_id = bt_insert (su_id s) s (by_id reg),
               by_client_id = bt_insert (su_connection s, su_client_id s) (su_id s) (by_client_id reg),
               by_connection = bt_insert (su_connection s)
                 ((case map_of (by_connection reg) (su_connection s) of None \<Rightarrow> [] | Some l \<Rightarrow> l) @ [su_id s])
                 (by_connection reg)\<rparr>)"

definition registry_resolve :: "connection_id \<Rightarrow> string \<Rightarrow> subscription_registry \<Rightarrow> subscription_id option" where
  "registry_resolve conn client reg = map_of (by_client_id reg) (conn, client)"

definition registry_drop :: "subscription_id \<Rightarrow> subscription_registry \<Rightarrow> subscription option \<times> subscription_registry" where
  "registry_drop i reg =
     (case map_of (by_id reg) i of
        None \<Rightarrow> (None, reg)
      | Some s \<Rightarrow>
          (Some s,
           \<lparr>by_id = bt_remove i (by_id reg),
            by_client_id = bt_remove (su_connection s, su_client_id s) (by_client_id reg),
            by_connection =
              (case map_of (by_connection reg) (su_connection s) of
                 None \<Rightarrow> by_connection reg
               | Some l \<Rightarrow>
                   (let l' = filter (\<lambda>j. j \<noteq> i) l
                    in if l' = [] then bt_remove (su_connection s) (by_connection reg)
                       else bt_insert (su_connection s) l' (by_connection reg)))\<rparr>))"

definition connection_subscriptions :: "connection_id \<Rightarrow> subscription_registry \<Rightarrow> subscription_id list" where
  "connection_subscriptions conn reg = (case map_of (by_connection reg) conn of None \<Rightarrow> [] | Some l \<Rightarrow> l)"

section \<open>Watermarks and acknowledgements\<close>

record lsn_watermarks =
  wm_subscribers :: "(u64, lsn) btree"
  wm_applied :: "lsn option"

definition watermarks_new :: lsn_watermarks where
  "watermarks_new = \<lparr>wm_subscribers = [], wm_applied = None\<rparr>"

definition watermarks_update :: "u64 \<Rightarrow> lsn \<Rightarrow> lsn_watermarks \<Rightarrow> lsn_watermarks" where
  "watermarks_update i at w =
     w\<lparr>wm_subscribers := bt_insert i
        (case map_of (wm_subscribers w) i of None \<Rightarrow> at | Some current \<Rightarrow> max current at) (wm_subscribers w)\<rparr>"

definition watermarks_remove :: "u64 \<Rightarrow> lsn_watermarks \<Rightarrow> lsn option \<times> lsn_watermarks" where
  "watermarks_remove i w =
     (map_of (wm_subscribers w) i, w\<lparr>wm_subscribers := bt_remove i (wm_subscribers w)\<rparr>)"

definition min_subscriber_lsn :: "lsn_watermarks \<Rightarrow> lsn option" where
  "min_subscriber_lsn w =
     (case map snd (wm_subscribers w) of [] \<Rightarrow> None | x # xs \<Rightarrow> Some (fold min xs x))"

text \<open>\<^verbatim>\<open>apply_logical_compaction\<close>: the frontier to set on the trace, if any.\<close>

definition apply_logical_compaction :: "lsn_watermarks \<Rightarrow> lsn option \<times> lsn_watermarks" where
  "apply_logical_compaction w =
     (case min_subscriber_lsn w of
        None \<Rightarrow> (None, w)
      | Some m \<Rightarrow>
          if (case wm_applied w of None \<Rightarrow> False | Some applied \<Rightarrow> applied \<ge> m) then (None, w)
          else (Some m, w\<lparr>wm_applied := Some m\<rparr>))"

datatype ack_outcome = Advanced lsn | Stale

definition tracker_install :: "subscription_id \<Rightarrow> lsn \<Rightarrow> lsn_watermarks \<Rightarrow> lsn_watermarks" where
  "tracker_install i at w = watermarks_update i at w"

definition tracker_ack :: "subscription_id \<Rightarrow> lsn \<Rightarrow> lsn \<Rightarrow> lsn_watermarks \<Rightarrow> ack_outcome \<times> lsn_watermarks" where
  "tracker_ack i previous at w =
     (if at \<le> previous then (Stale, w) else (Advanced at, watermarks_update i at w))"

section \<open>Resuming\<close>

record compaction_window =
  cw_earliest_replayable :: lsn
  cw_latest_known :: lsn

datatype resume_decision = FreshInitial resync_reason | Replay lsn

definition window_contains :: "compaction_window \<Rightarrow> lsn \<Rightarrow> bool" where
  "window_contains w at = (at \<ge> cw_earliest_replayable w)"

definition resolve_resume :: "lsn option \<Rightarrow> compaction_window \<Rightarrow> resume_decision" where
  "resolve_resume last_acked w =
     (case last_acked of
        None \<Rightarrow> FreshInitial LsnCompacted
      | Some at \<Rightarrow> if window_contains w at then Replay at else FreshInitial LsnCompacted)"

section \<open>The bounded channel of a subscription\<close>

datatype backpressure_policy = DropAndResync | Coalesce

datatype backpressure_outcome = Sent | SaturatedDropResync | SaturatedCoalesce | OutcomeClosed

record diff_channel =
  dc_queue :: "diff_event list"
  dc_closed :: bool
  dc_policy :: backpressure_policy
  dc_capacity :: nat
  dc_full_events :: u64

definition channel_new :: "nat \<Rightarrow> backpressure_policy \<Rightarrow> (diff_channel, 'e) result" where
  "channel_new capacity policy =
     (if capacity = 0 then Panic
      else Ok \<lparr>dc_queue = [], dc_closed = False, dc_policy = policy, dc_capacity = capacity, dc_full_events = 0\<rparr>)"

definition channel_try_send :: "diff_event \<Rightarrow> diff_channel \<Rightarrow> backpressure_outcome \<times> diff_channel" where
  "channel_try_send ev c =
     (if dc_closed c then (OutcomeClosed, c)
      else if length (dc_queue c) < dc_capacity c then (Sent, c\<lparr>dc_queue := dc_queue c @ [ev]\<rparr>)
      else (case dc_policy c of DropAndResync \<Rightarrow> SaturatedDropResync | Coalesce \<Rightarrow> SaturatedCoalesce,
            c\<lparr>dc_full_events := dc_full_events c + 1\<rparr>))"

text \<open>\<^verbatim>\<open>force_resync\<close> sends on the bare sender: a full or closed channel drops the event and counts
  nothing.\<close>

definition force_resync :: "resync_reason \<Rightarrow> diff_channel \<Rightarrow> diff_channel" where
  "force_resync reason c =
     (if dc_closed c \<or> length (dc_queue c) \<ge> dc_capacity c then c
      else c\<lparr>dc_queue := dc_queue c @ [DeResync reason]\<rparr>)"

text \<open>The receiving side: the forwarder takes the oldest event.\<close>

definition channel_recv :: "diff_channel \<Rightarrow> diff_event option \<times> diff_channel" where
  "channel_recv c = (case dc_queue c of [] \<Rightarrow> (None, c) | e # es \<Rightarrow> (Some e, c\<lparr>dc_queue := es\<rparr>))"

section \<open>Shared subgraphs\<close>

type_synonym shared_subgraph_id = u64

datatype shared_subgraph_acquire = Created shared_subgraph_id | Reused shared_subgraph_id u64

fun acquire_id :: "shared_subgraph_acquire \<Rightarrow> shared_subgraph_id" where
  "acquire_id (Created i) = i"
| "acquire_id (Reused i n) = i"

datatype shared_subgraph_release = StillReferenced shared_subgraph_id u64 | Teardown shared_subgraph_id string

record shared_subgraph_entry =
  se_key :: string
  se_ref_count :: u64

record shared_subgraph_registry =
  sg_next_id :: u64
  sg_ids_by_key :: "(string, shared_subgraph_id) btree"
  sg_entries :: "(shared_subgraph_id, shared_subgraph_entry) btree"

definition shared_new :: shared_subgraph_registry where
  "shared_new = \<lparr>sg_next_id = 0, sg_ids_by_key = [], sg_entries = []\<rparr>"

definition shared_acquire :: "string \<Rightarrow> shared_subgraph_registry
    \<Rightarrow> (shared_subgraph_acquire \<times> shared_subgraph_registry, 'e) result" where
  "shared_acquire k g =
     (case map_of (sg_ids_by_key g) k of
        Some i \<Rightarrow>
          (case map_of (sg_entries g) i of
             None \<Rightarrow> Panic
           | Some e \<Rightarrow>
               (let n = sat_add (se_ref_count e) 1
                in Ok (Reused i n, g\<lparr>sg_entries := bt_insert i (e\<lparr>se_ref_count := n\<rparr>) (sg_entries g)\<rparr>)))
      | None \<Rightarrow>
          (let i = sg_next_id g
           in Ok (Created i, \<lparr>sg_next_id = sat_add i 1, sg_ids_by_key = bt_insert k i (sg_ids_by_key g),
                sg_entries = bt_insert i \<lparr>se_key = k, se_ref_count = 1\<rparr> (sg_entries g)\<rparr>)))"

definition shared_release :: "shared_subgraph_id \<Rightarrow> shared_subgraph_registry
    \<Rightarrow> shared_subgraph_release option \<times> shared_subgraph_registry" where
  "shared_release i g =
     (case map_of (sg_entries g) i of
        None \<Rightarrow> (None, g)
      | Some e \<Rightarrow>
          (let n = sat_sub (se_ref_count e) 1
           in if n > 0
              then (Some (StillReferenced i n), g\<lparr>sg_entries := bt_insert i (e\<lparr>se_ref_count := n\<rparr>) (sg_entries g)\<rparr>)
              else (Some (Teardown i (se_key e)),
                    g\<lparr>sg_ids_by_key := bt_remove (se_key e) (sg_ids_by_key g),
                      sg_entries := bt_remove i (sg_entries g)\<rparr>)))"

definition shared_ref_count :: "shared_subgraph_id \<Rightarrow> shared_subgraph_registry \<Rightarrow> u64 option" where
  "shared_ref_count i g = map_option se_ref_count (map_of (sg_entries g) i)"

section \<open>Pairing the changes of a transaction\<close>

text \<open>\<^verbatim>\<open>to_be_bytes\<close> of an integer of \<open>n\<close> bytes.\<close>

definition word_be_bytes :: "nat \<Rightarrow> 'a::len word \<Rightarrow> string" where
  "word_be_bytes n v = be_bytes n (unat v)"

fun datum_to_key_bytes :: "datum \<Rightarrow> string" where
  "datum_to_key_bytes (DI64 v) = word_be_bytes 8 v"
| "datum_to_key_bytes (DI32 v) = word_be_bytes 4 v"
| "datum_to_key_bytes (DI16 v) = word_be_bytes 2 v"
| "datum_to_key_bytes (DBool b) = [if b then CHR 0x01 else CHR 0x00]"
| "datum_to_key_bytes (DText bs) = bs"
| "datum_to_key_bytes (DBytea bs) = bs"
| "datum_to_key_bytes (DUuid (Uuid bs)) = bs"
| "datum_to_key_bytes _ = []"

definition primary_key_bytes :: "nat list \<Rightarrow> row \<Rightarrow> string list" where
  "primary_key_bytes pk r = map (\<lambda>i. if i < length r then datum_to_key_bytes (r ! i) else []) pk"

type_synonym diff_bins = "(string list, raw_diff list) btree"

definition bin_push :: "string list \<Rightarrow> raw_diff \<Rightarrow> diff_bins \<Rightarrow> diff_bins" where
  "bin_push k d bins = bt_insert k ((case map_of bins k of None \<Rightarrow> [] | Some l \<Rightarrow> l) @ [d]) bins"

definition bin_diff :: "nat list \<Rightarrow> raw_diff \<Rightarrow> diff_bins \<times> diff_bins \<Rightarrow> diff_bins \<times> diff_bins" where
  "bin_diff pk d bins =
     (if 0 < sint (rd_diff d) then (bin_push (primary_key_bytes pk (rd_row d)) d (fst bins), snd bins)
      else (fst bins, bin_push (primary_key_bytes pk (rd_row d)) d (snd bins)))"

definition insert_change :: "raw_diff \<Rightarrow> row_change" where
  "insert_change d = \<lparr>rc_op = OpInsert, rc_old = None, rc_new = Some (rd_row d)\<rparr>"

definition delete_change :: "raw_diff \<Rightarrow> row_change" where
  "delete_change d = \<lparr>rc_op = OpDelete, rc_old = Some (rd_row d), rc_new = None\<rparr>"

definition update_change :: "raw_diff \<Rightarrow> raw_diff \<Rightarrow> row_change" where
  "update_change old new = \<lparr>rc_op = OpUpdate, rc_old = Some (rd_row old), rc_new = Some (rd_row new)\<rparr>"

text \<open>The loop over the insert bins in key order; the bins are never empty, so neither \<^verbatim>\<open>expect\<close> fails.\<close>

fun pair_bins :: "diff_bins \<Rightarrow> diff_bins \<Rightarrow> row_change list \<Rightarrow> row_change list \<times> diff_bins" where
  "pair_bins [] deletes changes = (changes, deletes)"
| "pair_bins ((k, ins) # rest) deletes changes =
     (case map_of deletes k of
        Some outs \<Rightarrow>
          pair_bins rest (bt_remove k deletes)
            (changes @ [update_change (last outs) (last ins)]
              @ map insert_change (butlast ins) @ map delete_change (butlast outs))
      | None \<Rightarrow> pair_bins rest deletes (changes @ map insert_change ins))"

definition pair_changes :: "raw_diff list \<Rightarrow> nat list \<Rightarrow> row_change list" where
  "pair_changes diffs pk =
     (let (inserts, deletes) = fold (bin_diff pk) diffs ([], []);
          (changes, remaining) = pair_bins inserts deletes []
      in changes @ map delete_change (concat (map snd remaining)))"

definition pair_transaction :: "query_transaction_delta \<Rightarrow> nat list \<Rightarrow> diff_event" where
  "pair_transaction delta pk =
     DeTransactionUpdate (qd_transaction_id delta) (qd_begin_lsn delta) (qd_commit_lsn delta)
       (qd_end_lsn delta) (pair_changes (qd_diffs delta) pk)"

section \<open>The router\<close>

record router_config =
  cf_channel_capacity :: nat
  cf_backpressure :: backpressure_policy
  cf_default_latest_known_lsn :: lsn

definition router_config_default :: router_config where
  "router_config_default = \<lparr>cf_channel_capacity = 256, cf_backpressure = DropAndResync,
     cf_default_latest_known_lsn = (- 1) div 2\<rparr>"

record router =
  ro_registry :: subscription_registry
  ro_ack :: lsn_watermarks
  ro_subgraphs :: shared_subgraph_registry
  ro_channels :: "(subscription_id, diff_channel) btree"
  ro_holders :: "(subscription_id, shared_subgraph_id) btree"
  ro_schemas :: "(u64, schema_definition) btree"
  ro_rules :: "compiled_rule list"

definition router_new :: router where
  "router_new = \<lparr>ro_registry = registry_new, ro_ack = watermarks_new, ro_subgraphs = shared_new,
     ro_channels = [], ro_holders = [], ro_schemas = [], ro_rules = []\<rparr>"

definition set_rules :: "compiled_rule list \<Rightarrow> router \<Rightarrow> router" where
  "set_rules rules ro = ro\<lparr>ro_rules := rules,
     ro_channels := map (\<lambda>(i, c). (i, force_resync PermissionsChanged c)) (ro_channels ro)\<rparr>"

record 'p subscribe_request =
  rq_connection :: connection_id
  rq_subscription_id :: subscription_id
  rq_client_id :: string
  rq_query :: string
  rq_graph :: mir_graph
  rq_user_ctx :: user_context
  rq_schema :: schema_definition
  rq_resume_lsn :: "lsn option"
  rq_compiled_plan :: "'p option"
  rq_prerun_initial :: "(row list \<times> lsn) option"

record subscribe_response =
  sr_subscription_id :: subscription_id
  sr_schema_id :: u64
  sr_snapshot_lsn :: lsn
  sr_resume :: resume_decision
  sr_stats :: rewrite_stats
  sr_subgraph :: shared_subgraph_acquire
  sr_seed_updates :: "wal_update list"

definition install_permission_filters ::
    "(u64 \<Rightarrow> string) \<Rightarrow> mir_graph \<Rightarrow> compiled_rule list \<Rightarrow> user_context
       \<Rightarrow> (mir_graph \<times> rewrite_stats, router_error) result" where
  "install_permission_filters show_f64 g rules ctx = map_err RPermission (rewrite show_f64 g rules ctx)"

text \<open>What \<^verbatim>\<open>subscribe\<close> does before it takes the lock again: the rules are the ones it read at its
  start.  The result holds the statistics, the snapshot position, the seed updates, the resume decision
  and the channel.\<close>

record prepared =
  pp_stats :: rewrite_stats
  pp_snapshot_lsn :: lsn
  pp_seed_updates :: "wal_update list"
  pp_resume :: resume_decision
  pp_channel :: diff_channel

definition initial_rows ::
    "('p \<Rightarrow> (table_id, row list) btree \<Rightarrow> row list) \<Rightarrow> (string \<Rightarrow> (snapshot_batch, string) result)
       \<Rightarrow> 'p subscribe_request \<Rightarrow> (lsn \<times> row list \<times> wal_update list, router_error) result" where
  "initial_rows run fetch rq =
     (case rq_prerun_initial rq of
        Some (rows, at) \<Rightarrow> Ok (at, rows, [])
      | None \<Rightarrow>
          rbind (snapshot_seed fetch (rq_query rq)) (\<lambda>(batch, seeds).
            Ok (sb_snapshot_lsn batch,
                case rq_compiled_plan rq of
                  Some plan \<Rightarrow> run plan (fold (\<lambda>t. bt_insert (st_table t) (st_rows t)) (sb_rows batch) [])
                | None \<Rightarrow> concat (map st_rows (sb_rows batch)),
                seeds)))"

definition prepare_channel ::
    "router_config \<Rightarrow> 'p subscribe_request \<Rightarrow> rewrite_stats \<Rightarrow> lsn \<times> row list \<times> wal_update list
       \<Rightarrow> (prepared, router_error) result" where
  "prepare_channel cfg rq stats initial =
     (case initial of (at, rows, seeds) \<Rightarrow>
        let resume = resolve_resume (rq_resume_lsn rq)
              \<lparr>cw_earliest_replayable = at, cw_latest_known = cf_default_latest_known_lsn cfg\<rparr>
        in rbind (channel_new (cf_channel_capacity cfg) (cf_backpressure cfg)) (\<lambda>ch.
             case resume of
               FreshInitial _ \<Rightarrow>
                 (case channel_try_send (DeInitial at rows) ch of
                    (Sent, ch') \<Rightarrow> Ok \<lparr>pp_stats = stats, pp_snapshot_lsn = at, pp_seed_updates = seeds,
                      pp_resume = resume, pp_channel = ch'\<rparr>
                  | _ \<Rightarrow> Err ChannelSaturated)
             | Replay _ \<Rightarrow> Ok \<lparr>pp_stats = stats, pp_snapshot_lsn = at, pp_seed_updates = seeds,
                 pp_resume = resume, pp_channel = ch\<rparr>))"

definition subscribe_prepare ::
    "(u64 \<Rightarrow> string) \<Rightarrow> ('p \<Rightarrow> (table_id, row list) btree \<Rightarrow> row list)
       \<Rightarrow> (string \<Rightarrow> (snapshot_batch, string) result) \<Rightarrow> router_config \<Rightarrow> compiled_rule list
       \<Rightarrow> 'p subscribe_request \<Rightarrow> (prepared, router_error) result" where
  "subscribe_prepare show_f64 run fetch cfg rules rq =
     rbind (install_permission_filters show_f64 (rq_graph rq) rules (rq_user_ctx rq)) (\<lambda>(g, stats).
       if filters_inserted stats > 0 \<and> rq_compiled_plan rq = None
       then Err (PermissionUnenforceable
              (case first_rule_guarded_table (rq_graph rq) rules of None \<Rightarrow> ''<unknown>'' | Some t \<Rightarrow> t))
       else rbind (initial_rows run fetch rq) (prepare_channel cfg rq stats))"

definition subscribe_commit ::
    "(u64 \<Rightarrow> string) \<Rightarrow> prepared \<Rightarrow> 'p subscribe_request \<Rightarrow> router
       \<Rightarrow> (subscribe_response \<times> router, router_error) result" where
  "subscribe_commit show_f64 pp rq ro =
     (let i = rq_subscription_id rq;
          s = \<lparr>su_id = i, su_client_id = rq_client_id rq, su_connection = rq_connection rq,
               su_query = rq_query rq, su_user_ctx = rq_user_ctx rq, su_schema_id = sd_id (rq_schema rq),
               su_snapshot_lsn = pp_snapshot_lsn pp, su_cursor_lsn = pp_snapshot_lsn pp, su_state = Seeding\<rparr>
      in rbind (registry_insert s (ro_registry ro)) (\<lambda>reg.
         rbind (shared_acquire (canonical_subgraph_key show_f64 (rq_query rq) (rq_user_ctx rq)) (ro_subgraphs ro)) (\<lambda>(acq, sg).
           Ok (\<lparr>sr_subscription_id = i, sr_schema_id = sd_id (rq_schema rq), sr_snapshot_lsn = pp_snapshot_lsn pp,
                sr_resume = pp_resume pp, sr_stats = pp_stats pp, sr_subgraph = acq,
                sr_seed_updates = pp_seed_updates pp\<rparr>,
               ro\<lparr>ro_registry := reg, ro_subgraphs := sg,
                  ro_holders := bt_insert i (acquire_id acq) (ro_holders ro),
                  ro_ack := tracker_install i (pp_snapshot_lsn pp) (ro_ack ro),
                  ro_channels := bt_insert i (pp_channel pp) (ro_channels ro),
                  ro_schemas := bt_insert (sd_id (rq_schema rq)) (rq_schema rq) (ro_schemas ro)\<rparr>))))"

definition subscribe ::
    "(u64 \<Rightarrow> string) \<Rightarrow> ('p \<Rightarrow> (table_id, row list) btree \<Rightarrow> row list)
       \<Rightarrow> (string \<Rightarrow> (snapshot_batch, string) result) \<Rightarrow> router_config
       \<Rightarrow> 'p subscribe_request \<Rightarrow> router \<Rightarrow> (subscribe_response \<times> router, router_error) result" where
  "subscribe show_f64 run fetch cfg rq ro =
     rbind (subscribe_prepare show_f64 run fetch cfg (ro_rules ro) rq) (\<lambda>pp. subscribe_commit show_f64 pp rq ro)"

definition set_sub_state :: "subscription_id \<Rightarrow> subscription_state \<Rightarrow> router \<Rightarrow> router" where
  "set_sub_state i st ro =
     (case map_of (by_id (ro_registry ro)) i of
        None \<Rightarrow> ro
      | Some s \<Rightarrow> ro\<lparr>ro_registry := (ro_registry ro)\<lparr>by_id := bt_insert i (s\<lparr>su_state := st\<rparr>) (by_id (ro_registry ro))\<rparr>\<rparr>)"

definition router_pump_event :: "subscription_id \<Rightarrow> diff_event \<Rightarrow> router \<Rightarrow> (unit, router_error) result \<times> router" where
  "router_pump_event i ev ro =
     (case map_of (ro_channels ro) i of
        None \<Rightarrow> (Err (UnknownSubscription i), ro)
      | Some ch \<Rightarrow>
          (case channel_try_send ev ch of
             (Sent, ch') \<Rightarrow>
               (Ok (), set_sub_state i Streaming (ro\<lparr>ro_channels := bt_insert i ch' (ro_channels ro)\<rparr>))
           | (OutcomeClosed, ch') \<Rightarrow> (Err (UnknownSubscription i), ro)
           | (_, ch') \<Rightarrow>
               (Err ChannelSaturated,
                set_sub_state i Draining
                  (ro\<lparr>ro_channels := bt_insert i (force_resync Backpressure ch') (ro_channels ro)\<rparr>))))"

definition pump_transaction :: "subscription_id \<Rightarrow> query_transaction_delta \<Rightarrow> nat list \<Rightarrow> router
    \<Rightarrow> (unit, router_error) result \<times> router" where
  "pump_transaction i delta pk ro = router_pump_event i (pair_transaction delta pk) ro"

definition pump_batch :: "subscription_id \<Rightarrow> lsn_batch \<Rightarrow> nat list \<Rightarrow> router
    \<Rightarrow> (unit, router_error) result \<times> router" where
  "pump_batch i b pk ro = pump_transaction i (delta_of_batch b) pk ro"

partial_function (option) pump_cursor_loop ::
    "('c \<Rightarrow> (query_transaction_delta option \<times> 'c) option) \<Rightarrow> subscription_id \<Rightarrow> nat list \<Rightarrow> nat
       \<Rightarrow> 'c \<Rightarrow> router \<Rightarrow> ((nat, router_error) result \<times> 'c \<times> router) option" where
  "pump_cursor_loop next i pk events c ro =
     (case next c of
        None \<Rightarrow> None
      | Some r \<Rightarrow>
          (case fst r of
             None \<Rightarrow> Some (Ok events, snd r, ro)
           | Some delta \<Rightarrow>
               if qd_diffs delta = [] then pump_cursor_loop next i pk events (snd r) ro
               else (case pump_transaction i delta pk ro of
                       (Ok _, ro') \<Rightarrow> pump_cursor_loop next i pk (events + 1) (snd r) ro'
                     | (Err e, ro') \<Rightarrow> Some (Err e, snd r, ro')
                     | (Panic, ro') \<Rightarrow> Some (Panic, snd r, ro'))))"

definition pump_cursor ::
    "('c \<Rightarrow> raw_diff option \<times> 'c) \<Rightarrow> ('c \<Rightarrow> lsn option) \<Rightarrow> subscription_id \<Rightarrow> nat list
       \<Rightarrow> 'c \<Rightarrow> router \<Rightarrow> ((nat, router_error) result \<times> 'c \<times> router) option" where
  "pump_cursor next_diff peek_lsn i pk c ro =
     pump_cursor_loop (next_transaction next_diff peek_lsn) i pk 0 c ro"

definition router_ack :: "subscription_id \<Rightarrow> lsn \<Rightarrow> router \<Rightarrow> (ack_outcome, router_error) result \<times> router" where
  "router_ack i at ro =
     (case map_of (by_id (ro_registry ro)) i of
        None \<Rightarrow> (Err (UnknownSubscription i), ro)
      | Some s \<Rightarrow>
          (case tracker_ack i (su_cursor_lsn s) at (ro_ack ro) of
             (Stale, w) \<Rightarrow> (Ok Stale, ro\<lparr>ro_ack := w\<rparr>)
           | (Advanced new, w) \<Rightarrow>
               (Ok (Advanced new),
                ro\<lparr>ro_ack := w, ro_registry := (ro_registry ro)
                  \<lparr>by_id := bt_insert i (s\<lparr>su_cursor_lsn := new\<rparr>) (by_id (ro_registry ro))\<rparr>\<rparr>)))"

definition unsubscribe :: "subscription_id \<Rightarrow> router
    \<Rightarrow> (shared_subgraph_release option, router_error) result \<times> router" where
  "unsubscribe i ro =
     (case registry_drop i (ro_registry ro) of
        (None, reg) \<Rightarrow> (Err (UnknownSubscription i), ro\<lparr>ro_registry := reg\<rparr>)
      | (Some s, reg) \<Rightarrow>
          (let (release, sg) = (case map_of (ro_holders ro) i of
                 None \<Rightarrow> (None, ro_subgraphs ro)
               | Some g \<Rightarrow> shared_release g (ro_subgraphs ro))
           in (Ok release,
               ro\<lparr>ro_registry := reg, ro_ack := snd (watermarks_remove i (ro_ack ro)), ro_subgraphs := sg,
                  ro_holders := bt_remove i (ro_holders ro), ro_channels := bt_remove i (ro_channels ro)\<rparr>)))"

fun unsubscribe_all :: "subscription_id list \<Rightarrow> router \<Rightarrow> shared_subgraph_release list \<times> router" where
  "unsubscribe_all [] ro = ([], ro)"
| "unsubscribe_all (i # is) ro =
     (let (r, ro1) = unsubscribe i ro;
          (releases, ro2) = unsubscribe_all is ro1
      in ((case r of Ok (Some release) \<Rightarrow> [release] | _ \<Rightarrow> []) @ releases, ro2))"

definition disconnect :: "connection_id \<Rightarrow> router \<Rightarrow> shared_subgraph_release list \<times> router" where
  "disconnect conn ro = unsubscribe_all (connection_subscriptions conn (ro_registry ro)) ro"

definition router_resume_decision :: "router_config \<Rightarrow> subscription_id \<Rightarrow> lsn option \<Rightarrow> router
    \<Rightarrow> resume_decision option" where
  "router_resume_decision cfg i resume_lsn ro =
     map_option (\<lambda>s. resolve_resume resume_lsn
        \<lparr>cw_earliest_replayable = su_snapshot_lsn s, cw_latest_known = cf_default_latest_known_lsn cfg\<rparr>)
       (map_of (by_id (ro_registry ro)) i)"


section \<open>The registry's three indexes agree\<close>

definition registry_inv :: "subscription_registry \<Rightarrow> bool" where
  "registry_inv reg =
     (bt_invar (by_id reg) \<and> bt_invar (by_client_id reg) \<and> bt_invar (by_connection reg)
      \<and> (\<forall>i s. map_of (by_id reg) i = Some s \<longrightarrow> su_id s = i)
      \<and> (\<forall>conn cl i. map_of (by_client_id reg) (conn, cl) = Some i \<longleftrightarrow>
           (\<exists>s. map_of (by_id reg) i = Some s \<and> su_connection s = conn \<and> su_client_id s = cl))
      \<and> (\<forall>conn. set (connection_subscriptions conn reg) = {i. \<exists>s. map_of (by_id reg) i = Some s \<and> su_connection s = conn}
           \<and> distinct (connection_subscriptions conn reg) \<and> map_of (by_connection reg) conn \<noteq> Some []))"

lemma registry_inv_new: "registry_inv registry_new"
  by (simp add: registry_inv_def registry_new_def connection_subscriptions_def)

lemma registry_invD:
  assumes "registry_inv reg"
  shows "bt_invar (by_id reg)" "bt_invar (by_client_id reg)" "bt_invar (by_connection reg)"
    "map_of (by_id reg) i = Some s \<Longrightarrow> su_id s = i"
    "map_of (by_client_id reg) (conn, cl) = Some i \<longleftrightarrow>
      (\<exists>s. map_of (by_id reg) i = Some s \<and> su_connection s = conn \<and> su_client_id s = cl)"
    "set (connection_subscriptions conn reg) = {i. \<exists>s. map_of (by_id reg) i = Some s \<and> su_connection s = conn}"
    "distinct (connection_subscriptions conn reg)" "map_of (by_connection reg) conn \<noteq> Some []"
  using assms by (simp_all add: registry_inv_def)

lemma registry_inv_insert:
  assumes inv: "registry_inv reg" and fresh: "map_of (by_id reg) (su_id s) = None"
    and ins: "registry_insert s reg = Ok reg'"
  shows "registry_inv reg'" and "map_of (by_id reg') = (map_of (by_id reg))(su_id s \<mapsto> s)"
proof -
  note D = registry_invD [OF inv]
  let ?c = "su_connection s"
  have vacant: "map_of (by_client_id reg) (?c, su_client_id s) = None"
    and reg': "reg' = \<lparr>by_id = bt_insert (su_id s) s (by_id reg),
      by_client_id = bt_insert (?c, su_client_id s) (su_id s) (by_client_id reg),
      by_connection = bt_insert ?c (connection_subscriptions ?c reg @ [su_id s]) (by_connection reg)\<rparr>"
    using ins by (auto simp: registry_insert_def connection_subscriptions_def split: if_splits)
  show ids: "map_of (by_id reg') = (map_of (by_id reg))(su_id s \<mapsto> s)"
    by (simp add: reg' map_of_bt_insert D(1))
  have clients: "map_of (by_client_id reg') = (map_of (by_client_id reg))((?c, su_client_id s) \<mapsto> su_id s)"
    by (simp add: reg' map_of_bt_insert D(2))
  have conns: "map_of (by_connection reg') = (map_of (by_connection reg))(?c \<mapsto> connection_subscriptions ?c reg @ [su_id s])"
    by (simp add: reg' map_of_bt_insert D(3))
  have subs: "connection_subscriptions conn reg' = (if conn = ?c then connection_subscriptions ?c reg @ [su_id s]
      else connection_subscriptions conn reg)" for conn
    by (simp add: connection_subscriptions_def conns)
  have notin: "su_id s \<notin> set (connection_subscriptions conn reg)" for conn using D(6) fresh by auto
  have other: "\<not> (\<exists>t. map_of (by_id reg) i = Some t \<and> su_connection t = ?c \<and> su_client_id t = su_client_id s)" for i
    using D(5) [of ?c "su_client_id s" i] vacant by simp
  show "registry_inv reg'"
    unfolding registry_inv_def
  proof (intro conjI allI)
    show "bt_invar (by_id reg')" "bt_invar (by_client_id reg')" "bt_invar (by_connection reg')"
      by (simp_all add: reg' bt_invar_insert D(1,2,3))
    show "map_of (by_id reg') i = Some t \<longrightarrow> su_id t = i" for i t using D(4) by (auto simp: ids)
    show "(map_of (by_client_id reg') (conn, cl) = Some i)
        = (\<exists>t. map_of (by_id reg') i = Some t \<and> su_connection t = conn \<and> su_client_id t = cl)" for conn cl i
      using D(5) [of conn cl i] other fresh by (auto simp: ids clients)
    show "set (connection_subscriptions conn reg') = {i. \<exists>t. map_of (by_id reg') i = Some t \<and> su_connection t = conn}" for conn
      using D(6) [of conn] fresh by (auto simp: subs ids)
    show "distinct (connection_subscriptions conn reg')" for conn using D(7) notin by (simp add: subs)
    show "map_of (by_connection reg') conn \<noteq> Some []" for conn using D(8) by (simp add: conns)
  qed
qed

lemma registry_inv_drop:
  assumes inv: "registry_inv reg" and s: "map_of (by_id reg) i = Some s"
  shows "registry_inv (snd (registry_drop i reg))" and "fst (registry_drop i reg) = Some s"
    and "map_of (by_id (snd (registry_drop i reg))) = (map_of (by_id reg))(i := None)"
proof -
  note D = registry_invD [OF inv]
  let ?c = "su_connection s" and ?reg = "snd (registry_drop i reg)"
  let ?l = "connection_subscriptions ?c reg"
  have iin: "i \<in> set ?l" using D(6) [of ?c] s by auto
  then have l: "map_of (by_connection reg) ?c = Some ?l"
    by (cases "map_of (by_connection reg) ?c") (simp_all add: connection_subscriptions_def)
  have reg': "?reg = \<lparr>by_id = bt_remove i (by_id reg), by_client_id = bt_remove (?c, su_client_id s) (by_client_id reg),
      by_connection = (if filter (\<lambda>j. j \<noteq> i) ?l = [] then bt_remove ?c (by_connection reg)
        else bt_insert ?c (filter (\<lambda>j. j \<noteq> i) ?l) (by_connection reg))\<rparr>"
    by (simp add: registry_drop_def s l Let_def)
  show "fst (registry_drop i reg) = Some s" by (simp add: registry_drop_def s)
  show ids: "map_of (by_id ?reg) = (map_of (by_id reg))(i := None)" by (simp add: reg' map_of_bt_remove D(1))
  have clients: "map_of (by_client_id ?reg) = (map_of (by_client_id reg))((?c, su_client_id s) := None)"
    by (simp add: reg' map_of_bt_remove D(2))
  have conns: "map_of (by_connection ?reg) = (map_of (by_connection reg))(?c :=
      (if filter (\<lambda>j. j \<noteq> i) ?l = [] then None else Some (filter (\<lambda>j. j \<noteq> i) ?l)))"
    by (simp add: reg' map_of_bt_remove map_of_bt_insert D(3))
  have subs: "connection_subscriptions conn ?reg = (if conn = ?c then filter (\<lambda>j. j \<noteq> i) ?l
      else connection_subscriptions conn reg)" for conn
    by (cases "conn = ?c"; cases "filter (\<lambda>j. j \<noteq> i) ?l = []")
      (simp_all only: connection_subscriptions_def [of _ ?reg] connection_subscriptions_def [of conn reg] conns
        fun_upd_same fun_upd_other if_True if_False option.case simp_thms not_False_eq_True)
  show "registry_inv ?reg"
    unfolding registry_inv_def
  proof (intro conjI allI)
    show "bt_invar (by_id ?reg)" "bt_invar (by_client_id ?reg)" "bt_invar (by_connection ?reg)"
      by (simp_all add: reg' bt_invar_insert bt_invar_remove D(1,2,3))
    show "map_of (by_id ?reg) j = Some t \<longrightarrow> su_id t = j" for j t using D(4) by (auto simp: ids)
    show "(map_of (by_client_id ?reg) (conn, cl) = Some j)
        = (\<exists>t. map_of (by_id ?reg) j = Some t \<and> su_connection t = conn \<and> su_client_id t = cl)" for conn cl j
    proof (cases "conn = ?c \<and> cl = su_client_id s")
      case True
      have "map_of (by_client_id reg) (?c, su_client_id s) = Some i" using D(5) s by simp
      then have "j \<noteq> i \<Longrightarrow> \<not> (\<exists>t. map_of (by_id reg) j = Some t \<and> su_connection t = conn \<and> su_client_id t = cl)"
        using D(5) [of conn cl j] True by simp
      then show ?thesis using True by (cases "j = i") (simp_all add: ids clients)
    next
      case False
      then have "(conn, cl) \<noteq> (?c, su_client_id s)" by simp
      then have "map_of (by_client_id ?reg) (conn, cl) = map_of (by_client_id reg) (conn, cl)"
        unfolding clients by (rule fun_upd_other)
      then show ?thesis using D(5) [of conn cl j] False s by (cases "j = i") (simp_all add: ids, metis)
    qed
    show "set (connection_subscriptions conn ?reg) = {j. \<exists>t. map_of (by_id ?reg) j = Some t \<and> su_connection t = conn}" for conn
      using D(6) [of conn] s by (auto simp: subs ids)
    show "distinct (connection_subscriptions conn ?reg)" for conn using D(7) by (simp add: subs)
    show "map_of (by_connection ?reg) conn \<noteq> Some []" for conn using D(8) by (simp add: conns)
  qed
qed

text \<open>A change of a record that keeps its identity.\<close>

lemma registry_inv_update:
  assumes inv: "registry_inv reg" and s: "map_of (by_id reg) i = Some s"
    and t: "su_id t = i" "su_connection t = su_connection s" "su_client_id t = su_client_id s"
  shows "registry_inv (reg\<lparr>by_id := bt_insert i t (by_id reg)\<rparr>)"
proof -
  note D = registry_invD [OF inv]
  let ?m = "(map_of (by_id reg))(i \<mapsto> t)"
  have ids: "map_of (bt_insert i t (by_id reg)) = ?m" by (simp add: map_of_bt_insert D(1))
  have same: "(\<exists>u. ?m j = Some u \<and> su_connection u = conn \<and> su_client_id u = cl)
      = (\<exists>u. map_of (by_id reg) j = Some u \<and> su_connection u = conn \<and> su_client_id u = cl)" for j conn cl
    using s t by auto
  have same': "(\<exists>u. ?m j = Some u \<and> su_connection u = conn) = (\<exists>u. map_of (by_id reg) j = Some u \<and> su_connection u = conn)" for j conn
    using s t by auto
  show ?thesis
    unfolding registry_inv_def
    using D(2-) t(1) by (simp add: ids same same' bt_invar_insert D(1) connection_subscriptions_def del: fun_upd_apply)
      (auto)
qed


section \<open>Shared subgraphs are counted\<close>

text \<open>\<open>holders\<close> says which subgraph each subscription holds.  Every entry is reached from its key, its
  count is the number of its holders, and no holder is left without an entry.\<close>

definition shared_inv :: "nat \<Rightarrow> (subscription_id \<rightharpoonup> shared_subgraph_id) \<Rightarrow> shared_subgraph_registry \<Rightarrow> bool" where
  "shared_inv n holders g =
     (bt_invar (sg_ids_by_key g) \<and> bt_invar (sg_entries g) \<and> finite (dom holders)
      \<and> unat (sg_next_id g) \<le> n \<and> card (dom holders) \<le> n
      \<and> (\<forall>k i. map_of (sg_ids_by_key g) k = Some i \<longleftrightarrow> (\<exists>e. map_of (sg_entries g) i = Some e \<and> se_key e = k))
      \<and> (\<forall>i e. map_of (sg_entries g) i = Some e \<longrightarrow> i < sg_next_id g)
      \<and> (\<forall>i. case map_of (sg_entries g) i of
                None \<Rightarrow> {s. holders s = Some i} = {}
              | Some e \<Rightarrow> {s. holders s = Some i} \<noteq> {} \<and> unat (se_ref_count e) = card {s. holders s = Some i}))"

lemma shared_inv_new: "shared_inv 0 Map.empty shared_new"
  by (simp add: shared_inv_def shared_new_def)

lemma shared_invD:
  assumes "shared_inv n holders g"
  shows "bt_invar (sg_ids_by_key g)" "bt_invar (sg_entries g)" "finite (dom holders)"
    "unat (sg_next_id g) \<le> n" "card (dom holders) \<le> n"
    "map_of (sg_ids_by_key g) k = Some i \<longleftrightarrow> (\<exists>e. map_of (sg_entries g) i = Some e \<and> se_key e = k)"
    "map_of (sg_entries g) i = Some e \<Longrightarrow> i < sg_next_id g"
    "map_of (sg_entries g) i = None \<Longrightarrow> {s. holders s = Some i} = {}"
    "map_of (sg_entries g) i = Some e \<Longrightarrow> {s. holders s = Some i} \<noteq> {} \<and> unat (se_ref_count e) = card {s. holders s = Some i}"
proof -
  have all: "case map_of (sg_entries g) i of None \<Rightarrow> {s. holders s = Some i} = {}
    | Some e \<Rightarrow> {s. holders s = Some i} \<noteq> {} \<and> unat (se_ref_count e) = card {s. holders s = Some i}"
    using assms by (simp only: shared_inv_def)
  show "map_of (sg_entries g) i = None \<Longrightarrow> {s. holders s = Some i} = {}" using all by simp
  show "map_of (sg_entries g) i = Some e \<Longrightarrow> {s. holders s = Some i} \<noteq> {} \<and> unat (se_ref_count e) = card {s. holders s = Some i}"
    using all by simp
qed (use assms in \<open>simp_all add: shared_inv_def\<close>)

lemma holders_update:
  assumes "h s = None"
  shows "{t. (h(s \<mapsto> i)) t = Some j} = (if j = i then insert s {t. h t = Some i} else {t. h t = Some j})"
    and "dom (h(s \<mapsto> i)) = insert s (dom h)"
  using assms by auto

lemma finite_holders: "finite (dom h) \<Longrightarrow> finite {t. h t = Some i}"
  by (erule rev_finite_subset) auto

lemma card_holders: "finite (dom h) \<Longrightarrow> card {t. h t = Some i} \<le> card (dom h)"
  by (rule card_mono) auto

lemma u64_le_less: "x \<le> n \<Longrightarrow> n < 2 ^ 64 - 1 \<Longrightarrow> x < 2 ^ 64 - (1::nat)"
  by (rule le_less_trans)

lemma unat_sat_add_one: "unat (x :: u64) < 2 ^ 64 - 1 \<Longrightarrow> unat (sat_add x 1) = Suc (unat x)"
  by (simp add: unat_sat_add)

lemma shared_inv_acquire:
  assumes inv: "shared_inv n h g" and fresh: "h s = None" and n: "n < 2 ^ 64 - 1"
  obtains acq g' e where "shared_acquire k g = Ok (acq, g')" "shared_inv (Suc n) (h(s \<mapsto> acquire_id acq)) g'"
    "map_of (sg_entries g') (acquire_id acq) = Some e" "se_key e = k"
    "\<And>j. j \<noteq> acquire_id acq \<Longrightarrow> map_of (sg_entries g') j = map_of (sg_entries g) j"
    "\<And>f. map_of (sg_entries g) (acquire_id acq) = Some f \<Longrightarrow> se_key f = k"
proof (cases "map_of (sg_ids_by_key g) k")
  case (Some i)
  note D = shared_invD [OF inv]
  obtain e where e: "map_of (sg_entries g) i = Some e" "se_key e = k" using D(6) Some by blast
  let ?e = "e\<lparr>se_ref_count := sat_add (se_ref_count e) 1\<rparr>"
  let ?g = "g\<lparr>sg_entries := bt_insert i ?e (sg_entries g)\<rparr>"
  have acq: "shared_acquire k g = Ok (Reused i (sat_add (se_ref_count e) 1), ?g)"
    by (simp add: shared_acquire_def Some e Let_def)
  have entries: "map_of (sg_entries ?g) = (map_of (sg_entries g))(i \<mapsto> ?e)" by (simp add: map_of_bt_insert D(2))
  have count: "unat (sat_add (se_ref_count e) 1) = Suc (card {t. h t = Some i})"
    using D(9) [OF e(1)] card_holders [OF D(3), of i] D(5) n by (simp add: unat_sat_add_one)
  have "shared_inv (Suc n) (h(s \<mapsto> i)) ?g"
    unfolding shared_inv_def
  proof (intro conjI allI)
    show "bt_invar (sg_ids_by_key ?g)" "bt_invar (sg_entries ?g)" by (simp_all add: D(1,2) bt_invar_insert)
    show "finite (dom (h(s \<mapsto> i)))" "card (dom (h(s \<mapsto> i))) \<le> Suc n"
      using D(3,5) by (simp_all add: card_insert_if)
    show "unat (sg_next_id ?g) \<le> Suc n" using D(4) by simp
    show "(map_of (sg_ids_by_key ?g) k' = Some j) = (\<exists>f. map_of (sg_entries ?g) j = Some f \<and> se_key f = k')" for k' j
      using D(6) [of k' j] e by (cases "j = i") (simp_all add: map_of_bt_insert map_of_bt_remove D(2))
    show "map_of (sg_entries ?g) j = Some f \<longrightarrow> j < sg_next_id ?g" for j f
      using D(7) e(1) by (simp add: map_of_bt_insert map_of_bt_remove D(2))
    show "case map_of (sg_entries ?g) j of None \<Rightarrow> {t. (h(s \<mapsto> i)) t = Some j} = {}
      | Some f \<Rightarrow> {t. (h(s \<mapsto> i)) t = Some j} \<noteq> {} \<and> unat (se_ref_count f) = card {t. (h(s \<mapsto> i)) t = Some j}" for j
      using D(8,9) [of j] fresh finite_holders [OF D(3), of i] count
      unfolding holders_update(1) [of h s, OF fresh] entries
      by (cases "j = i"; cases "map_of (sg_entries g) j") (simp_all add: card_insert_if)
  qed
  then show ?thesis using that [OF acq, of ?e] e by (simp add: map_of_bt_insert map_of_bt_remove D(2))
next
  case None
  note D = shared_invD [OF inv]
  let ?i = "sg_next_id g"
  let ?e = "\<lparr>se_key = k, se_ref_count = 1\<rparr> :: shared_subgraph_entry"
  let ?g = "\<lparr>sg_next_id = sat_add ?i 1, sg_ids_by_key = bt_insert k ?i (sg_ids_by_key g),
    sg_entries = bt_insert ?i ?e (sg_entries g)\<rparr> :: shared_subgraph_registry"
  have acq: "shared_acquire k g = Ok (Created ?i, ?g)" by (simp add: shared_acquire_def None Let_def)
  have new: "map_of (sg_entries g) ?i = None" using D(7) by (cases "map_of (sg_entries g) ?i") auto
  have entries: "map_of (sg_entries ?g) = (map_of (sg_entries g))(?i \<mapsto> ?e)" by (simp add: map_of_bt_insert D(2))
  have keys: "map_of (sg_ids_by_key ?g) = (map_of (sg_ids_by_key g))(k \<mapsto> ?i)" by (simp add: map_of_bt_insert D(1))
  have nokey: "map_of (sg_entries g) j = Some f \<Longrightarrow> se_key f \<noteq> k" for j f using D(6) [of k j] None by auto
  have next_id: "unat (sat_add ?i 1) = Suc (unat ?i)" using D(4) n by (simp add: unat_sat_add_one)
  have "shared_inv (Suc n) (h(s \<mapsto> ?i)) ?g"
    unfolding shared_inv_def
  proof (intro conjI allI)
    show "bt_invar (sg_ids_by_key ?g)" "bt_invar (sg_entries ?g)" by (simp_all add: D(1,2) bt_invar_insert)
    show "finite (dom (h(s \<mapsto> ?i)))" "card (dom (h(s \<mapsto> ?i))) \<le> Suc n"
      using D(3,5) by (simp_all add: card_insert_if)
    show "unat (sg_next_id ?g) \<le> Suc n" using D(4) next_id by simp
    show "(map_of (sg_ids_by_key ?g) k' = Some j) = (\<exists>f. map_of (sg_entries ?g) j = Some f \<and> se_key f = k')" for k' j
      using D(6) [of k' j] new None nokey by (cases "j = ?i"; cases "k' = k") (auto simp: map_of_bt_insert map_of_bt_remove D(1,2))
    show "map_of (sg_entries ?g) j = Some f \<longrightarrow> j < sg_next_id ?g" for j f
      using D(7) [of j] next_id by (cases "j = ?i") (auto simp: map_of_bt_insert D(2) word_less_nat_alt intro: less_SucI)
    show "case map_of (sg_entries ?g) j of None \<Rightarrow> {t. (h(s \<mapsto> ?i)) t = Some j} = {}
      | Some f \<Rightarrow> {t. (h(s \<mapsto> ?i)) t = Some j} \<noteq> {} \<and> unat (se_ref_count f) = card {t. (h(s \<mapsto> ?i)) t = Some j}" for j
      using D(8,9) [of j] new
      unfolding holders_update(1) [of h s, OF fresh] entries
      by (cases "j = ?i"; cases "map_of (sg_entries g) j") simp_all
  qed
  then show ?thesis using that [OF acq, of ?e] new by (simp add: map_of_bt_insert map_of_bt_remove D(2))
qed


lemma holders_remove:
  assumes "h s = Some i"
  shows "{t. (h(s := None)) t = Some j} = (if j = i then {t. h t = Some i} - {s} else {t. h t = Some j})"
  using assms by auto

lemma unat_sat_sub_one: "unat (sat_sub (x :: u64) 1) = unat x - 1"
  by (simp add: unat_sat_sub)

lemma shared_inv_release:
  assumes inv: "shared_inv n h g" and held: "h s = Some i"
  shows "shared_inv n (h(s := None)) (snd (shared_release i g))"
    and "\<And>j e. map_of (sg_entries (snd (shared_release i g))) j = Some e \<Longrightarrow>
           \<exists>f. map_of (sg_entries g) j = Some f \<and> se_key f = se_key e"
    and "(fst (shared_release i g) = Some (Teardown i k)) =
           (\<exists>e. map_of (sg_entries g) i = Some e \<and> se_key e = k \<and> {t. h t = Some i} = {s})"
proof -
  note D = shared_invD [OF inv]
  let ?h = "h(s := None)" and ?H = "{t. h t = Some i}"
  have sH: "s \<in> ?H" and fin: "finite ?H" using held finite_holders [OF D(3)] by simp_all
  obtain e where e: "map_of (sg_entries g) i = Some e" using D(8) [of i] sH by (cases "map_of (sg_entries g) i") auto
  let ?n = "sat_sub (se_ref_count e) 1"
  have count: "unat ?n = card (?H - {s})" using D(9) [OF e] sH fin by (simp add: unat_sat_sub_one)
  have dom: "dom ?h = dom h - {s}" by auto
  have fdom: "finite (dom ?h)" "card (dom ?h) \<le> n"
    using D(3,5) card_Diff1_le [of "dom h" s] by (simp_all add: dom del: dom_fun_upd)
  have more: "(0 < ?n) = (?H - {s} \<noteq> {})" using count fin by (simp add: word_less_nat_alt card_gt_0_iff)
  have solo: "(?H - {s} = {}) = (?H = {s})" using sH by auto
  show "(fst (shared_release i g) = Some (Teardown i k)) =
           (\<exists>e. map_of (sg_entries g) i = Some e \<and> se_key e = k \<and> ?H = {s})"
    using more solo by (simp add: shared_release_def e Let_def)
  have both: "shared_inv n ?h (snd (shared_release i g))
     \<and> (\<forall>j f. map_of (sg_entries (snd (shared_release i g))) j = Some f \<longrightarrow>
           (\<exists>f'. map_of (sg_entries g) j = Some f' \<and> se_key f' = se_key f))" (is "?inv \<and> ?keys")
  proof (cases "0 < ?n")
    case True
    let ?g = "g\<lparr>sg_entries := bt_insert i (e\<lparr>se_ref_count := ?n\<rparr>) (sg_entries g)\<rparr>"
    have rel: "snd (shared_release i g) = ?g" by (simp add: shared_release_def e Let_def True)
    have entries: "map_of (sg_entries ?g) = (map_of (sg_entries g))(i \<mapsto> e\<lparr>se_ref_count := ?n\<rparr>)"
      by (simp add: map_of_bt_insert D(2))
    have "shared_inv n ?h ?g"
      unfolding shared_inv_def
    proof (intro conjI allI fdom)
      show "bt_invar (sg_ids_by_key ?g)" "bt_invar (sg_entries ?g)" by (simp_all add: D(1,2) bt_invar_insert)
      show "unat (sg_next_id ?g) \<le> n" using D(4) by simp
      show "(map_of (sg_ids_by_key ?g) k' = Some j) = (\<exists>f. map_of (sg_entries ?g) j = Some f \<and> se_key f = k')" for k' j
        using D(6) [of k' j] e by (cases "j = i") (simp_all add: map_of_bt_insert map_of_bt_remove D(2))
      show "map_of (sg_entries ?g) j = Some f \<longrightarrow> j < sg_next_id ?g" for j f
        using D(7) e by (simp add: map_of_bt_insert map_of_bt_remove D(2))
      show "case map_of (sg_entries ?g) j of None \<Rightarrow> {t. ?h t = Some j} = {}
        | Some f \<Rightarrow> {t. ?h t = Some j} \<noteq> {} \<and> unat (se_ref_count f) = card {t. ?h t = Some j}" for j
        using D(8,9) [of j] more True count
        unfolding holders_remove [of h s i, OF held] entries
        by (cases "j = i"; cases "map_of (sg_entries g) j") simp_all
    qed
    then show ?thesis using e by (auto simp: rel map_of_bt_insert map_of_bt_remove D(2))
  next
    case False
    let ?g = "g\<lparr>sg_ids_by_key := bt_remove (se_key e) (sg_ids_by_key g), sg_entries := bt_remove i (sg_entries g)\<rparr>"
    have rel: "snd (shared_release i g) = ?g" by (simp add: shared_release_def e Let_def False)
    have entries: "map_of (sg_entries ?g) = (map_of (sg_entries g))(i := None)" by (simp add: map_of_bt_remove D(2))
    have keys: "map_of (sg_ids_by_key ?g) = (map_of (sg_ids_by_key g))(se_key e := None)" by (simp add: map_of_bt_remove D(1))
    have one: "map_of (sg_entries g) j = Some f \<Longrightarrow> se_key f = se_key e \<Longrightarrow> j = i" for j f
      using D(6) [of "se_key e" j] D(6) [of "se_key e" i] e by simp
    have gone: "?H - {s} = {}" using more False by simp
    have "shared_inv n ?h ?g"
      unfolding shared_inv_def
    proof (intro conjI allI fdom)
      show "bt_invar (sg_ids_by_key ?g)" "bt_invar (sg_entries ?g)" by (simp_all add: D(1,2) bt_invar_remove)
      show "unat (sg_next_id ?g) \<le> n" using D(4) by simp
      show "(map_of (sg_ids_by_key ?g) k' = Some j) = (\<exists>f. map_of (sg_entries ?g) j = Some f \<and> se_key f = k')" for k' j
      proof (cases "k' = se_key e")
        case True
        then have "j \<noteq> i \<Longrightarrow> \<not> (\<exists>f. map_of (sg_entries g) j = Some f \<and> se_key f = k')" using one by metis
        then show ?thesis unfolding entries keys using True by simp
      next
        case False
        then show ?thesis unfolding entries keys using D(6) [of k' j] e by (cases "j = i") simp_all
      qed
      show "map_of (sg_entries ?g) j = Some f \<longrightarrow> j < sg_next_id ?g" for j f
        using D(7) by (simp add: map_of_bt_insert map_of_bt_remove D(2))
      show "case map_of (sg_entries ?g) j of None \<Rightarrow> {t. ?h t = Some j} = {}
        | Some f \<Rightarrow> {t. ?h t = Some j} \<noteq> {} \<and> unat (se_ref_count f) = card {t. ?h t = Some j}" for j
        using D(8,9) [of j] gone
        unfolding holders_remove [of h s i, OF held] entries
        by (cases "j = i"; cases "map_of (sg_entries g) j") simp_all
    qed
    then show ?thesis by (auto simp: rel map_of_bt_insert map_of_bt_remove D(2))
  qed
  show "shared_inv n ?h (snd (shared_release i g))" using both by (rule conjunct1)
  show "map_of (sg_entries (snd (shared_release i g))) j = Some f \<Longrightarrow>
           \<exists>f'. map_of (sg_entries g) j = Some f' \<and> se_key f' = se_key f" for j f
    using both by simp
qed


section \<open>The router's maps agree\<close>

abbreviation ro_subs :: "router \<Rightarrow> subscription_id \<rightharpoonup> subscription" where
  "ro_subs ro \<equiv> map_of (by_id (ro_registry ro))"

definition channel_inv :: "diff_channel \<Rightarrow> bool" where
  "channel_inv c = (0 < dc_capacity c \<and> length (dc_queue c) \<le> dc_capacity c)"

definition subgraph_key :: "(u64 \<Rightarrow> string) \<Rightarrow> subscription \<Rightarrow> string" where
  "subgraph_key show_f64 s = canonical_subgraph_key show_f64 (su_query s) (su_user_ctx s)"

definition router_inv :: "(u64 \<Rightarrow> string) \<Rightarrow> nat \<Rightarrow> router \<Rightarrow> bool" where
  "router_inv show_f64 n ro =
     (registry_inv (ro_registry ro) \<and> bt_invar (ro_channels ro) \<and> bt_invar (ro_holders ro)
      \<and> bt_invar (wm_subscribers (ro_ack ro))
      \<and> dom (map_of (ro_channels ro)) = dom (ro_subs ro) \<and> dom (map_of (ro_holders ro)) = dom (ro_subs ro)
      \<and> (\<forall>i. map_of (wm_subscribers (ro_ack ro)) i = map_option su_cursor_lsn (ro_subs ro i))
      \<and> shared_inv n (map_of (ro_holders ro)) (ro_subgraphs ro)
      \<and> (\<forall>i s g. ro_subs ro i = Some s \<longrightarrow> map_of (ro_holders ro) i = Some g \<longrightarrow>
            (\<exists>e. map_of (sg_entries (ro_subgraphs ro)) g = Some e \<and> se_key e = subgraph_key show_f64 s))
      \<and> (\<forall>i c. map_of (ro_channels ro) i = Some c \<longrightarrow> channel_inv c))"

lemma router_invD:
  assumes "router_inv show_f64 n ro"
  shows "registry_inv (ro_registry ro)" "bt_invar (ro_channels ro)" "bt_invar (ro_holders ro)"
    "bt_invar (wm_subscribers (ro_ack ro))"
    "dom (map_of (ro_channels ro)) = dom (ro_subs ro)" "dom (map_of (ro_holders ro)) = dom (ro_subs ro)"
    "map_of (wm_subscribers (ro_ack ro)) i = map_option su_cursor_lsn (ro_subs ro i)"
    "shared_inv n (map_of (ro_holders ro)) (ro_subgraphs ro)"
    "ro_subs ro i = Some s \<Longrightarrow> map_of (ro_holders ro) i = Some g \<Longrightarrow>
       \<exists>e. map_of (sg_entries (ro_subgraphs ro)) g = Some e \<and> se_key e = subgraph_key show_f64 s"
    "map_of (ro_channels ro) i = Some c \<Longrightarrow> channel_inv c"
  using assms unfolding router_inv_def by blast+

lemma router_inv_new: "router_inv show_f64 0 router_new"
  using shared_inv_new registry_inv_new
  by (simp add: router_inv_def router_new_def watermarks_new_def) (simp add: registry_new_def)

lemma router_inv_mono: "router_inv show_f64 n ro \<Longrightarrow> n \<le> m \<Longrightarrow> router_inv show_f64 m ro"
  unfolding router_inv_def shared_inv_def by (elim conjE) (intro conjI; (assumption | linarith))

lemma channel_inv_try_send: "channel_inv c \<Longrightarrow> channel_inv (snd (channel_try_send ev c))"
  by (simp add: channel_inv_def channel_try_send_def)

lemma channel_inv_force_resync: "channel_inv c \<Longrightarrow> channel_inv (force_resync reason c)"
  by (simp add: channel_inv_def force_resync_def)

lemma channel_inv_recv: "channel_inv c \<Longrightarrow> channel_inv (snd (channel_recv c))"
  by (cases "dc_queue c") (simp_all add: channel_inv_def channel_recv_def)

text \<open>A change of the channels alone.\<close>

lemma router_inv_channels:
  assumes inv: "router_inv show_f64 n ro" and bt: "bt_invar chs" and dom: "dom (map_of chs) = dom (ro_subs ro)"
    and ok: "\<And>i c. map_of chs i = Some c \<Longrightarrow> channel_inv c"
  shows "router_inv show_f64 n (ro\<lparr>ro_channels := chs\<rparr>)"
  using router_invD [OF inv] bt dom ok unfolding router_inv_def by simp

lemma router_inv_channel:
  assumes inv: "router_inv show_f64 n ro" and c: "map_of (ro_channels ro) i = Some c" and c': "channel_inv c'"
  shows "router_inv show_f64 n (ro\<lparr>ro_channels := bt_insert i c' (ro_channels ro)\<rparr>)"
proof (rule router_inv_channels [OF inv])
  note D = router_invD [OF inv]
  show "bt_invar (bt_insert i c' (ro_channels ro))" by (rule bt_invar_insert [OF D(2)])
  show "dom (map_of (bt_insert i c' (ro_channels ro))) = dom (ro_subs ro)"
    using c by (auto simp: map_of_bt_insert D(2) D(5) [symmetric])
  show "map_of (bt_insert i c' (ro_channels ro)) j = Some d \<Longrightarrow> channel_inv d" for j d
    using c' D(10) by (auto simp: map_of_bt_insert D(2) split: if_splits)
qed

text \<open>A change of a record that keeps its identity, its cursor and its key.\<close>

lemma router_inv_state:
  assumes inv: "router_inv show_f64 n ro"
  shows "router_inv show_f64 n (set_sub_state i st ro)"
proof (cases "ro_subs ro i")
  case (Some s)
  note D = router_invD [OF inv]
  let ?t = "s\<lparr>su_state := st\<rparr>"
  have id: "su_id s = i" using registry_invD(4) [OF D(1) Some] .
  have subs: "map_of (bt_insert i ?t (by_id (ro_registry ro))) = (ro_subs ro)(i \<mapsto> ?t)"
    by (simp add: map_of_bt_insert registry_invD(1) [OF D(1)])
  have reg: "registry_inv ((ro_registry ro)\<lparr>by_id := bt_insert i ?t (by_id (ro_registry ro))\<rparr>)"
    by (rule registry_inv_update [OF D(1) Some]) (simp_all add: id)
  have cursor: "map_option su_cursor_lsn (((ro_subs ro)(i \<mapsto> ?t)) j) = map_option su_cursor_lsn (ro_subs ro j)" for j
    using Some by simp
  have keys: "((ro_subs ro)(i \<mapsto> ?t)) j = Some u \<Longrightarrow> map_of (ro_holders ro) j = Some g \<Longrightarrow>
       \<exists>e. map_of (sg_entries (ro_subgraphs ro)) g = Some e \<and> se_key e = subgraph_key show_f64 u" for j u g
    using D(9) [of j u g] D(9) [of i s g] Some by (cases "j = i") (auto simp: subgraph_key_def)
  have dom: "dom ((ro_subs ro)(i \<mapsto> ?t)) = dom (ro_subs ro)" using Some by auto
  show ?thesis
    using D(2-8,10) reg keys unfolding router_inv_def set_sub_state_def Some
    by (simp add: subs dom cursor del: dom_fun_upd fun_upd_apply)
qed (use inv in \<open>simp add: set_sub_state_def\<close>)

lemma router_inv_pump_event:
  assumes inv: "router_inv show_f64 n ro"
  shows "router_inv show_f64 n (snd (router_pump_event i ev ro))"
proof (cases "map_of (ro_channels ro) i")
  case (Some c)
  obtain r c' where send: "channel_try_send ev c = (r, c')" by (cases "channel_try_send ev c")
  have ok: "channel_inv c'" using channel_inv_try_send [OF router_invD(10) [OF inv Some], of ev] send by simp
  show ?thesis
    using inv router_inv_state [OF router_inv_channel [OF inv Some ok]]
      router_inv_state [OF router_inv_channel [OF inv Some channel_inv_force_resync [OF ok]]]
    by (cases r) (simp_all add: router_pump_event_def Some send)
qed (use inv in \<open>simp add: router_pump_event_def\<close>)

lemma router_inv_set_rules:
  assumes inv: "router_inv show_f64 n ro"
  shows "router_inv show_f64 n (set_rules rules ro)"
proof -
  note D = router_invD [OF inv]
  let ?chs = "map (\<lambda>(i, c). (i, force_resync PermissionsChanged c)) (ro_channels ro)"
  have lookup: "map_of ?chs = (\<lambda>i. map_option (force_resync PermissionsChanged) (map_of (ro_channels ro) i))"
    by (rule ext) (simp add: map_of_map)
  have bt: "bt_invar ?chs" using D(2) by (simp add: bt_invar_def comp_def case_prod_beta)
  have "router_inv show_f64 n (ro\<lparr>ro_channels := ?chs\<rparr>)"
  proof (rule router_inv_channels [OF inv bt])
    have "dom (map_of ?chs) = dom (map_of (ro_channels ro))" unfolding lookup dom_def by auto
    then show "dom (map_of ?chs) = dom (ro_subs ro)" using D(5) by (rule trans)
    show "map_of ?chs i = Some c \<Longrightarrow> channel_inv c" for i c
      using D(10) channel_inv_force_resync by (auto simp: lookup)
  qed
  then show ?thesis by (simp add: set_rules_def router_inv_def)
qed

lemma router_inv_ack:
  assumes inv: "router_inv show_f64 n ro"
  shows "router_inv show_f64 n (snd (router_ack i at ro))"
proof (cases "ro_subs ro i")
  case (Some s)
  note D = router_invD [OF inv]
  let ?t = "s\<lparr>su_cursor_lsn := at\<rparr>"
  show ?thesis
  proof (cases "at \<le> su_cursor_lsn s")
    case True
    then show ?thesis using inv by (simp add: router_ack_def Some tracker_ack_def)
  next
    case False
    have id: "su_id s = i" using registry_invD(4) [OF D(1) Some] .
    have subs: "map_of (bt_insert i ?t (by_id (ro_registry ro))) = (ro_subs ro)(i \<mapsto> ?t)"
      by (simp add: map_of_bt_insert registry_invD(1) [OF D(1)])
    have reg: "registry_inv ((ro_registry ro)\<lparr>by_id := bt_insert i ?t (by_id (ro_registry ro))\<rparr>)"
      by (rule registry_inv_update [OF D(1) Some]) (simp_all add: id)
    have keys: "((ro_subs ro)(i \<mapsto> ?t)) j = Some u \<Longrightarrow> map_of (ro_holders ro) j = Some g \<Longrightarrow>
         \<exists>e. map_of (sg_entries (ro_subgraphs ro)) g = Some e \<and> se_key e = subgraph_key show_f64 u" for j u g
      using D(9) [of j u g] D(9) [of i s g] Some by (cases "j = i") (auto simp: subgraph_key_def)
    have dom: "dom ((ro_subs ro)(i \<mapsto> ?t)) = dom (ro_subs ro)" using Some by auto
    have mark: "map_of (wm_subscribers (ro_ack ro)) i = Some (su_cursor_lsn s)" using D(7) Some by simp
    have wms: "wm_subscribers (watermarks_update i at (ro_ack ro)) = bt_insert i at (wm_subscribers (ro_ack ro))"
      using False by (simp add: watermarks_update_def mark max_absorb2)
    have cursor: "map_of (bt_insert i at (wm_subscribers (ro_ack ro))) j = map_option su_cursor_lsn (((ro_subs ro)(i \<mapsto> ?t)) j)" for j
      using D(7) [of j] by (simp add: map_of_bt_insert D(4))
    show ?thesis
      using D(2-6,8,10) reg keys False unfolding router_inv_def router_ack_def Some tracker_ack_def
      by (simp add: subs dom wms cursor bt_invar_insert del: dom_fun_upd fun_upd_apply)
  qed
qed (use inv in \<open>simp add: router_ack_def\<close>)


lemma prepared_channel_inv:
  assumes "subscribe_prepare show_f64 run fetch cfg rules rq = Ok pp"
  shows "channel_inv (pp_channel pp)"
proof -
  obtain x :: "mir_graph \<times> rewrite_stats" where x: "(case x of (g, stats) \<Rightarrow>
       if filters_inserted stats > 0 \<and> rq_compiled_plan rq = None
       then Err (PermissionUnenforceable
              (case first_rule_guarded_table (rq_graph rq) rules of None \<Rightarrow> ''<unknown>'' | Some t \<Rightarrow> t))
       else rbind (initial_rows run fetch rq) (prepare_channel cfg rq stats)) = Ok pp"
    using assms unfolding subscribe_prepare_def rbind_eq_Ok by blast
  obtain y stats where "prepare_channel cfg rq stats y = Ok pp"
    using x by (cases x) (auto simp: rbind_eq_Ok split: if_splits)
  then obtain ch where ch: "channel_new (cf_channel_capacity cfg) (cf_backpressure cfg) = (Ok ch :: (diff_channel, router_error) result)"
    and pp: "pp_channel pp = ch \<or> (\<exists>ev. channel_try_send ev ch = (Sent, pp_channel pp))"
  proof -
    obtain at rows seeds where y: "y = (at, rows, seeds)" by (cases y)
    assume prep: "prepare_channel cfg rq stats y = Ok pp" and
      goal: "\<And>ch. channel_new (cf_channel_capacity cfg) (cf_backpressure cfg) = (Ok ch :: (diff_channel, router_error) result) \<Longrightarrow>
        pp_channel pp = ch \<or> (\<exists>ev. channel_try_send ev ch = (Sent, pp_channel pp)) \<Longrightarrow> thesis"
    obtain ch where ch: "channel_new (cf_channel_capacity cfg) (cf_backpressure cfg) = (Ok ch :: (diff_channel, router_error) result)"
      using prep unfolding prepare_channel_def y by (auto simp: rbind_eq_Ok Let_def)
    obtain r ch' where send: "channel_try_send (DeInitial at rows) ch = (r, ch')" by (cases "channel_try_send (DeInitial at rows) ch")
    have "pp_channel pp = ch \<or> (\<exists>ev. channel_try_send ev ch = (Sent, pp_channel pp))"
      using prep send unfolding prepare_channel_def y
      by (cases "resolve_resume (rq_resume_lsn rq) \<lparr>cw_earliest_replayable = at, cw_latest_known = cf_default_latest_known_lsn cfg\<rparr>";
          cases r) (auto simp: ch Let_def)
    with ch show thesis by (rule goal)
  qed
  have "channel_inv ch" using ch by (auto simp: channel_new_def channel_inv_def split: if_splits)
  then show ?thesis using pp channel_inv_try_send [of ch] by (metis snd_conv)
qed

lemma router_inv_subscribe_commit:
  assumes inv: "router_inv show_f64 n ro" and fresh: "ro_subs ro (rq_subscription_id rq) = None"
    and n: "n < 2 ^ 64 - 1" and ch: "channel_inv (pp_channel pp)"
    and commit: "subscribe_commit show_f64 pp rq ro = Ok (resp, ro')"
  shows "router_inv show_f64 (Suc n) ro'" "dom (ro_subs ro') = insert (rq_subscription_id rq) (dom (ro_subs ro))"
proof -
  note D = router_invD [OF inv]
  let ?i = "rq_subscription_id rq" and ?k = "canonical_subgraph_key show_f64 (rq_query rq) (rq_user_ctx rq)"
  define s where "s = \<lparr>su_id = ?i, su_client_id = rq_client_id rq, su_connection = rq_connection rq,
     su_query = rq_query rq, su_user_ctx = rq_user_ctx rq, su_schema_id = sd_id (rq_schema rq),
     su_snapshot_lsn = pp_snapshot_lsn pp, su_cursor_lsn = pp_snapshot_lsn pp, su_state = Seeding\<rparr>"
  have sid: "su_id s = ?i" "su_cursor_lsn s = pp_snapshot_lsn pp" "subgraph_key show_f64 s = ?k"
    by (simp_all add: s_def subgraph_key_def)
  have unheld: "map_of (ro_holders ro) ?i = None" "map_of (ro_channels ro) ?i = None"
    "map_of (wm_subscribers (ro_ack ro)) ?i = None"
    using fresh D(5,6) D(7) [of ?i] by auto
  obtain acq g' e where acq: "shared_acquire ?k (ro_subgraphs ro) = (Ok (acq, g') :: (_, router_error) result)"
    and sinv: "shared_inv (Suc n) ((map_of (ro_holders ro))(?i \<mapsto> acquire_id acq)) g'"
    and e: "map_of (sg_entries g') (acquire_id acq) = Some e" "se_key e = ?k"
    and others: "\<And>j. j \<noteq> acquire_id acq \<Longrightarrow> map_of (sg_entries g') j = map_of (sg_entries (ro_subgraphs ro)) j"
    and samekey: "\<And>f. map_of (sg_entries (ro_subgraphs ro)) (acquire_id acq) = Some f \<Longrightarrow> se_key f = ?k"
    using shared_inv_acquire [OF D(8) unheld(1) n, of ?k] by blast
  obtain reg where ins: "registry_insert s (ro_registry ro) = Ok reg"
    and ro': "ro' = ro\<lparr>ro_registry := reg, ro_subgraphs := g',
                  ro_holders := bt_insert ?i (acquire_id acq) (ro_holders ro),
                  ro_ack := tracker_install ?i (pp_snapshot_lsn pp) (ro_ack ro),
                  ro_channels := bt_insert ?i (pp_channel pp) (ro_channels ro),
                  ro_schemas := bt_insert (sd_id (rq_schema rq)) (rq_schema rq) (ro_schemas ro)\<rparr>"
    using commit unfolding subscribe_commit_def Let_def s_def [symmetric] acq
    by (auto simp: rbind_eq_Ok)
  have fresh': "map_of (by_id (ro_registry ro)) (su_id s) = None" using fresh sid by simp
  note R = registry_inv_insert [OF D(1) fresh' ins]
  have subs: "ro_subs ro' = (ro_subs ro)(?i \<mapsto> s)" using R(2) sid by (simp add: ro')
  have holders: "map_of (ro_holders ro') = (map_of (ro_holders ro))(?i \<mapsto> acquire_id acq)"
    by (simp add: ro' map_of_bt_insert D(3))
  have chans: "map_of (ro_channels ro') = (map_of (ro_channels ro))(?i \<mapsto> pp_channel pp)"
    by (simp add: ro' map_of_bt_insert D(2))
  have wms: "wm_subscribers (ro_ack ro') = bt_insert ?i (pp_snapshot_lsn pp) (wm_subscribers (ro_ack ro))"
    by (simp add: ro' tracker_install_def watermarks_update_def unheld)
  show dom: "dom (ro_subs ro') = insert ?i (dom (ro_subs ro))" by (simp add: subs)
  show "router_inv show_f64 (Suc n) ro'"
    unfolding router_inv_def
  proof (intro conjI allI impI)
    show "registry_inv (ro_registry ro')" using R(1) by (simp add: ro')
    show "bt_invar (ro_channels ro')" "bt_invar (ro_holders ro')" by (simp_all add: ro' bt_invar_insert D(2,3))
    show "bt_invar (wm_subscribers (ro_ack ro'))" by (simp add: wms bt_invar_insert D(4))
    show "dom (map_of (ro_channels ro')) = dom (ro_subs ro')" "dom (map_of (ro_holders ro')) = dom (ro_subs ro')"
      by (simp_all add: dom chans holders D(5,6))
    show "map_of (wm_subscribers (ro_ack ro')) j = map_option su_cursor_lsn (ro_subs ro' j)" for j
      using D(7) [of j] sid by (simp add: wms map_of_bt_insert D(4) subs)
    show "shared_inv (Suc n) (map_of (ro_holders ro')) (ro_subgraphs ro')" using sinv by (simp add: holders) (simp add: ro')
    show "map_of (ro_channels ro') j = Some c \<Longrightarrow> channel_inv c" for j c
      using ch D(10) by (auto simp: chans split: if_splits)
    show "\<exists>f. map_of (sg_entries (ro_subgraphs ro')) g = Some f \<and> se_key f = subgraph_key show_f64 u"
      if u: "ro_subs ro' j = Some u" and g: "map_of (ro_holders ro') j = Some g" for j u g
    proof (cases "j = ?i")
      case True
      then show ?thesis using u g e sid by (simp add: subs holders) (simp add: ro')
    next
      case False
      then obtain f where f: "map_of (sg_entries (ro_subgraphs ro)) g = Some f" "se_key f = subgraph_key show_f64 u"
        using D(9) [of j u g] u g by (auto simp: subs holders)
      then show ?thesis using e samekey others [of g] by (cases "g = acquire_id acq") (auto simp: ro')
    qed
  qed
qed

lemma unsubscribe_unknown: "ro_subs ro i = None \<Longrightarrow> unsubscribe i ro = (Err (UnknownSubscription i), ro)"
  by (simp add: unsubscribe_def registry_drop_def)

lemma router_inv_unsubscribe:
  assumes inv: "router_inv show_f64 n ro"
  shows "router_inv show_f64 n (snd (unsubscribe i ro))"
    "ro_subs (snd (unsubscribe i ro)) = (ro_subs ro)(i := None)"
    "map_of (ro_channels (snd (unsubscribe i ro))) = (map_of (ro_channels ro))(i := None)"
    "map_of (ro_holders (snd (unsubscribe i ro))) = (map_of (ro_holders ro))(i := None)"
proof -
  note D = router_invD [OF inv]
  let ?ro = "snd (unsubscribe i ro)"
  have "router_inv show_f64 n ?ro \<and> ro_subs ?ro = (ro_subs ro)(i := None)
    \<and> map_of (ro_channels ?ro) = (map_of (ro_channels ro))(i := None)
    \<and> map_of (ro_holders ?ro) = (map_of (ro_holders ro))(i := None)"
  proof (cases "ro_subs ro i")
    case None
    then have "map_of (ro_channels ro) i = None" "map_of (ro_holders ro) i = None" using D(5,6) by auto
    then show ?thesis using inv None by (simp add: unsubscribe_unknown fun_upd_idem)
  next
    case (Some s)
    then obtain g where g: "map_of (ro_holders ro) i = Some g" using D(6) by blast
    note R = registry_inv_drop [OF D(1) Some] and S = shared_inv_release [OF D(8) g]
    have ro': "?ro = ro\<lparr>ro_registry := snd (registry_drop i (ro_registry ro)), ro_ack := snd (watermarks_remove i (ro_ack ro)),
        ro_subgraphs := snd (shared_release g (ro_subgraphs ro)),
        ro_holders := bt_remove i (ro_holders ro), ro_channels := bt_remove i (ro_channels ro)\<rparr>"
      using R(2) by (simp add: unsubscribe_def g case_prod_beta split: option.split)
    have subs: "ro_subs ?ro = (ro_subs ro)(i := None)" using R(3) by (simp add: ro')
    have holders: "map_of (ro_holders ?ro) = (map_of (ro_holders ro))(i := None)" by (simp add: ro' map_of_bt_remove D(3))
    have chans: "map_of (ro_channels ?ro) = (map_of (ro_channels ro))(i := None)" by (simp add: ro' map_of_bt_remove D(2))
    have wms: "wm_subscribers (ro_ack ?ro) = bt_remove i (wm_subscribers (ro_ack ro))"
      by (simp add: ro' watermarks_remove_def)
    have "router_inv show_f64 n ?ro"
      unfolding router_inv_def
    proof (intro conjI allI impI)
      show "registry_inv (ro_registry ?ro)" using R(1) by (simp add: ro')
      show "bt_invar (ro_channels ?ro)" "bt_invar (ro_holders ?ro)" by (simp_all add: ro' bt_invar_remove D(2,3))
      show "bt_invar (wm_subscribers (ro_ack ?ro))" by (simp add: wms bt_invar_remove D(4))
      show "dom (map_of (ro_channels ?ro)) = dom (ro_subs ?ro)" "dom (map_of (ro_holders ?ro)) = dom (ro_subs ?ro)"
        by (simp_all add: subs chans holders D(5,6))
      show "map_of (wm_subscribers (ro_ack ?ro)) j = map_option su_cursor_lsn (ro_subs ?ro j)" for j
        using D(7) [of j] by (simp add: wms map_of_bt_remove D(4) subs)
      show "shared_inv n (map_of (ro_holders ?ro)) (ro_subgraphs ?ro)"
        using S(1) by (simp only: holders) (simp add: ro')
      show "map_of (ro_channels ?ro) j = Some c \<Longrightarrow> channel_inv c" for j c
        using D(10) by (auto simp: chans split: if_splits)
      show "\<exists>f. map_of (sg_entries (ro_subgraphs ?ro)) g' = Some f \<and> se_key f = subgraph_key show_f64 u"
        if u: "ro_subs ?ro j = Some u" and g': "map_of (ro_holders ?ro) j = Some g'" for j u g'
      proof -
        have old: "ro_subs ro j = Some u" "map_of (ro_holders ro) j = Some g'" using u g' by (auto simp: subs holders split: if_splits)
        have kept: "shared_inv n ((map_of (ro_holders ro))(i := None)) (ro_subgraphs ?ro)" using S(1) by (simp add: ro')
        have "map_of (sg_entries (ro_subgraphs ?ro)) g' \<noteq> None"
          using shared_invD(8) [OF kept, of g'] g' unfolding holders by blast
        then obtain f where f: "map_of (sg_entries (ro_subgraphs ?ro)) g' = Some f" by blast
        then obtain f' where "map_of (sg_entries (ro_subgraphs ro)) g' = Some f'" "se_key f' = se_key f"
          using S(2) [of g' f] by (auto simp: ro')
        then show ?thesis using D(9) [OF old] f by auto
      qed
    qed
    then show ?thesis using subs holders chans by blast
  qed
  then show "router_inv show_f64 n ?ro" "ro_subs ?ro = (ro_subs ro)(i := None)"
    "map_of (ro_channels ?ro) = (map_of (ro_channels ro))(i := None)"
    "map_of (ro_holders ?ro) = (map_of (ro_holders ro))(i := None)" by blast+
qed


section \<open>Reachable routers\<close>

text \<open>\<open>next_id\<close> is the allocator, which starts at 1, \<open>pending\<close> the identifiers handed out and not yet registered.  A
  subscribe takes the lock twice: it is prepared under the rules of an earlier moment and committed
  later, so \<open>rules\<close> is any list.\<close>

inductive router_run ::
    "(u64 \<Rightarrow> string) \<Rightarrow> ('p \<Rightarrow> (table_id, row list) btree \<Rightarrow> row list)
       \<Rightarrow> (string \<Rightarrow> (snapshot_batch, string) result) \<Rightarrow> router_config
       \<Rightarrow> u64 \<Rightarrow> subscription_id set \<Rightarrow> router \<Rightarrow> bool"
  for show_f64 run fetch cfg where
  run_new: "router_run show_f64 run fetch cfg 1 {} router_new"
| run_allocate: "router_run show_f64 run fetch cfg next_id pending ro \<Longrightarrow> next_id < - 1 \<Longrightarrow>
    allocate_subscription_id next_id = (i, next_id') \<Longrightarrow>
    router_run show_f64 run fetch cfg next_id' (insert i pending) ro"
| run_subscribe: "router_run show_f64 run fetch cfg next_id pending ro \<Longrightarrow> rq_subscription_id rq \<in> pending \<Longrightarrow>
    subscribe_prepare show_f64 run fetch cfg rules rq = Ok pp \<Longrightarrow>
    subscribe_commit show_f64 pp rq ro = Ok (resp, ro') \<Longrightarrow>
    router_run show_f64 run fetch cfg next_id (pending - {rq_subscription_id rq}) ro'"
| run_refused: "router_run show_f64 run fetch cfg next_id pending ro \<Longrightarrow>
    router_run show_f64 run fetch cfg next_id (pending - {i}) ro"
| run_pump: "router_run show_f64 run fetch cfg next_id pending ro \<Longrightarrow>
    router_run show_f64 run fetch cfg next_id pending (snd (router_pump_event i ev ro))"
| run_recv: "router_run show_f64 run fetch cfg next_id pending ro \<Longrightarrow> map_of (ro_channels ro) i = Some c \<Longrightarrow>
    router_run show_f64 run fetch cfg next_id pending
      (ro\<lparr>ro_channels := bt_insert i (snd (channel_recv c)) (ro_channels ro)\<rparr>)"
| run_ack: "router_run show_f64 run fetch cfg next_id pending ro \<Longrightarrow>
    router_run show_f64 run fetch cfg next_id pending (snd (router_ack i at ro))"
| run_set_rules: "router_run show_f64 run fetch cfg next_id pending ro \<Longrightarrow>
    router_run show_f64 run fetch cfg next_id pending (set_rules rules ro)"
| run_unsubscribe: "router_run show_f64 run fetch cfg next_id pending ro \<Longrightarrow>
    router_run show_f64 run fetch cfg next_id pending (snd (unsubscribe i ro))"
| run_disconnect: "router_run show_f64 run fetch cfg next_id pending ro \<Longrightarrow>
    router_run show_f64 run fetch cfg next_id pending (snd (disconnect conn ro))"

definition reachable_inv :: "(u64 \<Rightarrow> string) \<Rightarrow> u64 \<Rightarrow> subscription_id set \<Rightarrow> router \<Rightarrow> bool" where
  "reachable_inv show_f64 next_id pending ro =
     (finite pending \<and> (\<forall>i \<in> pending. i < next_id) \<and> pending \<inter> dom (ro_subs ro) = {}
      \<and> (\<forall>i \<in> dom (ro_subs ro). i < next_id)
      \<and> (\<exists>n. n + card pending \<le> unat next_id \<and> router_inv show_f64 n ro))"

lemma ro_subs_pump_event:
  assumes "router_inv show_f64 n ro"
  shows "dom (ro_subs (snd (router_pump_event i ev ro))) = dom (ro_subs ro)"
proof -
  note inv = registry_invD(1) [OF router_invD(1) [OF assms]]
  have st: "dom (ro_subs (set_sub_state i st r)) = dom (ro_subs r)" if "bt_invar (by_id (ro_registry r))" for st r
    using that by (auto simp: set_sub_state_def map_of_bt_insert split: option.split)
  show ?thesis
    using inv by (simp add: router_pump_event_def st split: option.split prod.split backpressure_outcome.split)
qed

lemma ro_subs_ack:
  assumes "router_inv show_f64 n ro"
  shows "dom (ro_subs (snd (router_ack i at ro))) = dom (ro_subs ro)"
  using registry_invD(1) [OF router_invD(1) [OF assms]]
  by (auto simp: router_ack_def tracker_ack_def map_of_bt_insert split: option.split)

lemma unsubscribe_all_inv:
  assumes "router_inv show_f64 n ro"
  shows "router_inv show_f64 n (snd (unsubscribe_all is ro))"
    "ro_subs (snd (unsubscribe_all is ro)) = ro_subs ro |` (- set is)"
    "map_of (ro_channels (snd (unsubscribe_all is ro))) = map_of (ro_channels ro) |` (- set is)"
    "map_of (ro_holders (snd (unsubscribe_all is ro))) = map_of (ro_holders ro) |` (- set is)"
proof -
  have "router_inv show_f64 n (snd (unsubscribe_all is ro)) \<and> ro_subs (snd (unsubscribe_all is ro)) = ro_subs ro |` (- set is)
    \<and> map_of (ro_channels (snd (unsubscribe_all is ro))) = map_of (ro_channels ro) |` (- set is)
    \<and> map_of (ro_holders (snd (unsubscribe_all is ro))) = map_of (ro_holders ro) |` (- set is)"
    using assms
  proof (induction "is" arbitrary: ro)
    case (Cons i "is")
    note U = router_inv_unsubscribe [OF Cons.prems, of i]
    have upd: "m(i := None) |` (- set is) = m |` (- set (i # is))" for m :: "subscription_id \<rightharpoonup> 'b"
      by (rule ext) (simp add: restrict_map_def)
    have snd_all: "snd (unsubscribe_all (i # is) ro) = snd (unsubscribe_all is (snd (unsubscribe i ro)))"
      by (simp add: case_prod_beta)
    show ?case using Cons.IH [OF U(1)] unfolding snd_all U(2-4) upd .
  qed (simp add: restrict_map_def)
  then show "router_inv show_f64 n (snd (unsubscribe_all is ro))"
    "ro_subs (snd (unsubscribe_all is ro)) = ro_subs ro |` (- set is)"
    "map_of (ro_channels (snd (unsubscribe_all is ro))) = map_of (ro_channels ro) |` (- set is)"
    "map_of (ro_holders (snd (unsubscribe_all is ro))) = map_of (ro_holders ro) |` (- set is)" by blast+
qed

text \<open>A step that registers nothing.\<close>

lemma reachable_inv_step:
  assumes "reachable_inv show_f64 next_id pending ro"
    and "\<And>n. router_inv show_f64 n ro \<Longrightarrow> router_inv show_f64 n ro' \<and> dom (ro_subs ro') \<subseteq> dom (ro_subs ro)"
  shows "reachable_inv show_f64 next_id pending ro'"
  using assms unfolding reachable_inv_def by blast

lemma unat_next_id: "(x :: u64) < - 1 \<Longrightarrow> unat (x + 1) = Suc (unat x)"
  by (simp add: word_less_nat_alt unat_word_ariths unsigned_minus_1_eq_mask mask_eq_exp_minus_1)

lemma reachable_inv_allocate:
  assumes inv: "reachable_inv show_f64 next_id pending ro" and room: "next_id < - 1"
  shows "reachable_inv show_f64 (next_id + 1) (insert next_id pending) ro"
proof -
  have suc: "unat (next_id + 1) = Suc (unat next_id)" using room by (rule unat_next_id)
  have less: "next_id < next_id + 1" using suc by (simp add: word_less_nat_alt)
  have "next_id \<notin> pending" "next_id \<notin> dom (ro_subs ro)" using inv unfolding reachable_inv_def by auto
  moreover have "i < next_id \<Longrightarrow> i < next_id + 1" for i using less by (rule less_trans [rotated])
  ultimately show ?thesis using inv less suc unfolding reachable_inv_def by auto
qed

lemma reachable_inv_subscribe:
  assumes inv: "reachable_inv show_f64 next_id pending ro" and i: "rq_subscription_id rq \<in> pending"
    and prep: "subscribe_prepare show_f64 run fetch cfg rules rq = Ok pp"
    and commit: "subscribe_commit show_f64 pp rq ro = Ok (resp, ro')"
  shows "reachable_inv show_f64 next_id (pending - {rq_subscription_id rq}) ro'"
proof -
  obtain n where n: "n + card pending \<le> unat next_id" "router_inv show_f64 n ro"
    and fin: "finite pending" and lt: "\<forall>i \<in> pending. i < next_id" and fresh: "pending \<inter> dom (ro_subs ro) = {}"
    and subs: "\<forall>i \<in> dom (ro_subs ro). i < next_id"
    using inv unfolding reachable_inv_def by blast
  have none: "ro_subs ro (rq_subscription_id rq) = None" using i fresh by (cases "ro_subs ro (rq_subscription_id rq)") auto
  have pos: "0 < card pending" using i fin by (auto simp: card_gt_0_iff)
  have "unat next_id < 2 ^ 64" using unsigned_less [of next_id] by simp
  then have small: "n < 2 ^ 64 - 1" using n(1) pos by simp
  note C = router_inv_subscribe_commit [OF n(2) none small prepared_channel_inv [OF prep] commit]
  have "Suc n + card (pending - {rq_subscription_id rq}) \<le> unat next_id" using n(1) pos i fin by simp
  then show ?thesis using C fin lt fresh subs i unfolding reachable_inv_def by auto
qed

lemma reachable_inv_run: "router_run show_f64 run fetch cfg next_id pending ro \<Longrightarrow> reachable_inv show_f64 next_id pending ro"
proof (induction rule: router_run.induct)
  case run_new
  have "ro_subs router_new = Map.empty" by (simp add: router_new_def registry_new_def)
  then show ?case using router_inv_new unfolding reachable_inv_def by auto
next
  case (run_allocate next_id pending ro i next_id')
  then show ?case using reachable_inv_allocate by (auto simp: allocate_subscription_id_def)
next
  case (run_subscribe next_id pending ro rq rules pp resp ro')
  show ?case by (rule reachable_inv_subscribe [OF run_subscribe.IH run_subscribe.hyps(2-4)])
next
  case (run_refused next_id pending ro i)
  obtain n where n: "n + card pending \<le> unat next_id" "router_inv show_f64 n ro" and fin: "finite pending"
    using run_refused.IH unfolding reachable_inv_def by blast
  have "n + card (pending - {i}) \<le> unat next_id" using n(1) card_Diff1_le [of pending i] by simp
  then show ?case using run_refused.IH n(2) fin unfolding reachable_inv_def by blast
next
  case (run_pump next_id pending ro i ev)
  show ?case by (rule reachable_inv_step [OF run_pump.IH]) (simp add: router_inv_pump_event ro_subs_pump_event)
next
  case (run_recv next_id pending ro i c)
  show ?case
    by (rule reachable_inv_step [OF run_recv.IH])
      (simp add: router_inv_channel [OF _ run_recv.hyps(2)] channel_inv_recv router_invD(10) [OF _ run_recv.hyps(2)])
next
  case (run_ack next_id pending ro i at)
  show ?case by (rule reachable_inv_step [OF run_ack.IH]) (simp add: router_inv_ack ro_subs_ack)
next
  case (run_set_rules next_id pending ro rules)
  show ?case by (rule reachable_inv_step [OF run_set_rules.IH]) (simp add: router_inv_set_rules, simp add: set_rules_def)
next
  case (run_unsubscribe next_id pending ro i)
  show ?case
    by (rule reachable_inv_step [OF run_unsubscribe.IH]) (auto simp: router_inv_unsubscribe)
next
  case (run_disconnect next_id pending ro conn)
  show ?case
    by (rule reachable_inv_step [OF run_disconnect.IH]) (simp add: disconnect_def unsubscribe_all_inv)
qed


section \<open>Tearing down\<close>

abbreviation ro_entries :: "router \<Rightarrow> shared_subgraph_id \<rightharpoonup> shared_subgraph_entry" where
  "ro_entries ro \<equiv> map_of (sg_entries (ro_subgraphs ro))"

lemma release_entries:
  assumes "bt_invar (sg_entries g)"
  shows "map_option se_key (map_of (sg_entries (snd (shared_release i g))) j) =
      (if \<exists>k. fst (shared_release i g) = Some (Teardown j k) then None else map_option se_key (map_of (sg_entries g) j))"
    and "(fst (shared_release i g) = Some (Teardown j k)) \<Longrightarrow> map_option se_key (map_of (sg_entries g) j) = Some k"
  using assms
  by (auto simp: shared_release_def Let_def map_of_bt_insert map_of_bt_remove split: option.splits if_splits)

lemma unsubscribe_entries:
  assumes inv: "router_inv show_f64 n ro"
  shows "map_option se_key (ro_entries (snd (unsubscribe i ro)) g) =
      (if \<exists>k. fst (unsubscribe i ro) = Ok (Some (Teardown g k)) then None else map_option se_key (ro_entries ro g))"
    and "fst (unsubscribe i ro) = Ok (Some (Teardown g k)) \<Longrightarrow> map_option se_key (ro_entries ro g) = Some k"
proof -
  note D = router_invD [OF inv]
  have bt: "bt_invar (sg_entries (ro_subgraphs ro))" by (rule shared_invD(2) [OF D(8)])
  have "map_option se_key (ro_entries (snd (unsubscribe i ro)) g) =
      (if \<exists>k. fst (unsubscribe i ro) = Ok (Some (Teardown g k)) then None else map_option se_key (ro_entries ro g))
    \<and> (fst (unsubscribe i ro) = Ok (Some (Teardown g k)) \<longrightarrow> map_option se_key (ro_entries ro g) = Some k)"
  proof (cases "ro_subs ro i")
    case (Some s)
    then obtain j where j: "map_of (ro_holders ro) i = Some j" using D(6) by blast
    have "fst (unsubscribe i ro) = Ok (fst (shared_release j (ro_subgraphs ro)))"
      "ro_subgraphs (snd (unsubscribe i ro)) = snd (shared_release j (ro_subgraphs ro))"
      using registry_inv_drop(2) [OF D(1) Some] by (simp_all add: unsubscribe_def j case_prod_beta split: option.split)
    then show ?thesis using release_entries [OF bt, of j] by simp
  qed (simp add: unsubscribe_unknown)
  then show "map_option se_key (ro_entries (snd (unsubscribe i ro)) g) =
      (if \<exists>k. fst (unsubscribe i ro) = Ok (Some (Teardown g k)) then None else map_option se_key (ro_entries ro g))"
    and "fst (unsubscribe i ro) = Ok (Some (Teardown g k)) \<Longrightarrow> map_option se_key (ro_entries ro g) = Some k"
    by blast+
qed

lemma unsubscribe_all_teardown:
  assumes "router_inv show_f64 n ro"
  shows "(Teardown g k \<in> set (fst (unsubscribe_all is ro)) \<longleftrightarrow>
      map_option se_key (ro_entries ro g) = Some k \<and> map_option se_key (ro_entries (snd (unsubscribe_all is ro)) g) = None)
    \<and> (map_option se_key (ro_entries ro g) = None \<longrightarrow> map_option se_key (ro_entries (snd (unsubscribe_all is ro)) g) = None)"
  using assms
proof (induction "is" arbitrary: ro)
  case (Cons i "is")
  let ?ro = "snd (unsubscribe i ro)"
  note inv' = router_inv_unsubscribe(1) [OF Cons.prems, of i]
  have split: "Teardown g k \<in> set (fst (unsubscribe_all (i # is) ro)) \<longleftrightarrow>
      fst (unsubscribe i ro) = Ok (Some (Teardown g k)) \<or> Teardown g k \<in> set (fst (unsubscribe_all is ?ro))"
    "snd (unsubscribe_all (i # is) ro) = snd (unsubscribe_all is ?ro)"
    by (auto simp: case_prod_beta split: result.splits option.splits)
  show ?case
    unfolding split using Cons.IH [OF inv'] unsubscribe_entries [OF Cons.prems, of i g]
    by (cases "\<exists>k'. fst (unsubscribe i ro) = Ok (Some (Teardown g k'))") auto
qed auto

lemma disconnect_ids:
  assumes "router_inv show_f64 n ro"
  shows "set (connection_subscriptions conn (ro_registry ro)) = {i. \<exists>s. ro_subs ro i = Some s \<and> su_connection s = conn}"
  by (rule registry_invD(6) [OF router_invD(1) [OF assms]])

lemma fold_min_least: "fold min xs (x :: 'a::linorder) = Min (set (x # xs))"
  by (rule Min.set_eq_fold [symmetric])

lemma min_subscriber_lsn_eq:
  "min_subscriber_lsn w = (if wm_subscribers w = [] then None else Some (Min (snd ` set (wm_subscribers w))))"
  by (cases "wm_subscribers w") (simp_all add: min_subscriber_lsn_def fold_min_least)


section \<open>Pairing keeps every image\<close>

abbreviation is_insert_diff :: "raw_diff \<Rightarrow> bool" where
  "is_insert_diff d \<equiv> 0 < sint (rd_diff d)"

abbreviation diff_key :: "nat list \<Rightarrow> raw_diff \<Rightarrow> string list" where
  "diff_key pk d \<equiv> primary_key_bytes pk (rd_row d)"

definition bins_mset :: "diff_bins \<Rightarrow> raw_diff multiset" where
  "bins_mset bins = mset (concat (map snd bins))"

text \<open>A bin map: ordered, no empty bin, every diff under its own key.\<close>

definition bins_inv :: "nat list \<Rightarrow> diff_bins \<Rightarrow> bool" where
  "bins_inv pk bins = (bt_invar bins \<and> (\<forall>b \<in> set bins. snd b \<noteq> [] \<and> (\<forall>d \<in> set (snd b). diff_key pk d = fst b)))"

lemma bins_mset_push: "bt_invar bins \<Longrightarrow> bins_mset (bin_push k d bins) = add_mset d (bins_mset bins)"
  unfolding bin_push_def bins_mset_def
proof (induction bins)
  case (Cons p bins)
  obtain k' l' where p: "p = (k', l')" by (cases p)
  have bt: "bt_invar bins" and "\<forall>q \<in> set bins. k' < fst q" using Cons.prems by (auto simp: p)
  then have none: "k < k' \<Longrightarrow> map_of bins k = None" by (metis imageE less_asym map_of_eq_None_iff)
  consider "k < k'" | "k = k'" | "k' < k" by (rule linorder_cases)
  then show ?case
  proof cases
    case 3
    then have "\<not> k < k'" "k \<noteq> k'" "k' \<noteq> k" by auto
    then show ?thesis using Cons.IH [OF bt] by (simp add: p)
  qed (auto simp: p none)
qed simp

lemma bins_mset_remove: "map_of bins k = Some l \<Longrightarrow> bins_mset bins = mset l + bins_mset (bt_remove k bins)"
  unfolding bins_mset_def by (induction bins) (auto split: if_splits)

lemma bins_inv_push:
  assumes inv: "bins_inv pk bins" and key: "diff_key pk d = k"
  shows "bins_inv pk (bin_push k d bins)" "dom (map_of (bin_push k d bins)) = insert k (dom (map_of bins))"
proof -
  have bt: "bt_invar bins" using inv by (simp add: bins_inv_def)
  have bt': "bt_invar (bin_push k d bins)" by (simp add: bin_push_def bt_invar_insert bt)
  have lookup: "map_of (bin_push k d bins) = (map_of bins)(k \<mapsto> (case map_of bins k of None \<Rightarrow> [] | Some l \<Rightarrow> l) @ [d])"
    by (simp add: bin_push_def map_of_bt_insert bt)
  show "dom (map_of (bin_push k d bins)) = insert k (dom (map_of bins))" by (simp add: lookup)
  have "l \<noteq> [] \<and> (\<forall>e \<in> set l. diff_key pk e = k')" if "(k', l) \<in> set (bin_push k d bins)" for k' l
  proof -
    have "map_of (bin_push k d bins) k' = Some l" using that by (simp add: map_of_eq_Some_iff bt_invar_distinct [OF bt'])
    then have l: "(k' = k \<and> l = (case map_of bins k of None \<Rightarrow> [] | Some l \<Rightarrow> l) @ [d]) \<or> (k', l) \<in> set bins"
      by (auto simp: lookup dest: map_of_SomeD split: if_splits)
    have old: "(k'', m) \<in> set bins \<Longrightarrow> m \<noteq> [] \<and> (\<forall>e \<in> set m. diff_key pk e = k'')" for k'' m
      using inv unfolding bins_inv_def by fastforce
    have "map_of bins k = Some m \<Longrightarrow> \<forall>e \<in> set m. diff_key pk e = k" for m
      using old [OF map_of_SomeD] by blast
    then show ?thesis using l old [of k' l] key by (cases "map_of bins k") auto
  qed
  then show "bins_inv pk (bin_push k d bins)" using bt' by (auto simp: bins_inv_def)
qed

lemma bins_inv_remove: "bins_inv pk bins \<Longrightarrow> bins_inv pk (bt_remove k bins)"
  using set_bt_remove [of k bins] by (auto simp: bins_inv_def bt_invar_remove)

lemma bin_diff_fold:
  assumes "bins_inv pk ins" "bins_inv pk outs" "fold (bin_diff pk) diffs (ins, outs) = (ins', outs')"
  shows "bins_inv pk ins' \<and> bins_inv pk outs'
    \<and> bins_mset ins' = bins_mset ins + mset (filter is_insert_diff diffs)
    \<and> bins_mset outs' = bins_mset outs + mset (filter (\<lambda>d. \<not> is_insert_diff d) diffs)
    \<and> dom (map_of ins') = dom (map_of ins) \<union> diff_key pk ` {d \<in> set diffs. is_insert_diff d}
    \<and> dom (map_of outs') = dom (map_of outs) \<union> diff_key pk ` {d \<in> set diffs. \<not> is_insert_diff d}"
  using assms
proof (induction diffs arbitrary: ins outs)
  case (Cons d diffs)
  have bt: "bt_invar ins" "bt_invar outs" using Cons.prems by (simp_all add: bins_inv_def)
  show ?case
  proof (cases "is_insert_diff d")
    case True
    note P = bins_inv_push [OF Cons.prems(1) refl, of d]
    have "fold (bin_diff pk) diffs (bin_push (diff_key pk d) d ins, outs) = (ins', outs')"
      using Cons.prems(3) True by (simp add: bin_diff_def [of pk d])
    note IH = Cons.IH [OF P(1) Cons.prems(2) this]
    have sets: "{e \<in> set (d # diffs). is_insert_diff e} = insert d {e \<in> set diffs. is_insert_diff e}"
      "{e \<in> set (d # diffs). \<not> is_insert_diff e} = {e \<in> set diffs. \<not> is_insert_diff e}" using True by auto
    show ?thesis unfolding sets using IH True P(2) by (simp add: bins_mset_push [OF bt(1)] del: bt_invar_simps)
  next
    case False
    note P = bins_inv_push [OF Cons.prems(2) refl, of d]
    have "fold (bin_diff pk) diffs (ins, bin_push (diff_key pk d) d outs) = (ins', outs')"
      using Cons.prems(3) False by (simp add: bin_diff_def [of pk d])
    note IH = Cons.IH [OF Cons.prems(1) P(1) this]
    have sets: "{e \<in> set (d # diffs). \<not> is_insert_diff e} = insert d {e \<in> set diffs. \<not> is_insert_diff e}"
      "{e \<in> set (d # diffs). is_insert_diff e} = {e \<in> set diffs. is_insert_diff e}" using False by auto
    show ?thesis unfolding sets using IH False P(2) by (simp add: bins_mset_push [OF bt(2)] del: bt_invar_simps)
  qed
qed simp

definition new_images :: "row_change list \<Rightarrow> row multiset" where
  "new_images cs = mset (List.map_filter rc_new cs)"

definition old_images :: "row_change list \<Rightarrow> row multiset" where
  "old_images cs = mset (List.map_filter rc_old cs)"

definition update_keys :: "nat list \<Rightarrow> row_change list \<Rightarrow> string list list" where
  "update_keys pk cs = map (\<lambda>c. primary_key_bytes pk (the (rc_new c))) (filter (\<lambda>c. rc_op c = OpUpdate) cs)"

definition images_ok :: "nat list \<Rightarrow> row_change \<Rightarrow> bool" where
  "images_ok pk c =
     (case rc_op c of
        OpInsert \<Rightarrow> rc_old c = None \<and> rc_new c \<noteq> None
      | OpDelete \<Rightarrow> rc_old c \<noteq> None \<and> rc_new c = None
      | OpUpdate \<Rightarrow> (case (rc_old c, rc_new c) of
            (Some old, Some new) \<Rightarrow> primary_key_bytes pk old = primary_key_bytes pk new
          | _ \<Rightarrow> False))"

lemma images_simps:
  "new_images (xs @ ys) = new_images xs + new_images ys" "old_images (xs @ ys) = old_images xs + old_images ys"
  "new_images [] = {#}" "old_images [] = {#}"
  "new_images (update_change d e # cs) = add_mset (rd_row e) (new_images cs)"
  "old_images (update_change d e # cs) = add_mset (rd_row d) (old_images cs)"
  "new_images (map insert_change ds) = image_mset rd_row (mset ds)" "old_images (map insert_change ds) = {#}"
  "new_images (map delete_change ds) = {#}" "old_images (map delete_change ds) = image_mset rd_row (mset ds)"
proof -
  have "List.map_filter rc_new (map insert_change ds) = map rd_row ds" "List.map_filter rc_old (map insert_change ds) = []"
    "List.map_filter rc_new (map delete_change ds) = []" "List.map_filter rc_old (map delete_change ds) = map rd_row ds"
    by (induction ds) (simp_all add: map_filter_simps insert_change_def delete_change_def)
  then show "new_images (map insert_change ds) = image_mset rd_row (mset ds)" "old_images (map insert_change ds) = {#}"
    "new_images (map delete_change ds) = {#}" "old_images (map delete_change ds) = image_mset rd_row (mset ds)"
    by (simp_all add: new_images_def old_images_def)
qed (simp_all add: new_images_def old_images_def map_filter_def update_change_def)

lemma update_keys_simps:
  "update_keys pk (xs @ ys) = update_keys pk xs @ update_keys pk ys" "update_keys pk [] = []"
  "update_keys pk (update_change d e # cs) = diff_key pk e # update_keys pk cs"
  "update_keys pk (map insert_change ds) = []" "update_keys pk (map delete_change ds) = []"
  by (simp_all add: update_keys_def update_change_def filter_empty_conv insert_change_def delete_change_def)

lemma images_ok_simps:
  "images_ok pk (insert_change d)" "images_ok pk (delete_change d)"
  "images_ok pk (update_change d e) \<longleftrightarrow> diff_key pk d = diff_key pk e"
  by (simp_all add: images_ok_def insert_change_def delete_change_def update_change_def)

lemma last_butlast_mset: "l \<noteq> [] \<Longrightarrow> mset l = add_mset (last l) (mset (butlast l))"
  by (metis add_mset_add_single append_butlast_last_id mset.simps mset_append union_mset_add_mset_right)

lemma pair_bins_spec:
  assumes "bins_inv pk ins" "bins_inv pk outs" "pair_bins ins outs cs = (cs', rem)" "\<forall>c \<in> set cs. images_ok pk c"
  shows "new_images cs' = new_images cs + image_mset rd_row (bins_mset ins)
    \<and> old_images cs' + image_mset rd_row (bins_mset rem) = old_images cs + image_mset rd_row (bins_mset outs)
    \<and> update_keys pk cs' = update_keys pk cs @ filter (\<lambda>k. map_of outs k \<noteq> None) (map fst ins)
    \<and> (\<forall>c \<in> set cs'. images_ok pk c)"
  using assms
proof (induction ins outs cs rule: pair_bins.induct)
  case (1 deletes changes)
  then show ?case by (simp add: bins_mset_def)
next
  case (2 k l rest outs cs)
  have rest: "bins_inv pk rest" and l: "l \<noteq> []" "\<forall>d \<in> set l. diff_key pk d = k"
    and notin: "k \<notin> fst ` set rest" using 2(3) by (auto simp: bins_inv_def)
  have mset: "bins_mset ((k, l) # rest) = mset l + bins_mset rest" by (simp add: bins_mset_def)
  show ?case
  proof (cases "map_of outs k")
    case None
    have "pair_bins rest outs (cs @ map insert_change l) = (cs', rem)" using 2(5) None by simp
    note IH = 2(1) [OF None rest 2(4) this]
    show ?thesis using IH 2(6) None unfolding mset by (simp add: images_simps update_keys_simps images_ok_simps ac_simps ball_Un)
  next
    case (Some gone)
    let ?new = "update_change (last gone) (last l) # map insert_change (butlast l) @ map delete_change (butlast gone)"
    have o: "gone \<noteq> []" "\<forall>d \<in> set gone. diff_key pk d = k" using 2(4) map_of_SomeD [OF Some] by (auto simp: bins_inv_def)
    have bto: "bt_invar outs" using 2(4) by (simp add: bins_inv_def)
    have keys: "diff_key pk (last gone) = k" "diff_key pk (last l) = k" using o l by simp_all
    have "pair_bins rest (bt_remove k outs) (cs @ ?new) = (cs', rem)" using 2(5) Some by simp
    note IH = 2(2) [OF Some rest bins_inv_remove [OF 2(4)]]
    have "filter (\<lambda>k'. map_of (bt_remove k outs) k' \<noteq> None) (map fst rest) = filter (\<lambda>k'. map_of outs k' \<noteq> None) (map fst rest)"
      using notin by (intro filter_cong refl) (auto simp: map_of_bt_remove [OF bto])
    then show ?thesis
      using IH 2(5,6) Some keys last_butlast_mset [OF l(1)] last_butlast_mset [OF o(1)] bins_mset_remove [OF Some]
      unfolding mset by (simp add: images_simps update_keys_simps images_ok_simps ac_simps ball_Un)
  qed
qed


section \<open>Draining a cursor\<close>

text \<open>The reference: the groups are pumped one by one until one is refused.\<close>

fun pump_groups :: "subscription_id \<Rightarrow> nat list \<Rightarrow> nat \<Rightarrow> lsn_batch list \<Rightarrow> router
    \<Rightarrow> (nat, router_error) result \<times> router" where
  "pump_groups i pk events [] ro = (Ok events, ro)"
| "pump_groups i pk events (b # bs) ro =
     (case pump_batch i b pk ro of
        (Ok _, ro') \<Rightarrow> pump_groups i pk (events + 1) bs ro'
      | (Err e, ro') \<Rightarrow> (Err e, ro')
      | (Panic, ro') \<Rightarrow> (Panic, ro'))"

context trace_cursor
begin

lemma pump_cursor_loop_spec:
  "invar c \<Longrightarrow> \<exists>c'. pump_cursor_loop (next_transaction next_diff peek_lsn) i pk events c ro
     = Some (fst (pump_groups i pk events (lsn_groups (pending c)) ro), c', snd (pump_groups i pk events (lsn_groups (pending c)) ro))"
proof (induction "pending c" arbitrary: events c ro rule: lsn_groups.induct)
  case 1
  obtain c' where "next_batch next_diff peek_lsn c = Some (None, c')"
    using next_batch_None [of c] 1 by auto
  then show ?case by (subst pump_cursor_loop.simps) (simp add: next_transaction_def 1(1) [symmetric])
next
  case (2 d ds)
  let ?b = "\<lparr>lb_lsn = rd_lsn d, lb_diffs = d # takeWhile (\<lambda>e. rd_lsn e = rd_lsn d) ds\<rparr>"
  obtain c' where c': "invar c'" "next_batch next_diff peek_lsn c = Some (Some ?b, c')"
    and p: "pending c' = dropWhile (\<lambda>e. rd_lsn e = rd_lsn d) ds"
    using next_batch_Some [of c d ds] 2(2,3) by auto
  have groups: "lsn_groups (pending c) = ?b # lsn_groups (pending c')"
    unfolding 2(2) [symmetric] p by simp
  obtain r ro' where pump: "pump_batch i ?b pk ro = (r, ro')" by (cases "pump_batch i ?b pk ro")
  have step: "pump_cursor_loop (next_transaction next_diff peek_lsn) i pk events c ro =
      (case (r, ro') of
         (Ok _, ro') \<Rightarrow> pump_cursor_loop (next_transaction next_diff peek_lsn) i pk (events + 1) c' ro'
       | (Err e, ro') \<Rightarrow> Some (Err e, c', ro') | (Panic, ro') \<Rightarrow> Some (Panic, c', ro'))"
    using pump
    by (subst pump_cursor_loop.simps) (cases r; simp add: next_transaction_def c'(2) pump_batch_def delta_of_batch_def)
  show ?case
    using 2(1) [OF p [symmetric] c'(1), of "events + 1" ro'] unfolding step groups
    by (cases r) (simp_all add: pump)
qed

lemma pump_cursor_spec:
  "invar c \<Longrightarrow> \<exists>c'. pump_cursor next_diff peek_lsn i pk c ro
     = Some (fst (pump_groups i pk 0 (lsn_groups (pending c)) ro), c', snd (pump_groups i pk 0 (lsn_groups (pending c)) ro))"
  unfolding pump_cursor_def by (rule pump_cursor_loop_spec)

end

text \<open>The event of a group.\<close>

definition group_event :: "nat list \<Rightarrow> lsn_batch \<Rightarrow> diff_event" where
  "group_event pk b = pair_transaction (delta_of_batch b) pk"

lemma ro_channels_set_sub_state [simp]: "ro_channels (set_sub_state i st ro) = ro_channels ro"
  by (simp add: set_sub_state_def split: option.split)

lemma pump_batch_room:
  assumes "map_of (ro_channels ro) i = Some c" "\<not> dc_closed c" "bt_invar (ro_channels ro)"
    "length (dc_queue c) < dc_capacity c"
  shows "fst (pump_batch i b pk ro) = Ok ()"
    "ro_channels (snd (pump_batch i b pk ro)) = bt_insert i (c\<lparr>dc_queue := dc_queue c @ [group_event pk b]\<rparr>) (ro_channels ro)"
  using assms
  by (simp_all add: pump_batch_def pump_transaction_def router_pump_event_def channel_try_send_def group_event_def)

lemma pump_batch_full:
  assumes "map_of (ro_channels ro) i = Some c" "\<not> dc_closed c" "\<not> length (dc_queue c) < dc_capacity c"
  shows "fst (pump_batch i b pk ro) = Err ChannelSaturated"
    "ro_channels (snd (pump_batch i b pk ro)) = bt_insert i (c\<lparr>dc_full_events := dc_full_events c + 1\<rparr>) (ro_channels ro)"
  using assms
  by (cases "dc_policy c"; simp add: pump_batch_def pump_transaction_def router_pump_event_def channel_try_send_def force_resync_def)+

lemma pump_groups_queue:
  assumes "map_of (ro_channels ro) i = Some c" "\<not> dc_closed c" "bt_invar (ro_channels ro)" "length (dc_queue c) \<le> dc_capacity c"
  shows "fst (pump_groups i pk n bs ro) = (if length bs \<le> dc_capacity c - length (dc_queue c) then Ok (n + length bs) else Err ChannelSaturated)
    \<and> (\<exists>c'. map_of (ro_channels (snd (pump_groups i pk n bs ro))) i = Some c' \<and>
          dc_queue c' = dc_queue c @ take (dc_capacity c - length (dc_queue c)) (map (group_event pk) bs))
    \<and> (\<forall>j. j \<noteq> i \<longrightarrow> map_of (ro_channels (snd (pump_groups i pk n bs ro))) j = map_of (ro_channels ro) j)"
  using assms
proof (induction bs arbitrary: n ro c)
  case (Cons b bs)
  obtain r ro' where pump: "pump_batch i b pk ro = (r, ro')" by (cases "pump_batch i b pk ro")
  show ?case
  proof (cases "length (dc_queue c) < dc_capacity c")
    case True
    let ?c = "c\<lparr>dc_queue := dc_queue c @ [group_event pk b]\<rparr>"
    have r: "r = Ok ()" and ro': "ro_channels ro' = bt_insert i ?c (ro_channels ro)"
      using pump_batch_room [OF Cons.prems(1-3) True, of b pk] pump by simp_all
    have look: "map_of (ro_channels ro') = (map_of (ro_channels ro))(i \<mapsto> ?c)" by (simp add: ro' map_of_bt_insert Cons.prems(3))
    obtain m where m: "dc_capacity c - length (dc_queue c) = Suc m" "dc_capacity c - Suc (length (dc_queue c)) = m"
      using True by (metis Suc_diff_Suc)
    have "map_of (ro_channels ro') i = Some ?c" "\<not> dc_closed ?c" "bt_invar (ro_channels ro')" "length (dc_queue ?c) \<le> dc_capacity ?c"
      using Cons.prems True by (simp_all add: look) (simp add: ro' bt_invar_insert)
    from Cons.IH [OF this, of "n + 1"] show ?thesis
      unfolding m(1) using m(2) by (simp add: pump r look)
  next
    case False
    have r: "r = Err ChannelSaturated"
      and ro': "ro_channels ro' = bt_insert i (c\<lparr>dc_full_events := dc_full_events c + 1\<rparr>) (ro_channels ro)"
      using pump_batch_full [OF Cons.prems(1,2) False, of b pk] pump by simp_all
    show ?thesis using False by (simp add: pump r ro' map_of_bt_insert Cons.prems(3))
  qed
qed simp


section \<open>A small run\<close>

text \<open>Two connections subscribe to one query, answered from a cached view, and the first one
  disconnects.\<close>

definition demo_request :: "subscription_id \<Rightarrow> connection_id \<Rightarrow> unit subscribe_request" where
  "demo_request i conn = \<lparr>rq_connection = conn, rq_subscription_id = i, rq_client_id = ''todos'', rq_query = ''SELECT 1'',
     rq_graph = \<lparr>nodes = [], edges = [], root = 0\<rparr>, rq_user_ctx = [],
     rq_schema = \<lparr>sd_id = 7, sd_columns = [], sd_primary_key_columns = [0]\<rparr>, rq_resume_lsn = None,
     rq_compiled_plan = None, rq_prerun_initial = Some ([[DI64 1]], 5)\<rparr>"

definition demo_prepared :: prepared where
  "demo_prepared = \<lparr>pp_stats = \<lparr>base_tables_visited = 0, filters_inserted = 0, rules_elided = 0\<rparr>, pp_snapshot_lsn = 5,
     pp_seed_updates = [], pp_resume = FreshInitial LsnCompacted,
     pp_channel = \<lparr>dc_queue = [DeInitial 5 [[DI64 1]]], dc_closed = False, dc_policy = DropAndResync,
       dc_capacity = 256, dc_full_events = 0\<rparr>\<rparr>"

definition demo_commit :: "subscription_id \<Rightarrow> connection_id \<Rightarrow> router \<Rightarrow> router" where
  "demo_commit i conn ro =
     (case subscribe_commit (\<lambda>_. []) demo_prepared (demo_request i conn) ro of Ok (_, ro') \<Rightarrow> ro' | _ \<Rightarrow> ro)"

definition demo_router :: router where
  "demo_router = demo_commit 2 2 (demo_commit 1 1 router_new)"

abbreviation demo_run :: "u64 \<Rightarrow> subscription_id set \<Rightarrow> router \<Rightarrow> bool" where
  "demo_run \<equiv> router_run (\<lambda>_. []) (\<lambda>(_ :: unit) _. []) (\<lambda>_. Err ''offline'') router_config_default"

lemma demo_prepare:
  "subscribe_prepare (\<lambda>_. []) (\<lambda>(_ :: unit) _. []) (\<lambda>_. Err ''offline'') router_config_default [] (demo_request i conn)
     = Ok demo_prepared"
  by (simp add: subscribe_prepare_def install_permission_filters_def rewrite_def base_table_indices_def demo_request_def
      initial_rows_def prepare_channel_def resolve_resume_def channel_new_def router_config_default_def
      channel_try_send_def demo_prepared_def rules_in_play_def)

definition demo_subscription :: "subscription_id \<Rightarrow> connection_id \<Rightarrow> subscription" where
  "demo_subscription i conn = \<lparr>su_id = i, su_client_id = ''todos'', su_connection = conn, su_query = ''SELECT 1'',
     su_user_ctx = [], su_schema_id = 7, su_snapshot_lsn = 5, su_cursor_lsn = 5, su_state = Seeding\<rparr>"

lemmas demo_commit_defs = demo_commit_def subscribe_commit_def demo_request_def demo_prepared_def demo_subscription_def Let_def
  registry_insert_def shared_acquire_def tracker_install_def watermarks_update_def sat_add_def

lemma demo_commit_first:
  "subscribe_commit (\<lambda>_. []) demo_prepared (demo_request 1 1) router_new = Ok (resp, demo_commit 1 1 router_new) \<longleftrightarrow>
   resp = \<lparr>sr_subscription_id = 1, sr_schema_id = 7, sr_snapshot_lsn = 5, sr_resume = FreshInitial LsnCompacted,
     sr_stats = pp_stats demo_prepared, sr_subgraph = Created 0, sr_seed_updates = []\<rparr>"
  by (auto simp: demo_commit_defs router_new_def registry_new_def shared_new_def watermarks_new_def)

lemma demo_commit_second:
  "subscribe_commit (\<lambda>_. []) demo_prepared (demo_request 2 2) (demo_commit 1 1 router_new) = Ok (resp, demo_router) \<longleftrightarrow>
   resp = \<lparr>sr_subscription_id = 2, sr_schema_id = 7, sr_snapshot_lsn = 5, sr_resume = FreshInitial LsnCompacted,
     sr_stats = pp_stats demo_prepared, sr_subgraph = Reused 0 2, sr_seed_updates = []\<rparr>"
  by (auto simp: demo_router_def demo_commit_defs router_new_def registry_new_def shared_new_def watermarks_new_def)

lemma demo_reachable: "demo_run 3 {} demo_router"
proof -
  have room: "(1 :: u64) < - 1" "(2 :: u64) < - 1"
    by (simp_all add: word_less_nat_alt unsigned_minus_1_eq_mask mask_eq_exp_minus_1)
  have "demo_run 2 {1} router_new"
    using room(1) run_allocate [OF run_new, of 1 2] by (simp add: allocate_subscription_id_def)
  from run_subscribe [OF this _ demo_prepare, of 1 1] have "demo_run 2 {} (demo_commit 1 1 router_new)"
    using demo_commit_first by (auto simp: demo_request_def)
  from run_allocate [OF this, of 2 3] have "demo_run 3 {2} (demo_commit 1 1 router_new)"
    using room(2) by (simp add: allocate_subscription_id_def)
  from run_subscribe [OF this _ demo_prepare, of 2 2] show ?thesis
    using demo_commit_second by (auto simp: demo_request_def)
qed

lemma demo_router_facts:
  "ro_subs demo_router = [1 \<mapsto> demo_subscription 1 1, 2 \<mapsto> demo_subscription 2 2]"
  "map_of (ro_holders demo_router) = [1 \<mapsto> 0, 2 \<mapsto> 0]"
  "ro_ack demo_router = \<lparr>wm_subscribers = [(1, 5), (2, 5)], wm_applied = None\<rparr>"
  by (auto simp: demo_router_def demo_commit_defs router_new_def registry_new_def shared_new_def watermarks_new_def fun_eq_iff)

section \<open>Properties\<close>

lemma router_run_inv: "router_run show_f64 run fetch cfg next_id pending ro \<Longrightarrow> \<exists>n. router_inv show_f64 n ro"
  using reachable_inv_run unfolding reachable_inv_def by blast

lemma shared_by_key:
  assumes inv: "router_inv show_f64 n ro" and i: "ro_subs ro i = Some s" and j: "ro_subs ro j = Some t"
  shows "map_of (ro_holders ro) i = map_of (ro_holders ro) j \<longleftrightarrow> subgraph_key show_f64 s = subgraph_key show_f64 t"
proof -
  note D = router_invD [OF inv]
  obtain g h where g: "map_of (ro_holders ro) i = Some g" and h: "map_of (ro_holders ro) j = Some h"
    using D(6) i j by blast
  obtain e f where e: "ro_entries ro g = Some e" "se_key e = subgraph_key show_f64 s"
    and f: "ro_entries ro h = Some f" "se_key f = subgraph_key show_f64 t"
    using D(9) [OF i g] D(9) [OF j h] by blast
  have "map_of (sg_ids_by_key (ro_subgraphs ro)) (se_key e) = Some g"
    "map_of (sg_ids_by_key (ro_subgraphs ro)) (se_key f) = Some h"
    using shared_invD(6) [OF D(8)] e f by blast+
  then show ?thesis using g h e f by auto
qed

text \<open>C5: In every reachable router the maps agree, whatever the order of subscribes, pumps, receives,
  acks, rule changes, unsubscribes and disconnects.  A client's name resolves to exactly its live
  subscription.  Every live subscription has a channel within its capacity, a watermark at its
  acknowledged position and one shared subgraph.  The subgraph's count is the number of its holders, and
  two subscriptions share a subgraph exactly when their keys are equal.\<close>
theorem router_maps_agree:
  assumes "router_run show_f64 run fetch cfg next_id pending ro"
  shows "(\<forall>conn cl i. registry_resolve conn cl (ro_registry ro) = Some i \<longleftrightarrow>
      (\<exists>s. ro_subs ro i = Some s \<and> su_connection s = conn \<and> su_client_id s = cl))
    \<and> (\<forall>i s. ro_subs ro i = Some s \<longrightarrow>
      (\<exists>c g e. map_of (ro_channels ro) i = Some c \<and> length (dc_queue c) \<le> dc_capacity c
         \<and> map_of (wm_subscribers (ro_ack ro)) i = Some (su_cursor_lsn s)
         \<and> map_of (ro_holders ro) i = Some g \<and> ro_entries ro g = Some e
         \<and> unat (se_ref_count e) = card {j. map_of (ro_holders ro) j = Some g}
         \<and> (\<forall>j t. ro_subs ro j = Some t \<longrightarrow>
               (map_of (ro_holders ro) j = Some g \<longleftrightarrow> subgraph_key show_f64 t = subgraph_key show_f64 s))))"
proof (intro conjI)
  obtain n where inv: "router_inv show_f64 n ro" using router_run_inv [OF assms] by blast
  note D = router_invD [OF inv]
  show "\<forall>conn cl i. registry_resolve conn cl (ro_registry ro) = Some i \<longleftrightarrow>
      (\<exists>s. ro_subs ro i = Some s \<and> su_connection s = conn \<and> su_client_id s = cl)"
    unfolding registry_resolve_def using registry_invD(5) [OF D(1)] by blast
  show "\<forall>i s. ro_subs ro i = Some s \<longrightarrow>
      (\<exists>c g e. map_of (ro_channels ro) i = Some c \<and> length (dc_queue c) \<le> dc_capacity c
         \<and> map_of (wm_subscribers (ro_ack ro)) i = Some (su_cursor_lsn s)
         \<and> map_of (ro_holders ro) i = Some g \<and> ro_entries ro g = Some e
         \<and> unat (se_ref_count e) = card {j. map_of (ro_holders ro) j = Some g}
         \<and> (\<forall>j t. ro_subs ro j = Some t \<longrightarrow>
               (map_of (ro_holders ro) j = Some g \<longleftrightarrow> subgraph_key show_f64 t = subgraph_key show_f64 s)))"
  proof (intro allI impI)
    fix i s
    assume s: "ro_subs ro i = Some s"
    obtain c g where c: "map_of (ro_channels ro) i = Some c" and g: "map_of (ro_holders ro) i = Some g"
      using D(5,6) s by blast
    obtain e where e: "ro_entries ro g = Some e" using D(9) [OF s g] by blast
    have keys: "\<forall>j t. ro_subs ro j = Some t \<longrightarrow>
        (map_of (ro_holders ro) j = Some g \<longleftrightarrow> subgraph_key show_f64 t = subgraph_key show_f64 s)"
      using shared_by_key [OF inv _ s] g by simp
    show "\<exists>c g e. map_of (ro_channels ro) i = Some c \<and> length (dc_queue c) \<le> dc_capacity c
         \<and> map_of (wm_subscribers (ro_ack ro)) i = Some (su_cursor_lsn s)
         \<and> map_of (ro_holders ro) i = Some g \<and> ro_entries ro g = Some e
         \<and> unat (se_ref_count e) = card {j. map_of (ro_holders ro) j = Some g}
         \<and> (\<forall>j t. ro_subs ro j = Some t \<longrightarrow>
               (map_of (ro_holders ro) j = Some g \<longleftrightarrow> subgraph_key show_f64 t = subgraph_key show_f64 s))"
      using c g e keys D(7) [of i] s D(10) [OF c] shared_invD(9) [OF D(8) e] unfolding channel_inv_def by auto
  qed
qed

text \<open>C18: A disconnect removes exactly the subscriptions of the connection, with their channels and
  holds, and keeps those of every other connection.  It reports the teardown of exactly the shared
  subgraphs that are gone afterwards, and a subgraph is gone afterwards exactly when no surviving
  subscription holds it.\<close>
theorem disconnect_leaves_others:
  assumes "router_run show_f64 run fetch cfg next_id pending ro" and "disconnect conn ro = (releases, ro')"
  shows "(\<forall>i. ro_subs ro' i = (case ro_subs ro i of None \<Rightarrow> None | Some s \<Rightarrow> if su_connection s = conn then None else Some s))
    \<and> (\<forall>i. map_of (ro_channels ro') i = (if ro_subs ro' i = None then None else map_of (ro_channels ro) i))
    \<and> (\<forall>i. map_of (ro_holders ro') i = (if ro_subs ro' i = None then None else map_of (ro_holders ro) i))
    \<and> connection_subscriptions conn (ro_registry ro') = []
    \<and> (\<forall>g k. Teardown g k \<in> set releases \<longleftrightarrow>
          (\<exists>e. ro_entries ro g = Some e \<and> se_key e = k) \<and> (\<forall>i. map_of (ro_holders ro') i \<noteq> Some g))"
proof (intro conjI)
  obtain n where inv: "router_inv show_f64 n ro" using router_run_inv [OF assms(1)] by blast
  note D = router_invD [OF inv]
  let ?ids = "connection_subscriptions conn (ro_registry ro)"
  have un: "unsubscribe_all ?ids ro = (releases, ro')" using assms(2) by (simp add: disconnect_def)
  note U = unsubscribe_all_inv [OF inv, of ?ids, unfolded un snd_conv]
  note ids = disconnect_ids [OF inv, of conn]
  show subs: "\<forall>i. ro_subs ro' i = (case ro_subs ro i of None \<Rightarrow> None | Some s \<Rightarrow> if su_connection s = conn then None else Some s)"
    unfolding U(2) ids by (simp add: restrict_map_def split: option.split)
  have gone: "ro_subs ro' i = None \<longleftrightarrow> ro_subs ro i = None \<or> i \<in> set ?ids" for i
    unfolding U(2) by (auto simp: restrict_map_def)
  have absent: "map_of (ro_channels ro) i = None" "map_of (ro_holders ro) i = None" if "ro_subs ro i = None" for i
    using D(5,6) that by blast+
  show "\<forall>i. map_of (ro_channels ro') i = (if ro_subs ro' i = None then None else map_of (ro_channels ro) i)"
    "\<forall>i. map_of (ro_holders ro') i = (if ro_subs ro' i = None then None else map_of (ro_holders ro) i)"
    using absent unfolding gone U(3,4) by (auto simp: restrict_map_def)
  have "set (connection_subscriptions conn (ro_registry ro')) = {}"
    unfolding disconnect_ids [OF U(1)] using subs by (auto split: option.splits if_splits)
  then show "connection_subscriptions conn (ro_registry ro') = []" by simp
  note S = shared_invD [OF router_invD(8) [OF U(1)]]
  have held: "ro_entries ro' g = None \<longleftrightarrow> (\<forall>i. map_of (ro_holders ro') i \<noteq> Some g)" for g
    using S(8) [of g] S(9) [of g] by (cases "ro_entries ro' g") auto
  show "\<forall>g k. Teardown g k \<in> set releases \<longleftrightarrow>
      (\<exists>e. ro_entries ro g = Some e \<and> se_key e = k) \<and> (\<forall>i. map_of (ro_holders ro') i \<noteq> Some g)"
    using unsubscribe_all_teardown [OF inv, of _ _ ?ids, unfolded un fst_conv snd_conv] unfolding held [symmetric] by auto
qed

text \<open>C30: The frontier the router would compact a trace to is never past a live subscription: when a
  frontier is given, it is the smallest acknowledged position, and there is a live subscription at it.\<close>
theorem compaction_behind_subscribers:
  assumes "router_run show_f64 run fetch cfg next_id pending ro"
    and "apply_logical_compaction (ro_ack ro) = (Some frontier, w)"
  shows "(\<forall>i s. ro_subs ro i = Some s \<longrightarrow> frontier \<le> su_cursor_lsn s)
    \<and> (\<exists>i s. ro_subs ro i = Some s \<and> su_cursor_lsn s = frontier) \<and> wm_applied w = Some frontier"
proof -
  obtain n where inv: "router_inv show_f64 n ro" using router_run_inv [OF assms(1)] by blast
  note D = router_invD [OF inv]
  let ?ws = "wm_subscribers (ro_ack ro)"
  have f: "min_subscriber_lsn (ro_ack ro) = Some frontier" and w: "wm_applied w = Some frontier"
    using assms(2) by (auto simp: apply_logical_compaction_def split: option.splits if_splits)
  have ne: "?ws \<noteq> []" and m: "frontier = Min (snd ` set ?ws)"
    using f by (auto simp: min_subscriber_lsn_eq split: if_splits)
  have pair: "(i, l) \<in> set ?ws \<longleftrightarrow> (\<exists>s. ro_subs ro i = Some s \<and> su_cursor_lsn s = l)" for i l
    using D(7) [of i] map_of_eq_Some_iff [OF bt_invar_distinct [OF D(4)], of i l] by auto
  have "frontier \<in> snd ` set ?ws" unfolding m using ne by (intro Min_in) auto
  then have "\<exists>i s. ro_subs ro i = Some s \<and> su_cursor_lsn s = frontier" using pair by auto
  moreover have "frontier \<le> su_cursor_lsn s" if "ro_subs ro i = Some s" for i s
  proof -
    have "(i, su_cursor_lsn s) \<in> set ?ws" using pair that by blast
    then have "su_cursor_lsn s \<in> snd ` set ?ws" by force
    then show ?thesis unfolding m by (intro Min_le) auto
  qed
  ultimately show ?thesis using w by blast
qed

text \<open>C23: Pairing the diffs of a transaction into row changes keeps every image: the new images are the
  rows of the positive diffs and the old images the rows of the others, with multiplicity.  Every change
  has the images its kind needs, an update pairs two rows with equal key bytes, and there is exactly one
  update for each key that has both.\<close>
theorem pair_changes_keeps_images:
  "new_images (pair_changes diffs pk) = image_mset rd_row (mset (filter is_insert_diff diffs))
   \<and> old_images (pair_changes diffs pk) = image_mset rd_row (mset (filter (\<lambda>d. \<not> is_insert_diff d) diffs))
   \<and> list_all (images_ok pk) (pair_changes diffs pk)
   \<and> distinct (update_keys pk (pair_changes diffs pk))
   \<and> set (update_keys pk (pair_changes diffs pk)) =
       diff_key pk ` {d \<in> set diffs. is_insert_diff d} \<inter> diff_key pk ` {d \<in> set diffs. \<not> is_insert_diff d}"
proof -
  obtain ins outs where bins: "fold (bin_diff pk) diffs ([], []) = (ins, outs)" by (cases "fold (bin_diff pk) diffs ([], [])")
  obtain cs rem where pair: "pair_bins ins outs [] = (cs, rem)" by (cases "pair_bins ins outs []")
  have out: "pair_changes diffs pk = cs @ map delete_change (concat (map snd rem))"
    by (simp add: pair_changes_def bins pair)
  have nil: "bins_inv pk []" "bins_mset [] = {#}" by (simp_all add: bins_inv_def bins_mset_def)
  note B = bin_diff_fold [OF nil(1) nil(1) bins, unfolded nil(2)]
  have "bins_inv pk ins" "bins_inv pk outs" using B by simp_all
  note P = pair_bins_spec [OF this pair]
  have keys: "update_keys pk (pair_changes diffs pk) = filter (\<lambda>k. map_of outs k \<noteq> None) (map fst ins)"
    using P by (simp add: out update_keys_simps)
  have "distinct (map fst ins)" using B by (simp add: bins_inv_def bt_invar_distinct)
  then have "distinct (update_keys pk (pair_changes diffs pk))" unfolding keys by (rule distinct_filter)
  moreover have "set (update_keys pk (pair_changes diffs pk)) = dom (map_of ins) \<inter> dom (map_of outs)"
    unfolding keys dom_map_of_conv_image_fst [of ins] by auto
  ultimately show ?thesis
    using B P by (auto simp: list_all_iff out images_simps images_ok_simps bins_mset_def)
qed


theorem router_maps_agree_witness:
  "demo_run 3 {} demo_router
   \<and> registry_resolve 2 ''todos'' (ro_registry demo_router) = Some 2
   \<and> (\<exists>e. ro_entries demo_router 0 = Some e \<and> unat (se_ref_count e) = 2)"
proof -
  have r: "registry_resolve 2 ''todos'' (ro_registry demo_router) = Some 2"
    using router_maps_agree [OF demo_reachable] by (auto simp: demo_router_facts demo_subscription_def)
  have two: "{j. map_of (ro_holders demo_router) j = Some 0} = {1, 2}" by (auto simp: demo_router_facts)
  have "ro_subs demo_router 1 = Some (demo_subscription 1 1)" by (simp add: demo_router_facts)
  then obtain g e where "map_of (ro_holders demo_router) 1 = Some g" "ro_entries demo_router g = Some e"
    "unat (se_ref_count e) = card {j. map_of (ro_holders demo_router) j = Some g}"
    using router_maps_agree [OF demo_reachable] by metis
  then have "ro_entries demo_router 0 = Some e" "unat (se_ref_count e) = 2"
    using two by (auto simp: demo_router_facts)
  then show ?thesis using r demo_reachable by blast
qed

theorem disconnect_leaves_others_witness:
  "\<exists>releases ro'. disconnect 1 demo_router = (releases, ro') \<and> ro_subs ro' = [2 \<mapsto> demo_subscription 2 2]
     \<and> (\<forall>k. Teardown 0 k \<notin> set releases)"
proof -
  obtain releases ro' where d: "disconnect 1 demo_router = (releases, ro')" by (cases "disconnect 1 demo_router")
  note T = disconnect_leaves_others [OF demo_reachable d]
  have subs: "ro_subs ro' i = [2 \<mapsto> demo_subscription 2 2] i" for i
    using T by (simp add: demo_router_facts demo_subscription_def)
  then have "map_of (ro_holders ro') 2 = Some 0" using T by (simp add: demo_router_facts)
  then have "\<forall>k. Teardown 0 k \<notin> set releases" using T by blast
  then show ?thesis using d subs by blast
qed

theorem compaction_behind_subscribers_witness:
  "apply_logical_compaction (ro_ack demo_router) = (Some 5, \<lparr>wm_subscribers = [(1, 5), (2, 5)], wm_applied = Some 5\<rparr>)
   \<and> 5 \<le> su_cursor_lsn (demo_subscription 2 2)"
proof -
  have "apply_logical_compaction (ro_ack demo_router) = (Some 5, \<lparr>wm_subscribers = [(1, 5), (2, 5)], wm_applied = Some 5\<rparr>)"
    by (simp add: demo_router_facts apply_logical_compaction_def min_subscriber_lsn_def)
  moreover have "ro_subs demo_router 2 = Some (demo_subscription 2 2)" by (simp add: demo_router_facts)
  ultimately show ?thesis using compaction_behind_subscribers [OF demo_reachable] by blast
qed

section \<open>Resyncs that are not sent\<close>

text \<open>The comments of \<^verbatim>\<open>set_rules\<close> and \<^verbatim>\<open>pump_event\<close> say that a resync is forced onto the channel.  On
  a full channel it is dropped, and a full channel is the only case in which \<^verbatim>\<open>pump_event\<close> asks for
  one.\<close>

lemma set_rules_full_channel:
  assumes "map_of (ro_channels ro) i = Some c" "length (dc_queue c) = dc_capacity c"
  shows "map_of (ro_channels (set_rules rules ro)) i = Some c"
  using assms by (simp add: set_rules_def map_of_map force_resync_def)

lemma saturated_pump_sends_no_resync:
  assumes "bt_invar (ro_channels ro)" "map_of (ro_channels ro) i = Some c" "\<not> dc_closed c"
    "length (dc_queue c) = dc_capacity c"
  shows "\<exists>c'. map_of (ro_channels (snd (router_pump_event i ev ro))) i = Some c' \<and> dc_queue c' = dc_queue c"
  using assms
  by (cases "dc_policy c")
    (simp_all add: router_pump_event_def channel_try_send_def force_resync_def map_of_bt_insert)

text \<open>A rule change between the two locked sections of \<^verbatim>\<open>subscribe\<close> is missed: the subscription is
  committed with the filters of the old rules and gets no resync.\<close>

lemma set_rules_missed_in_flight:
  assumes "ro_subs ro (rq_subscription_id rq) = None" "router_inv show_f64 n ro"
    "subscribe_commit show_f64 pp rq (set_rules rules ro) = Ok (resp, ro')"
  shows "ro_rules ro' = rules \<and> map_of (ro_channels ro') (rq_subscription_id rq) = Some (pp_channel pp) \<and> sr_stats resp = pp_stats pp"
  using assms router_invD(2) [OF router_inv_set_rules [OF assms(2), of rules]]
  by (auto simp: subscribe_commit_def Let_def rbind_eq_Ok map_of_bt_insert set_rules_def)

end
