(* ===== verification/Eval_Scalar.thy ===== *)
theory Eval_Scalar
  imports Wal_Datum Sql_Mir
begin

text \<open>
  The expression evaluator of the dataflow (\<^verbatim>\<open>palimpsest-dataflow/src/palimpsest/eval.rs\<close>): the input
  schema, SQL equality and ordering of values, arithmetic, casts, \<^verbatim>\<open>LIKE\<close>, and the compiler from a parsed
  expression to a function on rows.  The syntax tree is the one of a third-party parser: \<open>expr\<close> has the
  constructors the compiler matches on and one for all others.  Floating point, JSON and the Unicode
  lower case are parameters.
\<close>

section \<open>Parameters, schema and syntax\<close>

datatype ordering = Less | Equal | Greater

definition cmp :: "'a::linorder \<Rightarrow> 'a \<Rightarrow> ordering" where
  "cmp x y = (if x < y then Less else if x = y then Equal else Greater)"

definition is_lt :: "ordering \<Rightarrow> bool" where "is_lt o1 = (o1 = Less)"
definition is_le :: "ordering \<Rightarrow> bool" where "is_le o1 = (o1 \<noteq> Greater)"
definition is_gt :: "ordering \<Rightarrow> bool" where "is_gt o1 = (o1 = Greater)"
definition is_ge :: "ordering \<Rightarrow> bool" where "is_ge o1 = (o1 \<noteq> Less)"

datatype binary_operator =
    BEq | BNotEq | BLt | BLtEq | BGt | BGtEq | BAnd | BOr | BPlus | BMinus | BMultiply | BDivide | BModulo
  | BStringConcat | BArrow | BLongArrow | BOther

record eval_env =
  ev_float :: float_env
  ev_f64_eq :: "u64 \<Rightarrow> u64 \<Rightarrow> bool"
  ev_f32_eq :: "u32 \<Rightarrow> u32 \<Rightarrow> bool"
  ev_f64_partial_cmp :: "u64 \<Rightarrow> u64 \<Rightarrow> ordering option"
  ev_f32_to_f64 :: "u32 \<Rightarrow> u64"
  ev_i64_to_f64 :: "i64 \<Rightarrow> u64"
  ev_f64_round :: "u64 \<Rightarrow> i64"
  ev_f32_round :: "u32 \<Rightarrow> i64"
  ev_f64_arith :: "binary_operator \<Rightarrow> u64 \<Rightarrow> u64 \<Rightarrow> u64"
  ev_f64_neg :: "u64 \<Rightarrow> u64"
  ev_f32_neg :: "u32 \<Rightarrow> u32"
  ev_f64_show :: "u64 \<Rightarrow> string"
  ev_f32_show :: "u32 \<Rightarrow> string"
  ev_lowercase :: "string \<Rightarrow> string"
  ev_json_eq :: "string \<Rightarrow> string \<Rightarrow> bool"
  ev_json_extract :: "datum \<Rightarrow> datum \<Rightarrow> bool \<Rightarrow> datum"

record eval_schema =
  sc_columns :: "(string \<times> column_type) list"
  sc_index :: "(string, nat) btree"
  sc_provenance :: "string option list"

definition from_pairs :: "(string \<times> column_type) list \<Rightarrow> eval_schema" where
  "from_pairs columns = \<lparr>sc_columns = columns,
     sc_index = fold (\<lambda>(i, name, _). bt_insert name i) (enumerate 0 columns) [], sc_provenance = []\<rparr>"

definition with_provenance :: "string option list \<Rightarrow> eval_schema \<Rightarrow> eval_schema" where
  "with_provenance p s = s\<lparr>sc_provenance := p\<rparr>"

definition index_of :: "eval_schema \<Rightarrow> string \<Rightarrow> nat option" where
  "index_of s name = map_of (sc_index s) name"

definition index_of_qualified :: "eval_schema \<Rightarrow> string \<Rightarrow> string \<Rightarrow> nat option" where
  "index_of_qualified s relation name =
     map_option fst (find (\<lambda>(i, col, _). col = name \<and> i < length (sc_provenance s) \<and> sc_provenance s ! i = Some relation)
       (enumerate 0 (sc_columns s)))"

definition schema_column_type :: "eval_schema \<Rightarrow> string \<Rightarrow> column_type option" where
  "schema_column_type s name = map_option (\<lambda>i. snd (sc_columns s ! i)) (index_of s name)"

datatype eval_error = EParse string | EUnsupported string | EUnknownColumn string

datatype sql_value =
    VBoolean bool | VNumber string | VSingleQuoted string | VDoubleQuoted string | VOtherString string
  | VNull | VOther string

datatype unary_operator = UNot | UMinus | UPlus | UOther

datatype expr =
    Nested expr
  | Identifier string
  | CompoundIdentifier "string list"
  | Value sql_value
  | BinaryOp expr binary_operator expr
  | UnaryOp unary_operator expr
  | IsNull expr
  | IsNotNull expr
  | IsTrue expr
  | IsFalse expr
  | AnyOp expr binary_operator expr
  | Cast expr "column_type option"
  | InList expr "expr list" bool
  | Between expr bool expr expr
  | Like expr expr "string option" bool bool
  | IsDistinctFrom expr expr
  | IsNotDistinctFrom expr expr
  | CaseWhen "expr option" "expr list" "expr list" "expr option"
  | ArrayExpr "expr list"
  | FunctionCall string "expr list option"
  | OtherExpr string

section \<open>Equality and ordering\<close>

definition parse_uuid_text :: "string \<Rightarrow> uuid option" where
  "parse_uuid_text raw = (if utf8_valid raw then uuid_parse_text raw else None)"

fun as_i64 :: "datum \<Rightarrow> i64 option" where
  "as_i64 (DI64 v) = Some v"
| "as_i64 (DI32 v) = Some (scast v)"
| "as_i64 (DI16 v) = Some (scast v)"
| "as_i64 _ = None"

fun as_f64 :: "eval_env \<Rightarrow> datum \<Rightarrow> u64 option" where
  "as_f64 ev (DF64 bits) = Some bits"
| "as_f64 ev (DF32 bits) = Some (ev_f32_to_f64 ev bits)"
| "as_f64 ev d = map_option (ev_i64_to_f64 ev) (as_i64 d)"

fun json_bytes :: "datum \<Rightarrow> string option" where
  "json_bytes (DJsonb b) = Some b"
| "json_bytes (DJson b) = Some b"
| "json_bytes _ = None"

text \<open>\<^verbatim>\<open>datum_eq\<close>.  The integer arms compare the two values at the larger width, which is equality at 64
  bits.\<close>

definition datum_eq :: "eval_env \<Rightarrow> datum \<Rightarrow> datum \<Rightarrow> bool" where
  "datum_eq ev a b =
     (if a = DNull \<or> b = DNull then False
      else case (as_i64 a, as_i64 b) of
        (Some x, Some y) \<Rightarrow> x = y
      | _ \<Rightarrow>
          (case (a, b) of
             (DBool x, DBool y) \<Rightarrow> x = y
           | (DF64 x, DF64 y) \<Rightarrow> ev_f64_eq ev x y
           | (DF32 x, DF32 y) \<Rightarrow> ev_f32_eq ev x y
           | (DText x, DText y) \<Rightarrow> x = y
           | (DUuid x, DUuid y) \<Rightarrow> x = y
           | (DUuid u, DText t) \<Rightarrow> parse_uuid_text t = Some u
           | (DText t, DUuid u) \<Rightarrow> parse_uuid_text t = Some u
           | _ \<Rightarrow>
               (case (json_bytes a, json_bytes b, a, b) of
                  (Some x, Some y, _, _) \<Rightarrow> ev_json_eq ev x y
                | (Some x, _, _, DText t) \<Rightarrow> ev_json_eq ev x t
                | (_, Some x, DText t, _) \<Rightarrow> ev_json_eq ev x t
                | _ \<Rightarrow> False)))"

fun uuid_bytes :: "uuid \<Rightarrow> string" where
  "uuid_bytes (Uuid b) = b"

text \<open>\<^verbatim>\<open>datum_cmp_bool\<close>.  The 16-bit integers compare only with each other.\<close>

definition datum_ord :: "eval_env \<Rightarrow> datum \<Rightarrow> datum \<Rightarrow> ordering option" where
  "datum_ord ev a b =
     (case (a, b) of
        (DI64 x, DI64 y) \<Rightarrow> Some (cmp (sint x) (sint y))
      | (DI32 x, DI32 y) \<Rightarrow> Some (cmp (sint x) (sint y))
      | (DI16 x, DI16 y) \<Rightarrow> Some (cmp (sint x) (sint y))
      | (DF64 x, DF64 y) \<Rightarrow> Some (case ev_f64_partial_cmp ev x y of None \<Rightarrow> Equal | Some r \<Rightarrow> r)
      | (DI64 x, DI32 y) \<Rightarrow> Some (cmp (sint x) (sint y))
      | (DI32 x, DI64 y) \<Rightarrow> Some (cmp (sint x) (sint y))
      | (DText x, DText y) \<Rightarrow> Some (cmp x y)
      | (DUuid x, DUuid y) \<Rightarrow> Some (cmp (uuid_bytes x) (uuid_bytes y))
      | (DUuid u, DText t) \<Rightarrow> map_option (\<lambda>p. cmp (uuid_bytes u) (uuid_bytes p)) (parse_uuid_text t)
      | (DText t, DUuid u) \<Rightarrow> map_option (\<lambda>p. cmp (uuid_bytes p) (uuid_bytes u)) (parse_uuid_text t)
      | _ \<Rightarrow> None)"

definition datum_cmp_bool :: "eval_env \<Rightarrow> datum \<Rightarrow> datum \<Rightarrow> (ordering \<Rightarrow> bool) \<Rightarrow> datum" where
  "datum_cmp_bool ev a b pick = (case datum_ord ev a b of None \<Rightarrow> DBool False | Some r \<Rightarrow> DBool (pick r))"

definition null_safe_eq :: "eval_env \<Rightarrow> datum \<Rightarrow> datum \<Rightarrow> bool" where
  "null_safe_eq ev a b = (if a = DNull then b = DNull else if b = DNull then False else datum_eq ev a b)"

definition compare_datums :: "eval_env \<Rightarrow> binary_operator \<Rightarrow> datum \<Rightarrow> datum \<Rightarrow> bool option" where
  "compare_datums ev op a b =
     (case op of
        BEq \<Rightarrow> Some (datum_eq ev a b)
      | BNotEq \<Rightarrow> Some (if a = DNull \<or> b = DNull then False else \<not> datum_eq ev a b)
      | BLt \<Rightarrow> Some (datum_cmp_bool ev a b is_lt = DBool True)
      | BLtEq \<Rightarrow> Some (datum_cmp_bool ev a b is_le = DBool True)
      | BGt \<Rightarrow> Some (datum_cmp_bool ev a b is_gt = DBool True)
      | BGtEq \<Rightarrow> Some (datum_cmp_bool ev a b is_ge = DBool True)
      | _ \<Rightarrow> None)"

section \<open>Arithmetic\<close>

definition checked_i64 :: "int \<Rightarrow> i64 option" where
  "checked_i64 v = (if - (2 ^ 63) \<le> v \<and> v < 2 ^ 63 then Some (word_of_int v) else None)"

definition trunc_div :: "int \<Rightarrow> int \<Rightarrow> int" where
  "trunc_div x y = sgn x * sgn y * (\<bar>x\<bar> div \<bar>y\<bar>)"

definition trunc_rem :: "int \<Rightarrow> int \<Rightarrow> int" where
  "trunc_rem x y = x - y * trunc_div x y"

definition checked_arith :: "binary_operator \<Rightarrow> i64 \<Rightarrow> i64 \<Rightarrow> i64 option" where
  "checked_arith op x y =
     (case op of
        BPlus \<Rightarrow> checked_i64 (sint x + sint y)
      | BMinus \<Rightarrow> checked_i64 (sint x - sint y)
      | BMultiply \<Rightarrow> checked_i64 (sint x * sint y)
      | BDivide \<Rightarrow> if y = 0 then None else checked_i64 (trunc_div (sint x) (sint y))
      | BModulo \<Rightarrow>
          if y = 0 \<or> checked_i64 (trunc_div (sint x) (sint y)) = None then None
          else checked_i64 (trunc_rem (sint x) (sint y))
      | _ \<Rightarrow> None)"

definition arithmetic_datums :: "eval_env \<Rightarrow> binary_operator \<Rightarrow> datum \<Rightarrow> datum \<Rightarrow> datum" where
  "arithmetic_datums ev op a b =
     (case (as_i64 a, as_i64 b) of
        (Some x, Some y) \<Rightarrow> (case checked_arith op x y of None \<Rightarrow> DNull | Some r \<Rightarrow> DI64 r)
      | _ \<Rightarrow>
          (case (as_f64 ev a, as_f64 ev b) of
             (Some x, Some y) \<Rightarrow>
               if op \<in> {BPlus, BMinus, BMultiply} then DF64 (ev_f64_arith ev op x y)
               else if op \<in> {BDivide, BModulo}
               then (if ev_f64_eq ev y 0 then DNull else DF64 (ev_f64_arith ev op x y))
               else DNull
           | _ \<Rightarrow> DNull))"

text \<open>Negation of an integer wraps at its width, as in a release build.\<close>

fun negate_datum :: "eval_env \<Rightarrow> datum \<Rightarrow> datum" where
  "negate_datum ev (DI64 v) = DI64 (- v)"
| "negate_datum ev (DI32 v) = DI32 (- v)"
| "negate_datum ev (DI16 v) = DI16 (- v)"
| "negate_datum ev (DF64 v) = DF64 (ev_f64_neg ev v)"
| "negate_datum ev (DF32 v) = DF32 (ev_f32_neg ev v)"
| "negate_datum ev d = d"

section \<open>Text and casts\<close>

definition utf8_text :: "string \<Rightarrow> string option" where
  "utf8_text b = (if utf8_valid b then Some b else None)"

definition bool_text :: "bool \<Rightarrow> string" where
  "bool_text b = (if b then ''true'' else ''false'')"

fun datum_display_text :: "eval_env \<Rightarrow> datum \<Rightarrow> string option" where
  "datum_display_text ev (DText b) = utf8_text b"
| "datum_display_text ev (DI64 v) = Some (show_int (sint v))"
| "datum_display_text ev (DI32 v) = Some (show_int (sint v))"
| "datum_display_text ev (DI16 v) = Some (show_int (sint v))"
| "datum_display_text ev (DF64 bits) = Some (ev_f64_show ev bits)"
| "datum_display_text ev (DF32 bits) = Some (ev_f32_show ev bits)"
| "datum_display_text ev (DBool b) = Some (bool_text b)"
| "datum_display_text ev (DUuid u) = Some (uuid_to_string u)"
| "datum_display_text ev (DNumeric n) = Some (case n of BigDecimal t \<Rightarrow> t)"
| "datum_display_text ev (DJsonb b) = utf8_text b"
| "datum_display_text ev (DJson b) = utf8_text b"
| "datum_display_text ev _ = None"

definition concat_datums :: "eval_env \<Rightarrow> datum \<Rightarrow> datum \<Rightarrow> datum" where
  "concat_datums ev a b =
     (if a = DNull \<or> b = DNull then DNull
      else case (datum_display_text ev a, datum_display_text ev b) of
        (Some x, Some y) \<Rightarrow> DText (x @ y)
      | _ \<Rightarrow> DNull)"

definition lower_bytes :: "string \<Rightarrow> string" where
  "lower_bytes s = map (\<lambda>c. if 65 \<le> byte c \<and> byte c \<le> 90 then char_of (byte c + 32) else c) s"

definition parse_temporal_text :: "eval_env \<Rightarrow> datum \<Rightarrow> datum_type \<Rightarrow> datum" where
  "parse_temporal_text ev d target =
     (case d of
        DText b \<Rightarrow> (case decode_column_value (ev_float ev) target (CText b) of Ok v \<Rightarrow> v | _ \<Rightarrow> DNull)
      | _ \<Rightarrow> DNull)"

definition micros_per_day :: i64 where
  "micros_per_day = 86400000000"

definition date_of_micros :: "i64 \<Rightarrow> datum" where
  "date_of_micros m = DDate \<lparr>days_since_unix_epoch = word_of_int (sint m div 86400000000)\<rparr>"

definition or_null :: "('a \<Rightarrow> datum) \<Rightarrow> 'a option \<Rightarrow> datum" where
  "or_null f x = (case x of None \<Rightarrow> DNull | Some v \<Rightarrow> f v)"

definition cast_int :: "eval_env \<Rightarrow> datum \<Rightarrow> datum" where
  "cast_int ev d =
     (case d of
        DF64 bits \<Rightarrow> DI64 (ev_f64_round ev bits)
      | DF32 bits \<Rightarrow> DI64 (ev_f32_round ev bits)
      | DBool b \<Rightarrow> DI64 (if b then 1 else 0)
      | DText b \<Rightarrow> or_null (or_null DI64 \<circ> parse_signed \<circ> str_trim) (utf8_text b)
      | _ \<Rightarrow> or_null DI64 (as_i64 d))"

definition cast_float :: "eval_env \<Rightarrow> datum \<Rightarrow> datum" where
  "cast_float ev d =
     (case d of
        DText b \<Rightarrow> or_null (or_null DF64 \<circ> parse_f64 (ev_float ev) \<circ> str_trim) (utf8_text b)
      | _ \<Rightarrow> or_null DF64 (as_f64 ev d))"

definition cast_bool :: "datum \<Rightarrow> datum" where
  "cast_bool d =
     (case d of
        DBool b \<Rightarrow> DBool b
      | DText b \<Rightarrow>
          or_null (\<lambda>t. let w = lower_bytes (str_trim t)
                       in if w \<in> {''t'', ''true'', ''yes'', ''on'', ''1''} then DBool True
                          else if w \<in> {''f'', ''false'', ''no'', ''off'', ''0''} then DBool False else DNull)
            (utf8_text b)
      | _ \<Rightarrow> or_null (\<lambda>v. DBool (v \<noteq> 0)) (as_i64 d))"

definition cast_timestamp :: "eval_env \<Rightarrow> column_type \<Rightarrow> datum \<Rightarrow> datum" where
  "cast_timestamp ev target d =
     (case d of
        DTimestamp ts \<Rightarrow> d
      | DTimestampTz ts \<Rightarrow> d
      | DDate date \<Rightarrow> DTimestamp \<lparr>micros_since_unix_epoch = scast (days_since_unix_epoch date) * micros_per_day\<rparr>
      | DText b \<Rightarrow> parse_temporal_text ev d (if target = CtTimestampTz then TTimestampTz else TTimestamp)
      | _ \<Rightarrow> DNull)"

definition cast_date :: "eval_env \<Rightarrow> datum \<Rightarrow> datum" where
  "cast_date ev d =
     (case d of
        DDate date \<Rightarrow> d
      | DTimestamp ts \<Rightarrow> date_of_micros (micros_since_unix_epoch ts)
      | DTimestampTz ts \<Rightarrow> date_of_micros (tz_micros_since_unix_epoch ts)
      | DText b \<Rightarrow> parse_temporal_text ev d TDate
      | _ \<Rightarrow> DNull)"

definition cast_datum :: "eval_env \<Rightarrow> datum \<Rightarrow> column_type \<Rightarrow> datum" where
  "cast_datum ev d target =
     (if d = DNull then DNull
      else case target of
        CtText \<Rightarrow> or_null DText (datum_display_text ev d)
      | CtEnum \<Rightarrow> or_null DText (datum_display_text ev d)
      | CtInt \<Rightarrow> cast_int ev d
      | CtFloat \<Rightarrow> cast_float ev d
      | CtBool \<Rightarrow> cast_bool d
      | CtUuid \<Rightarrow> (case d of DUuid u \<Rightarrow> d | DText b \<Rightarrow> or_null DUuid (parse_uuid_text b) | _ \<Rightarrow> DNull)
      | CtJsonb \<Rightarrow> (case d of DJsonb b \<Rightarrow> DJsonb b | DJson b \<Rightarrow> DJsonb b | DText b \<Rightarrow> DJsonb b | _ \<Rightarrow> DNull)
      | CtTimestamp \<Rightarrow> cast_timestamp ev target d
      | CtTimestampTz \<Rightarrow> cast_timestamp ev target d
      | CtDate \<Rightarrow> cast_date ev d
      | CtTime \<Rightarrow> (case d of DTime t \<Rightarrow> d | DText b \<Rightarrow> parse_temporal_text ev d TTime | _ \<Rightarrow> DNull)
      | CtInterval \<Rightarrow> (case d of DInterval i \<Rightarrow> d | DText b \<Rightarrow> parse_temporal_text ev d TInterval | _ \<Rightarrow> DNull)
      | CtNumeric \<Rightarrow>
          (case d of
             DNumeric n \<Rightarrow> d
           | DText b \<Rightarrow> or_null (DNumeric \<circ> BigDecimal) (datum_display_text ev d)
           | _ \<Rightarrow> if as_f64 ev d = None then DNull else or_null (DNumeric \<circ> BigDecimal) (datum_display_text ev d))
      | CtBytea \<Rightarrow> (case d of DBytea b \<Rightarrow> d | DText b \<Rightarrow> DBytea b | _ \<Rightarrow> DNull)
      | CtArray \<Rightarrow> (case d of DArray xs \<Rightarrow> d | _ \<Rightarrow> DNull)
      | CtUnknown \<Rightarrow> d)"

section \<open>LIKE\<close>

datatype like_token = AnyRun | AnyOne | Literal string

text \<open>The pattern is read character by character (\<^verbatim>\<open>str::chars\<close>); adjacent \<^verbatim>\<open>%\<close> are one token.\<close>

function like_tokens :: "string option \<Rightarrow> string list \<Rightarrow> like_token list \<Rightarrow> like_token list" where
  "like_tokens esc [] tokens = tokens"
| "like_tokens esc (c # cs) tokens =
     (if Some c = esc
      then (case cs of
              [] \<Rightarrow> tokens @ [Literal c]
            | e # cs' \<Rightarrow> like_tokens esc cs' (tokens @ [Literal e]))
      else if c = ''%''
      then like_tokens esc cs (if tokens \<noteq> [] \<and> last tokens = AnyRun then tokens else tokens @ [AnyRun])
      else if c = ''_'' then like_tokens esc cs (tokens @ [AnyOne])
      else like_tokens esc cs (tokens @ [Literal c]))"
  by pat_completeness auto
termination by (relation "measure (\<lambda>(esc, cs, tokens). length cs)") auto

text \<open>The two-pointer loop.  The result \<open>Some None\<close> is the early \<^verbatim>\<open>return false\<close>, \<open>Some (Some p)\<close> the position
  in the tokens at the end of the subject.\<close>

partial_function (option) like_loop ::
    "string list \<Rightarrow> like_token list \<Rightarrow> nat \<Rightarrow> nat \<Rightarrow> nat option \<Rightarrow> nat \<Rightarrow> nat option option" where
  "like_loop subject tokens s p star star_s =
     (if s < length subject
      then if p < length tokens \<and> (tokens ! p = Literal (subject ! s) \<or> tokens ! p = AnyOne)
           then like_loop subject tokens (s + 1) (p + 1) star star_s
           else if p < length tokens \<and> tokens ! p = AnyRun
           then like_loop subject tokens s (p + 1) (Some p) s
           else (case star of
                   None \<Rightarrow> Some None
                 | Some star_p \<Rightarrow> like_loop subject tokens (star_s + 1) (star_p + 1) star (star_s + 1))
      else Some (Some p))"

function skip_runs :: "like_token list \<Rightarrow> nat \<Rightarrow> nat" where
  "skip_runs tokens p = (if p < length tokens \<and> tokens ! p = AnyRun then skip_runs tokens (p + 1) else p)"
  by pat_completeness auto
termination by (relation "measure (\<lambda>(tokens, p). length tokens - p)") auto

definition like_match :: "string \<Rightarrow> string \<Rightarrow> string option \<Rightarrow> bool option" where
  "like_match subject pattern esc =
     (let tokens = like_tokens esc (utf8_chars pattern) []
      in case like_loop (utf8_chars subject) tokens 0 0 None 0 of
           None \<Rightarrow> None
         | Some None \<Rightarrow> Some False
         | Some (Some p) \<Rightarrow> Some (skip_runs tokens p = length tokens))"

text \<open>The closure of \<^verbatim>\<open>like_scalar\<close>; \<open>like_returns\<close> below shows that the match always has a value.\<close>

definition like_datums :: "eval_env \<Rightarrow> string option \<Rightarrow> bool \<Rightarrow> bool \<Rightarrow> datum \<Rightarrow> datum \<Rightarrow> datum" where
  "like_datums ev esc negated case_insensitive subject pattern =
     (case (subject, pattern) of
        (DText s, DText p) \<Rightarrow>
          if utf8_valid s \<and> utf8_valid p
          then DBool (the (if case_insensitive then like_match (ev_lowercase ev s) (ev_lowercase ev p) esc
                           else like_match s p esc) \<noteq> negated)
          else DBool False
      | _ \<Rightarrow> DBool False)"

definition like_escape :: "string option \<Rightarrow> (string option, eval_error) result" where
  "like_escape escape_char =
     (case escape_char of
        None \<Rightarrow> Ok (Some [CHR 0x5C])
      | Some text \<Rightarrow>
          (case utf8_chars text of
             [] \<Rightarrow> Ok None
           | [c] \<Rightarrow> Ok (Some c)
           | _ \<Rightarrow> Err (EUnsupported (''multi-character LIKE escape '' @ text))))"

section \<open>Array literals\<close>

definition eq_ignore_ascii_case :: "string \<Rightarrow> string \<Rightarrow> bool" where
  "eq_ignore_ascii_case a b = (lower_bytes a = lower_bytes b)"

definition array_element :: "eval_env \<Rightarrow> string \<Rightarrow> datum" where
  "array_element ev raw =
     (if eq_ignore_ascii_case raw ''null'' then DNull
      else case parse_signed raw of
        Some v \<Rightarrow> DI64 v
      | None \<Rightarrow>
          (case parse_f64 (ev_float ev) raw of
             Some v \<Rightarrow> DF64 v
           | None \<Rightarrow>
               if eq_ignore_ascii_case raw ''true'' \<or> raw = ''t'' then DBool True
               else if eq_ignore_ascii_case raw ''false'' \<or> raw = ''f'' then DBool False
               else DText raw))"

record array_state =
  as_current :: string
  as_quoted :: bool
  as_in_quotes :: bool
  as_elements :: "datum list"

definition array_flush :: "eval_env \<Rightarrow> array_state \<Rightarrow> array_state" where
  "array_flush ev st =
     (let raw = str_trim (as_current st)
      in if raw = [] \<and> \<not> as_quoted st then st
         else st\<lparr>as_elements := as_elements st @ [if as_quoted st then DText (as_current st) else array_element ev raw],
                 as_current := [], as_quoted := False\<rparr>)"

fun array_chars :: "eval_env \<Rightarrow> string list \<Rightarrow> array_state \<Rightarrow> array_state" where
  "array_chars ev [] st = st"
| "array_chars ev (c # cs) st =
     (if c = [CHR 0x22] then array_chars ev cs (st\<lparr>as_in_quotes := \<not> as_in_quotes st, as_quoted := True\<rparr>)
      else if c = [CHR 0x5C] \<and> as_in_quotes st
      then (case cs of
              [] \<Rightarrow> st
            | e # cs' \<Rightarrow> array_chars ev cs' (st\<lparr>as_current := as_current st @ e\<rparr>))
      else if c = '','' \<and> \<not> as_in_quotes st then array_chars ev cs (array_flush ev st)
      else array_chars ev cs (st\<lparr>as_current := as_current st @ c\<rparr>))"

definition parse_array_literal :: "eval_env \<Rightarrow> string \<Rightarrow> (datum list, eval_error) result" where
  "parse_array_literal ev text =
     (case Option.bind (strip_prefix ''{'' (str_trim text)) (strip_suffix ''}'') of
        None \<Rightarrow> Err (EParse (''array literal '' @ text))
      | Some inner \<Rightarrow>
          (let st = array_chars ev (utf8_chars inner)
                 \<lparr>as_current = [], as_quoted = False, as_in_quotes = False, as_elements = []\<rparr>
           in if as_in_quotes st then Err (EParse (''array literal '' @ text))
              else Ok (as_elements (array_flush ev st))))"

section \<open>The compiler\<close>

text \<open>The texts of the errors leave out the debug rendering of syntax trees.\<close>

type_synonym scalar_fn = "tuple \<Rightarrow> datum"

definition column_scalar :: "nat \<Rightarrow> scalar_fn" where
  "column_scalar i row = (if i < length row then row ! i else DNull)"

definition identifier_scalar :: "string \<Rightarrow> eval_schema \<Rightarrow> (scalar_fn, eval_error) result" where
  "identifier_scalar name schema = rmap column_scalar (ok_or (EUnknownColumn name) (index_of schema name))"

definition compound_scalar :: "string list \<Rightarrow> eval_schema \<Rightarrow> (scalar_fn, eval_error) result" where
  "compound_scalar parts schema =
     (case (case parts of [relation, column] \<Rightarrow> index_of_qualified schema relation column | _ \<Rightarrow> None) of
        Some i \<Rightarrow> Ok (column_scalar i)
      | None \<Rightarrow> if parts = [] then Err (EUnsupported ''empty compound identifier'')
                else identifier_scalar (last parts) schema)"

definition value_scalar :: "eval_env \<Rightarrow> sql_value \<Rightarrow> (scalar_fn, eval_error) result" where
  "value_scalar ev v =
     (case v of
        VBoolean b \<Rightarrow> Ok (\<lambda>_. DBool b)
      | VNumber n \<Rightarrow>
          (case parse_signed n of
             Some i \<Rightarrow> Ok (\<lambda>_. DI64 i)
           | None \<Rightarrow> (case parse_f64 (ev_float ev) n of
                Some f \<Rightarrow> Ok (\<lambda>_. DF64 f)
              | None \<Rightarrow> Err (EParse (''number literal '' @ n))))
      | VSingleQuoted t \<Rightarrow> Ok (\<lambda>_. DText t)
      | VDoubleQuoted t \<Rightarrow> Ok (\<lambda>_. DText t)
      | VOtherString t \<Rightarrow> Ok (\<lambda>_. DText t)
      | VNull \<Rightarrow> Ok (\<lambda>_. DNull)
      | VOther t \<Rightarrow> Err (EUnsupported (''literal '' @ t)))"

definition binary_datums :: "eval_env \<Rightarrow> binary_operator \<Rightarrow> datum \<Rightarrow> datum \<Rightarrow> datum" where
  "binary_datums ev op a b =
     (case op of
        BEq \<Rightarrow> DBool (datum_eq ev a b)
      | BNotEq \<Rightarrow> DBool (\<not> datum_eq ev a b)
      | BLt \<Rightarrow> datum_cmp_bool ev a b is_lt
      | BLtEq \<Rightarrow> datum_cmp_bool ev a b is_le
      | BGt \<Rightarrow> datum_cmp_bool ev a b is_gt
      | BGtEq \<Rightarrow> datum_cmp_bool ev a b is_ge
      | BAnd \<Rightarrow> DBool (a = DBool True \<and> b = DBool True)
      | BOr \<Rightarrow> DBool (a = DBool True \<or> b = DBool True)
      | BStringConcat \<Rightarrow> concat_datums ev a b
      | BArrow \<Rightarrow> ev_json_extract ev a b False
      | BLongArrow \<Rightarrow> ev_json_extract ev a b True
      | _ \<Rightarrow> arithmetic_datums ev op a b)"

fun unary_datum :: "eval_env \<Rightarrow> unary_operator \<Rightarrow> datum \<Rightarrow> datum" where
  "unary_datum ev UNot d = (case d of DBool b \<Rightarrow> DBool (\<not> b) | _ \<Rightarrow> DBool False)"
| "unary_datum ev UMinus d = negate_datum ev d"
| "unary_datum ev _ d = d"

fun in_list_scan :: "eval_env \<Rightarrow> datum \<Rightarrow> datum list \<Rightarrow> bool \<Rightarrow> bool \<times> bool" where
  "in_list_scan ev v [] saw_null = (False, saw_null)"
| "in_list_scan ev v (c # cs) saw_null =
     (if c = DNull then in_list_scan ev v cs True
      else if datum_eq ev v c then (True, saw_null) else in_list_scan ev v cs saw_null)"

definition in_list_datums :: "eval_env \<Rightarrow> bool \<Rightarrow> datum \<Rightarrow> datum list \<Rightarrow> datum" where
  "in_list_datums ev negated v elements =
     (if v = DNull then DBool False
      else case in_list_scan ev v elements False of (hit, saw_null) \<Rightarrow>
        DBool (if negated then \<not> hit \<and> \<not> saw_null else hit))"

definition between_datums :: "eval_env \<Rightarrow> bool \<Rightarrow> datum \<Rightarrow> datum \<Rightarrow> datum \<Rightarrow> datum" where
  "between_datums ev negated v low high =
     (if v = DNull \<or> low = DNull \<or> high = DNull then DBool False
      else DBool ((datum_cmp_bool ev low v is_le = DBool True \<and> datum_cmp_bool ev v high is_le = DBool True) \<noteq> negated))"

fun case_branches :: "(datum \<Rightarrow> bool) \<Rightarrow> (scalar_fn \<times> scalar_fn) list \<Rightarrow> scalar_fn option \<Rightarrow> scalar_fn" where
  "case_branches hit [] otherwise row = (case otherwise of None \<Rightarrow> DNull | Some f \<Rightarrow> f row)"
| "case_branches hit ((c, r) # bs) otherwise row = (if hit (c row) then r row else case_branches hit bs otherwise row)"

definition case_hit :: "eval_env \<Rightarrow> scalar_fn option \<Rightarrow> tuple \<Rightarrow> datum \<Rightarrow> bool" where
  "case_hit ev operand row c = (case operand of Some f \<Rightarrow> datum_eq ev (f row) c | None \<Rightarrow> c = DBool True)"

fun coalesce_datums :: "datum list \<Rightarrow> datum" where
  "coalesce_datums [] = DNull"
| "coalesce_datums (d # ds) = (if d = DNull then coalesce_datums ds else d)"

definition cardinality_datum :: "datum \<Rightarrow> datum" where
  "cardinality_datum d =
     (case d of DArray items \<Rightarrow> DI64 (if length items < 2 ^ 63 then of_nat (length items) else 2 ^ 63 - 1) | _ \<Rightarrow> DNull)"

definition function_fn :: "string \<Rightarrow> scalar_fn list \<Rightarrow> (scalar_fn, eval_error) result" where
  "function_fn name fs =
     (if name = ''coalesce'' then Ok (\<lambda>row. coalesce_datums (map (\<lambda>f. f row) fs))
      else case fs of [f] \<Rightarrow> Ok (\<lambda>row. cardinality_datum (f row))
           | _ \<Rightarrow> Err (EUnsupported ''cardinality expects 1 argument''))"

definition any_fn :: "eval_env \<Rightarrow> binary_operator \<Rightarrow> scalar_fn \<Rightarrow> scalar_fn list \<Rightarrow> (scalar_fn, eval_error) result" where
  "any_fn ev op l elements =
     (if compare_datums ev op DNull DNull = None then Err (EUnsupported ''ANY with operator'')
      else Ok (\<lambda>row. DBool (\<exists>e \<in> set elements. compare_datums ev op (l row) (e row) = Some True)))"

fun compile_inner :: "eval_env \<Rightarrow> eval_schema \<Rightarrow> expr \<Rightarrow> (scalar_fn, eval_error) result" where
  "compile_inner ev schema (Nested e) = compile_inner ev schema e"
| "compile_inner ev schema (Identifier name) = identifier_scalar name schema"
| "compile_inner ev schema (CompoundIdentifier parts) = compound_scalar parts schema"
| "compile_inner ev schema (Value v) = value_scalar ev v"
| "compile_inner ev schema (BinaryOp l op r) =
     rbind (compile_inner ev schema l) (\<lambda>f. rbind (compile_inner ev schema r) (\<lambda>g.
       if op = BOther then Err (EUnsupported ''binary op'') else Ok (\<lambda>row. binary_datums ev op (f row) (g row))))"
| "compile_inner ev schema (UnaryOp op e) =
     rbind (compile_inner ev schema e) (\<lambda>f.
       if op = UOther then Err (EUnsupported ''unary op'') else Ok (\<lambda>row. unary_datum ev op (f row)))"
| "compile_inner ev schema (IsNull e) = rmap (\<lambda>f row. DBool (f row = DNull)) (compile_inner ev schema e)"
| "compile_inner ev schema (IsNotNull e) = rmap (\<lambda>f row. DBool (f row \<noteq> DNull)) (compile_inner ev schema e)"
| "compile_inner ev schema (IsTrue e) = rmap (\<lambda>f row. DBool (f row = DBool True)) (compile_inner ev schema e)"
| "compile_inner ev schema (IsFalse e) = rmap (\<lambda>f row. DBool (f row = DBool False)) (compile_inner ev schema e)"
| "compile_inner ev schema (AnyOp l op r) =
     rbind (compile_inner ev schema l) (\<lambda>f.
       case r of
         ArrayExpr es \<Rightarrow> rbind (mapr (compile_inner ev schema) es) (any_fn ev op f)
       | Value (VSingleQuoted text) \<Rightarrow>
           rbind (parse_array_literal ev text) (\<lambda>ds. any_fn ev op f (map (\<lambda>d _. d) ds))
       | _ \<Rightarrow> Err (EUnsupported ''ANY over non-array expression''))"
| "compile_inner ev schema (Cast e target) =
     (case target of
        None \<Rightarrow> Err (EUnsupported ''cast target type'')
      | Some ty \<Rightarrow> rmap (\<lambda>f row. cast_datum ev (f row) ty) (compile_inner ev schema e))"
| "compile_inner ev schema (InList e es negated) =
     rbind (compile_inner ev schema e) (\<lambda>f. rbind (mapr (compile_inner ev schema) es) (\<lambda>gs.
       Ok (\<lambda>row. in_list_datums ev negated (f row) (map (\<lambda>g. g row) gs))))"
| "compile_inner ev schema (Between e negated low high) =
     rbind (compile_inner ev schema e) (\<lambda>f. rbind (compile_inner ev schema low) (\<lambda>g.
       rbind (compile_inner ev schema high) (\<lambda>h. Ok (\<lambda>row. between_datums ev negated (f row) (g row) (h row)))))"
| "compile_inner ev schema (Like e pat escape_char negated case_insensitive) =
     rbind (compile_inner ev schema e) (\<lambda>f. rbind (compile_inner ev schema pat) (\<lambda>g.
       rbind (like_escape escape_char) (\<lambda>esc.
         Ok (\<lambda>row. like_datums ev esc negated case_insensitive (f row) (g row)))))"
| "compile_inner ev schema (IsDistinctFrom l r) =
     rbind (compile_inner ev schema l) (\<lambda>f. rbind (compile_inner ev schema r) (\<lambda>g.
       Ok (\<lambda>row. DBool (\<not> null_safe_eq ev (f row) (g row)))))"
| "compile_inner ev schema (IsNotDistinctFrom l r) =
     rbind (compile_inner ev schema l) (\<lambda>f. rbind (compile_inner ev schema r) (\<lambda>g.
       Ok (\<lambda>row. DBool (null_safe_eq ev (f row) (g row)))))"
| "compile_inner ev schema (CaseWhen operand conditions results otherwise) =
     rbind (case operand of None \<Rightarrow> Ok None | Some e \<Rightarrow> rmap Some (compile_inner ev schema e)) (\<lambda>operand_fn.
       rbind (mapr (compile_inner ev schema) conditions) (\<lambda>cs.
         rbind (mapr (compile_inner ev schema) results) (\<lambda>rs.
           rbind (case otherwise of None \<Rightarrow> Ok None | Some e \<Rightarrow> rmap Some (compile_inner ev schema e)) (\<lambda>else_fn.
             Ok (\<lambda>row. case_branches (case_hit ev operand_fn row) (zip cs rs) else_fn row)))))"
| "compile_inner ev schema (ArrayExpr es) =
     rmap (\<lambda>fs row. DArray (map (\<lambda>f. f row) fs)) (mapr (compile_inner ev schema) es)"
| "compile_inner ev schema (FunctionCall name args) =
     (case args of
        None \<Rightarrow> Err (EUnsupported ''function argument'')
      | Some es \<Rightarrow>
          if lower_bytes name = ''coalesce'' \<or> lower_bytes name = ''cardinality'' \<and> length es = 1
          then rbind (mapr (compile_inner ev schema) es) (function_fn (lower_bytes name))
          else Err (EUnsupported (''function '' @ name)))"
| "compile_inner ev schema (OtherExpr text) = Err (EUnsupported text)"

definition compile_scalar ::
    "(string \<Rightarrow> (expr, string) result) \<Rightarrow> eval_env \<Rightarrow> string \<Rightarrow> eval_schema \<Rightarrow> (scalar_fn, eval_error) result" where
  "compile_scalar parse ev sql schema = (case parse sql of Ok e \<Rightarrow> compile_inner ev schema e | Err m \<Rightarrow> Err (EParse m) | Panic \<Rightarrow> Panic)"

definition compile_predicate ::
    "(string \<Rightarrow> (expr, string) result) \<Rightarrow> eval_env \<Rightarrow> string \<Rightarrow> eval_schema \<Rightarrow> (tuple \<Rightarrow> bool, eval_error) result" where
  "compile_predicate parse ev sql schema = rmap (\<lambda>f row. f row = DBool True) (compile_scalar parse ev sql schema)"

definition compile_int_extractor ::
    "(string \<Rightarrow> (expr, string) result) \<Rightarrow> eval_env \<Rightarrow> string \<Rightarrow> eval_schema \<Rightarrow> (tuple \<Rightarrow> i64, eval_error) result" where
  "compile_int_extractor parse ev arg_sql schema =
     (if str_trim arg_sql = ''*'' then Ok (\<lambda>_. 0)
      else rmap (\<lambda>f row. case as_i64 (f row) of None \<Rightarrow> 0 | Some v \<Rightarrow> v) (compile_scalar parse ev (str_trim arg_sql) schema))"

text \<open>\<^verbatim>\<open>infer_type\<close> and the coercion of \<^verbatim>\<open>compile_typed_scalar\<close>.\<close>

definition first_known :: "column_type list \<Rightarrow> column_type" where
  "first_known ts = (case find (\<lambda>t. t \<noteq> CtUnknown) ts of None \<Rightarrow> CtUnknown | Some t \<Rightarrow> t)"

definition or_unknown :: "column_type option \<Rightarrow> column_type" where
  "or_unknown t = (case t of None \<Rightarrow> CtUnknown | Some ty \<Rightarrow> ty)"

definition infer_compound :: "eval_schema \<Rightarrow> string list \<Rightarrow> column_type" where
  "infer_compound schema parts =
     (case (case parts of [relation, column] \<Rightarrow> index_of_qualified schema relation column | _ \<Rightarrow> None) of
        Some i \<Rightarrow> snd (sc_columns schema ! i)
      | None \<Rightarrow> if parts = [] then CtUnknown else or_unknown (schema_column_type schema (last parts)))"

fun infer_value :: "sql_value \<Rightarrow> column_type" where
  "infer_value (VBoolean b) = CtBool"
| "infer_value (VNumber n) = (if (parse_signed n :: i64 option) \<noteq> None then CtInt else CtFloat)"
| "infer_value (VSingleQuoted t) = CtText"
| "infer_value (VDoubleQuoted t) = CtText"
| "infer_value _ = CtUnknown"

definition infer_binary :: "binary_operator \<Rightarrow> column_type \<Rightarrow> column_type \<Rightarrow> column_type" where
  "infer_binary op l r =
     (if op \<in> {BEq, BNotEq, BLt, BLtEq, BGt, BGtEq, BAnd, BOr} then CtBool
      else if op = BArrow then CtJsonb
      else if op = BLongArrow \<or> op = BStringConcat then CtText
      else if op \<in> {BPlus, BMinus, BMultiply, BDivide, BModulo}
      then (if l = CtInt \<and> r = CtInt then CtInt else if is_numeric l \<and> is_numeric r then CtFloat else CtUnknown)
      else CtUnknown)"

fun infer_type :: "eval_schema \<Rightarrow> expr \<Rightarrow> column_type" where
  "infer_type schema (Nested e) = infer_type schema e"
| "infer_type schema (Identifier name) = or_unknown (schema_column_type schema name)"
| "infer_type schema (CompoundIdentifier parts) = infer_compound schema parts"
| "infer_type schema (Value v) = infer_value v"
| "infer_type schema (BinaryOp l op r) = infer_binary op (infer_type schema l) (infer_type schema r)"
| "infer_type schema (UnaryOp op e) =
     (case op of UNot \<Rightarrow> CtBool | UMinus \<Rightarrow> infer_type schema e | UPlus \<Rightarrow> infer_type schema e | UOther \<Rightarrow> CtUnknown)"
| "infer_type schema (Cast e target) = or_unknown target"
| "infer_type schema (CaseWhen operand conditions results otherwise) =
     first_known (map (infer_type schema) results @ (case otherwise of None \<Rightarrow> [] | Some e \<Rightarrow> [infer_type schema e]))"
| "infer_type schema (FunctionCall name args) =
     (if lower_bytes name = ''cardinality'' then CtInt
      else if lower_bytes name = ''coalesce''
      then (case args of None \<Rightarrow> CtUnknown | Some es \<Rightarrow> first_known (map (infer_type schema) es))
      else CtUnknown)"
| "infer_type schema (ArrayExpr es) = CtUnknown"
| "infer_type schema (OtherExpr text) = CtUnknown"
| "infer_type schema (IsNull e) = CtBool"
| "infer_type schema (IsNotNull e) = CtBool"
| "infer_type schema (IsTrue e) = CtBool"
| "infer_type schema (IsFalse e) = CtBool"
| "infer_type schema (IsDistinctFrom l r) = CtBool"
| "infer_type schema (IsNotDistinctFrom l r) = CtBool"
| "infer_type schema (AnyOp l op r) = CtBool"
| "infer_type schema (InList e es negated) = CtBool"
| "infer_type schema (Between e negated low high) = CtBool"
| "infer_type schema (Like e pat escape_char negated case_insensitive) = CtBool"

definition compile_typed_scalar ::
    "(string \<Rightarrow> (expr, string) result) \<Rightarrow> eval_env \<Rightarrow> string \<Rightarrow> eval_schema \<Rightarrow> (scalar_fn \<times> column_type, eval_error) result" where
  "compile_typed_scalar parse ev sql schema =
     (case parse sql of
        Ok e \<Rightarrow> rmap (\<lambda>f. let ty = infer_type schema e
                          in (if ty \<in> {CtUnknown, CtText} then f else (\<lambda>row. cast_datum ev (f row) ty), ty))
                   (compile_inner ev schema e)
      | Err m \<Rightarrow> Err (EParse m) | Panic \<Rightarrow> Panic)"

section \<open>LIKE agrees with its reference\<close>

text \<open>The reference follows the pattern: \<^verbatim>\<open>%\<close> stands for any run of characters, \<^verbatim>\<open>_\<close> for one, and the escape
  character makes the next one literal; a trailing escape character stands for itself.\<close>

fun like_spec :: "string option \<Rightarrow> string list \<Rightarrow> string list \<Rightarrow> bool" where
  "like_spec esc [] s = (s = [])"
| "like_spec esc (c # cs) s =
     (if Some c = esc
      then (case cs of
              [] \<Rightarrow> s = [c]
            | e # cs' \<Rightarrow> (case s of [] \<Rightarrow> False | x # xs \<Rightarrow> x = e \<and> like_spec esc cs' xs))
      else if c = ''%'' then (\<exists>k \<le> length s. like_spec esc cs (drop k s))
      else if c = ''_'' then s \<noteq> [] \<and> like_spec esc cs (tl s)
      else (case s of [] \<Rightarrow> False | x # xs \<Rightarrow> x = c \<and> like_spec esc cs xs))"

text \<open>A token list matches a prefix of the subject whose rest satisfies a predicate.\<close>

fun matches :: "like_token list \<Rightarrow> (string list \<Rightarrow> bool) \<Rightarrow> string list \<Rightarrow> bool" where
  "matches [] P s = P s"
| "matches (Literal c # ts) P s = (case s of [] \<Rightarrow> False | x # xs \<Rightarrow> x = c \<and> matches ts P xs)"
| "matches (AnyOne # ts) P s = (case s of [] \<Rightarrow> False | x # xs \<Rightarrow> matches ts P xs)"
| "matches (AnyRun # ts) P s = (\<exists>k \<le> length s. matches ts P (drop k s))"

abbreviation matches_all :: "like_token list \<Rightarrow> string list \<Rightarrow> bool" where
  "matches_all ts s \<equiv> matches ts (\<lambda>r. r = []) s"

lemma matches_append: "matches (ts @ us) P = matches ts (matches us P)"
proof (induction ts)
  case (Cons t ts)
  then show ?case by (cases t) (auto simp: fun_eq_iff split: list.split)
qed (simp add: fun_eq_iff)

lemma drop_run_twice: "(\<exists>j \<le> length s. \<exists>k \<le> length (drop j s). P (drop k (drop j s))) = (\<exists>k \<le> length s. P (drop k s))"
proof
  assume "\<exists>j \<le> length s. \<exists>k \<le> length (drop j s). P (drop k (drop j s))"
  then obtain j k where "j \<le> length s" "k \<le> length (drop j s)" "P (drop k (drop j s))" by blast
  then show "\<exists>k \<le> length s. P (drop k s)" by (intro exI [of _ "k + j"]) simp
next
  assume "\<exists>k \<le> length s. P (drop k s)"
  then show "\<exists>j \<le> length s. \<exists>k \<le> length (drop j s). P (drop k (drop j s))" by (intro exI [of _ 0]) simp
qed

lemma matches_like_tokens: "matches (like_tokens esc cs acc) (\<lambda>r. r = []) = matches acc (like_spec esc cs)"
proof (induction esc cs acc rule: like_tokens.induct)
  case (2 esc c cs acc)
  consider (esc) "Some c = esc" | (run) "Some c \<noteq> esc" "c = ''%''" | (one) "Some c \<noteq> esc" "c = ''_''"
    | (lit) "Some c \<noteq> esc" "c \<noteq> ''%''" "c \<noteq> ''_''" by blast
  then show ?case
  proof cases
    case esc
    have one: "like_spec esc [c] = matches [Literal c] (\<lambda>r. r = [])"
      using esc by (auto simp: fun_eq_iff split: list.split)
    have two: "like_spec esc (c # e # cs') = matches [Literal e] (like_spec esc cs')" for e cs'
      using esc by (auto simp: fun_eq_iff split: list.split)
    show ?thesis
    proof (cases cs)
      case Nil
      then show ?thesis using esc by (simp add: one matches_append del: like_spec.simps matches.simps)
    next
      case (Cons e cs')
      then show ?thesis using 2(1) [OF esc Cons] esc two [of e cs'] by (simp add: matches_append del: like_spec.simps matches.simps)
    qed
  next
    case run
    let ?acc = "if acc \<noteq> [] \<and> last acc = AnyRun then acc else acc @ [AnyRun]"
    have spec: "like_spec esc (c # cs) = matches [AnyRun] (like_spec esc cs)" using run by (auto simp: fun_eq_iff)
    have twice: "matches [AnyRun] (matches [AnyRun] P) = matches [AnyRun] P" for P
      by (simp only: fun_eq_iff matches.simps drop_run_twice simp_thms)
    have "matches ?acc P = matches acc (matches [AnyRun] P)" for P
    proof (cases "acc \<noteq> [] \<and> last acc = AnyRun")
      case True
      then have acc: "acc = butlast acc @ [AnyRun]" by (metis append_butlast_last_id)
      show ?thesis using True by (subst (2) acc, subst acc) (simp only: matches_append twice if_True simp_thms)
    next
      case False
      then show ?thesis by (simp only: if_False matches_append)
    qed
    then show ?thesis using 2(2) run spec by (simp del: like_spec.simps matches.simps)
  next
    case one
    then have "like_spec esc (c # cs) = matches [AnyOne] (like_spec esc cs)"
      by (auto simp: fun_eq_iff split: list.split)
    then show ?thesis using 2(3) one by (simp add: matches_append del: like_spec.simps matches.simps)
  next
    case lit
    then have "like_spec esc (c # cs) = matches [Literal c] (like_spec esc cs)"
      by (auto simp: fun_eq_iff split: list.split)
    then show ?thesis using 2(4) lit by (simp add: matches_append del: like_spec.simps matches.simps)
  qed
qed simp

text \<open>Tokens without \<^verbatim>\<open>%\<close> match exactly as many characters as there are tokens.\<close>

lemma matches_fixed:
  assumes "AnyRun \<notin> set ts" "matches ts P s"
  shows "length ts \<le> length s \<and> P (drop (length ts) s)"
  using assms
proof (induction ts arbitrary: s)
  case (Cons t ts)
  then show ?case by (cases t; cases s) auto
qed simp

lemma matches_runs: "matches_all ts [] = (set ts \<subseteq> {AnyRun})"
proof (induction ts)
  case (Cons t ts)
  then show ?case by (cases t) auto
qed simp

lemma skip_runs_spec: "skip_runs ts p = length ts \<longleftrightarrow> p = length ts \<or> p < length ts \<and> set (drop p ts) \<subseteq> {AnyRun}"
proof (induction ts p rule: skip_runs.induct)
  case (1 ts p)
  show ?case
  proof (cases "p < length ts")
    case True
    then have "drop p ts = ts ! p # drop (p + 1) ts" by (simp add: Cons_nth_drop_Suc)
    then show ?thesis using 1 True by (subst skip_runs.simps) auto
  qed auto
qed

text \<open>The loop invariant.  After a \<^verbatim>\<open>%\<close> at \<open>sp\<close> that is tried with the subject position \<open>ss\<close>, the tokens
  between it and \<open>p\<close> are fixed and have consumed the characters up to \<open>s\<close>.\<close>

definition like_inv :: "string list \<Rightarrow> like_token list \<Rightarrow> nat \<Rightarrow> nat \<Rightarrow> nat option \<Rightarrow> nat \<Rightarrow> bool" where
  "like_inv subject tokens s p star ss =
     (s \<le> length subject \<and> p \<le> length tokens \<and> ss \<le> s
      \<and> (\<forall>sp. star = Some sp \<longrightarrow> sp < p \<and> s - ss = p - Suc sp
           \<and> AnyRun \<notin> set (take (p - Suc sp) (drop (Suc sp) tokens))))"

text \<open>What the state stands for: the current attempt, or a later start of the last run.\<close>

definition like_value :: "string list \<Rightarrow> like_token list \<Rightarrow> nat \<Rightarrow> nat \<Rightarrow> nat option \<Rightarrow> nat \<Rightarrow> bool" where
  "like_value subject tokens s p star ss =
     (matches_all (drop p tokens) (drop s subject)
      \<or> (\<exists>sp k. star = Some sp \<and> ss < k \<and> k \<le> length subject \<and> matches_all (drop (Suc sp) tokens) (drop k subject)))"

text \<open>A later start is no better than the current position, as far as the tokens from \<open>p\<close> on go.\<close>

lemma later_start:
  assumes inv: "like_inv subject tokens s p (Some sp) ss" and k: "ss < k" "k \<le> length subject"
    and m: "matches_all (drop (Suc sp) tokens) (drop k subject)"
  shows "s + (k - ss) \<le> length subject" "matches_all (drop p tokens) (drop (s + (k - ss)) subject)"
proof -
  let ?seg = "take (p - Suc sp) (drop (Suc sp) tokens)"
  have p: "sp < p" "p \<le> length tokens" "s - ss = p - Suc sp" "ss \<le> s" "AnyRun \<notin> set ?seg"
    using inv by (auto simp: like_inv_def)
  have split: "drop (Suc sp) tokens = ?seg @ drop p tokens"
    using p(1) append_take_drop_id [of "p - Suc sp" "drop (Suc sp) tokens"] by simp
  have len: "length ?seg = s - ss" using p by simp
  have "matches ?seg (matches_all (drop p tokens)) (drop k subject)"
    using m by (subst (asm) split) (simp only: matches_append)
  from matches_fixed [OF p(5) this]
  have "s - ss \<le> length subject - k" "matches_all (drop p tokens) (drop (s - ss) (drop k subject))"
    unfolding len by simp_all
  moreover have "s - ss + k = s + (k - ss)" using k p(4) by simp
  ultimately show "s + (k - ss) \<le> length subject" "matches_all (drop p tokens) (drop (s + (k - ss)) subject)"
    using k by simp_all
qed

lemma like_step_char:
  assumes inv: "like_inv subject tokens s p star ss" and s: "s < length subject" and p: "p < length tokens"
    and t: "tokens ! p = Literal (subject ! s) \<or> tokens ! p = AnyOne"
  shows "like_inv subject tokens (Suc s) (Suc p) star ss"
    and "like_value subject tokens (Suc s) (Suc p) star ss = like_value subject tokens s p star ss"
proof -
  have tok: "drop p tokens = tokens ! p # drop (Suc p) tokens" and sub: "drop s subject = subject ! s # drop (Suc s) subject"
    using s p by (simp_all add: Cons_nth_drop_Suc)
  have "AnyRun \<notin> set (take (Suc p - Suc sp) (drop (Suc sp) tokens))"
    if sp: "sp < p" "AnyRun \<notin> set (take (p - Suc sp) (drop (Suc sp) tokens))" for sp
  proof -
    have "Suc p - Suc sp = Suc (p - Suc sp)" using sp by simp
    moreover have "drop (Suc sp) tokens ! (p - Suc sp) = tokens ! p" using sp p by simp
    moreover have "p - Suc sp < length (drop (Suc sp) tokens)" using sp p by simp
    ultimately show ?thesis using sp(2) t by (auto simp: take_Suc_conv_app_nth)
  qed
  then show "like_inv subject tokens (Suc s) (Suc p) star ss" using inv s p by (auto simp: like_inv_def)
  show "like_value subject tokens (Suc s) (Suc p) star ss = like_value subject tokens s p star ss"
    using t unfolding like_value_def tok sub by auto
qed

lemma like_step_run:
  assumes inv: "like_inv subject tokens s p star ss" and s: "s < length subject" and p: "p < length tokens" "tokens ! p = AnyRun"
  shows "like_inv subject tokens s (Suc p) (Some p) s"
    and "like_value subject tokens s (Suc p) (Some p) s = like_value subject tokens s p star ss"
proof -
  show "like_inv subject tokens s (Suc p) (Some p) s" using s p by (simp add: like_inv_def)
  have tok: "drop p tokens = AnyRun # drop (Suc p) tokens" using p by (metis Cons_nth_drop_Suc)
  let ?m = "\<lambda>k. matches_all (drop (Suc p) tokens) (drop k subject)"
  have run: "matches_all (drop p tokens) (drop j subject) = (\<exists>k. j \<le> k \<and> k \<le> length subject \<and> ?m k)" if "j \<le> length subject" for j
  proof -
    have "(\<exists>k \<le> length subject - j. ?m (k + j)) = (\<exists>k. j \<le> k \<and> k \<le> length subject \<and> ?m k)"
    proof
      assume "\<exists>k \<le> length subject - j. ?m (k + j)"
      then obtain k where "k \<le> length subject - j" "?m (k + j)" by blast
      then show "\<exists>k. j \<le> k \<and> k \<le> length subject \<and> ?m k" using that by (intro exI [of _ "k + j"]) simp
    next
      assume "\<exists>k. j \<le> k \<and> k \<le> length subject \<and> ?m k"
      then obtain k where "j \<le> k" "k \<le> length subject" "?m k" by blast
      then show "\<exists>k \<le> length subject - j. ?m (k + j)" by (intro exI [of _ "k - j"]) simp
    qed
    then show ?thesis by (simp add: tok)
  qed
  have "like_value subject tokens s (Suc p) (Some p) s = matches_all (drop p tokens) (drop s subject)"
    using s unfolding like_value_def run [OF less_imp_le [OF s]] by (auto simp: le_less)
  moreover have "matches_all (drop p tokens) (drop s subject)"
    if k: "star = Some sp" "ss < k" "k \<le> length subject" "matches_all (drop (Suc sp) tokens) (drop k subject)" for sp k
    using later_start [OF inv [unfolded k(1)] k(2-4)] run s by (meson le_add1 le_trans less_imp_le)
  ultimately show "like_value subject tokens s (Suc p) (Some p) s = like_value subject tokens s p star ss"
    unfolding like_value_def [of subject tokens s p star ss] by blast
qed

lemma like_step_back:
  assumes inv: "like_inv subject tokens s p (Some sp) ss" and s: "s < length subject"
    and miss: "\<not> matches_all (drop p tokens) (drop s subject)"
  shows "like_inv subject tokens (Suc ss) (Suc sp) (Some sp) (Suc ss)"
    and "like_value subject tokens (Suc ss) (Suc sp) (Some sp) (Suc ss) = like_value subject tokens s p (Some sp) ss"
proof -
  show "like_inv subject tokens (Suc ss) (Suc sp) (Some sp) (Suc ss)" using inv s by (auto simp: like_inv_def)
  have ss: "Suc ss \<le> length subject" using inv s by (auto simp: like_inv_def)
  let ?m = "\<lambda>k. matches_all (drop (Suc sp) tokens) (drop k subject)"
  have "(?m (Suc ss) \<or> (\<exists>k. Suc ss < k \<and> k \<le> length subject \<and> ?m k)) = (\<exists>k. ss < k \<and> k \<le> length subject \<and> ?m k)"
  proof
    assume "?m (Suc ss) \<or> (\<exists>k. Suc ss < k \<and> k \<le> length subject \<and> ?m k)"
    then show "\<exists>k. ss < k \<and> k \<le> length subject \<and> ?m k" using ss Suc_lessD by blast
  next
    assume "\<exists>k. ss < k \<and> k \<le> length subject \<and> ?m k"
    then obtain k where k: "ss < k" "k \<le> length subject" "?m k" by blast
    then show "?m (Suc ss) \<or> (\<exists>k. Suc ss < k \<and> k \<le> length subject \<and> ?m k)"
      by (cases "k = Suc ss") auto
  qed
  then show "like_value subject tokens (Suc ss) (Suc sp) (Some sp) (Suc ss) = like_value subject tokens s p (Some sp) ss"
    using miss unfolding like_value_def by simp
qed

lemma like_mismatch:
  assumes "s < length subject" "\<not> (p < length tokens \<and> (tokens ! p = Literal (subject ! s) \<or> tokens ! p = AnyOne))"
    "\<not> (p < length tokens \<and> tokens ! p = AnyRun)"
  shows "\<not> matches_all (drop p tokens) (drop s subject)"
proof (cases "p < length tokens")
  case True
  have "drop p tokens = tokens ! p # drop (Suc p) tokens" "drop s subject = subject ! s # drop (Suc s) subject"
    using True assms(1) by (simp_all add: Cons_nth_drop_Suc)
  then show ?thesis using assms True by (cases "tokens ! p") auto
qed (use assms(1) in simp)

lemma like_end:
  assumes inv: "like_inv subject tokens s p star ss" and s: "\<not> s < length subject"
  shows "like_value subject tokens s p star ss = (skip_runs tokens p = length tokens)"
proof -
  have sp: "s = length subject" "p \<le> length tokens" using inv s by (auto simp: like_inv_def)
  have "\<not> (\<exists>sp k. star = Some sp \<and> ss < k \<and> k \<le> length subject \<and> matches_all (drop (Suc sp) tokens) (drop k subject))"
    using later_start(1) inv sp(1) by fastforce
  then have "like_value subject tokens s p star ss = matches_all (drop p tokens) []"
    unfolding like_value_def sp(1) by auto
  also have "\<dots> = (skip_runs tokens p = length tokens)"
    using sp(2) unfolding matches_runs skip_runs_spec by (auto simp: le_less)
  finally show ?thesis .
qed

text \<open>The loop returns, with the value of its first state.\<close>

definition loop_answer :: "like_token list \<Rightarrow> nat option \<Rightarrow> bool" where
  "loop_answer tokens r = (case r of None \<Rightarrow> False | Some p \<Rightarrow> skip_runs tokens p = length tokens)"

lemma like_loop_spec:
  "like_inv subject tokens s p star ss \<Longrightarrow>
     \<exists>r. like_loop subject tokens s p star ss = Some r \<and> loop_answer tokens r = like_value subject tokens s p star ss"
proof (induction "(s, p, star, ss)" arbitrary: s p star ss
    rule: wf_induct_rule [OF wf_measures [of "[\<lambda>(s, p, star, ss). length subject - ss,
      \<lambda>(s, p, star, ss). length subject - s, \<lambda>(s, p, star :: nat option, ss). length tokens - p]"]])
  case 1
  note inv = 1(2)
  have le: "ss \<le> s" using inv by (simp add: like_inv_def)
  show ?case
  proof (cases "s < length subject")
    case False
    then show ?thesis using like_end [OF inv False] by (subst like_loop.simps) (simp add: loop_answer_def)
  next
    case s: True
    consider (char) "p < length tokens" "tokens ! p = Literal (subject ! s) \<or> tokens ! p = AnyOne"
      | (run) "p < length tokens" "tokens ! p = AnyRun"
      | (miss) "\<not> (p < length tokens \<and> (tokens ! p = Literal (subject ! s) \<or> tokens ! p = AnyOne))"
          "\<not> (p < length tokens \<and> tokens ! p = AnyRun)" by blast
    then show ?thesis
    proof cases
      case char
      note step = like_step_char [OF inv s char]
      have "like_loop subject tokens s p star ss = like_loop subject tokens (Suc s) (Suc p) star ss"
        using s char by (subst like_loop.simps) simp
      moreover have "length subject - Suc s < length subject - s" using s by simp
      ultimately show ?thesis using 1(1) [OF _ step(1)] step(2) by (simp add: in_measures)
    next
      case run
      note step = like_step_run [OF inv s run]
      have "like_loop subject tokens s p star ss = like_loop subject tokens s (Suc p) (Some p) s"
        using s run by (subst like_loop.simps) simp
      moreover have "length tokens - Suc p < length tokens - p" "length subject - s \<le> length subject - ss"
        using run(1) le by simp_all
      ultimately show ?thesis using 1(1) [OF _ step(1)] step(2) by (simp add: in_measures le_less)
    next
      case miss
      note no = like_mismatch [OF s miss]
      show ?thesis
      proof (cases star)
        case None
        have "like_loop subject tokens s p star ss = Some None"
          using s miss None by (subst like_loop.simps) auto
        then show ?thesis using no None by (simp add: loop_answer_def like_value_def)
      next
        case (Some sp)
        note step = like_step_back [OF inv [unfolded Some] s no]
        have "like_loop subject tokens s p star ss = like_loop subject tokens (Suc ss) (Suc sp) star (Suc ss)"
          using s miss Some by (subst like_loop.simps) auto
        moreover have "length subject - Suc ss < length subject - ss" using le s by simp
        ultimately show ?thesis using 1(1) [OF _ step(1)] step(2) Some by (simp add: in_measures)
      qed
    qed
  qed
qed

lemma like_match_spec: "like_match subject pattern esc = Some (like_spec esc (utf8_chars pattern) (utf8_chars subject))"
proof -
  let ?S = "utf8_chars subject" and ?T = "like_tokens esc (utf8_chars pattern) []"
  have "like_inv ?S ?T 0 0 None 0" by (simp add: like_inv_def)
  then obtain r where r: "like_loop ?S ?T 0 0 None 0 = Some r" "loop_answer ?T r = like_value ?S ?T 0 0 None 0"
    using like_loop_spec by blast
  have "like_value ?S ?T 0 0 None 0 = like_spec esc (utf8_chars pattern) ?S"
    using matches_like_tokens [of esc "utf8_chars pattern" "[]"] by (simp add: like_value_def)
  then show ?thesis using r by (cases r) (simp_all add: like_match_def Let_def loop_answer_def)
qed

section \<open>Three-valued logic\<close>

text \<open>The reference semantics of a condition: \<open>None\<close> is \<^verbatim>\<open>UNKNOWN\<close>.  Operands that are not conditions have
  the value the compiled function gives.\<close>

definition scalar_value :: "eval_env \<Rightarrow> eval_schema \<Rightarrow> expr \<Rightarrow> tuple \<Rightarrow> datum" where
  "scalar_value ev schema e row = (case compile_inner ev schema e of Ok f \<Rightarrow> f row | _ \<Rightarrow> DNull)"

definition and3 :: "bool option \<Rightarrow> bool option \<Rightarrow> bool option" where
  "and3 a b = (if a = Some False \<or> b = Some False then Some False
     else if a = None \<or> b = None then None else Some True)"

definition or3 :: "bool option \<Rightarrow> bool option \<Rightarrow> bool option" where
  "or3 a b = (if a = Some True \<or> b = Some True then Some True
     else if a = None \<or> b = None then None else Some False)"

definition not3 :: "bool option \<Rightarrow> bool option" where
  "not3 a = map_option Not a"

definition compare3 :: "eval_env \<Rightarrow> binary_operator \<Rightarrow> datum \<Rightarrow> datum \<Rightarrow> bool option" where
  "compare3 ev op a b = (if a = DNull \<or> b = DNull then None else compare_datums ev op a b)"

definition bool3 :: "datum \<Rightarrow> bool option" where
  "bool3 d = (case d of DBool b \<Rightarrow> Some b | _ \<Rightarrow> None)"

abbreviation comparison :: "binary_operator \<Rightarrow> bool" where
  "comparison op \<equiv> op \<in> {BEq, BNotEq, BLt, BLtEq, BGt, BGtEq}"

definition in3 :: "eval_env \<Rightarrow> datum \<Rightarrow> datum list \<Rightarrow> bool option" where
  "in3 ev v elements = foldr (\<lambda>c. or3 (compare3 ev BEq v c)) elements (Some False)"

fun truth :: "eval_env \<Rightarrow> eval_schema \<Rightarrow> tuple \<Rightarrow> expr \<Rightarrow> bool option" where
  "truth ev schema row (Nested e) = truth ev schema row e"
| "truth ev schema row (BinaryOp l op r) =
     (if op = BAnd then and3 (truth ev schema row l) (truth ev schema row r)
      else if op = BOr then or3 (truth ev schema row l) (truth ev schema row r)
      else if comparison op then compare3 ev op (scalar_value ev schema l row) (scalar_value ev schema r row)
      else bool3 (scalar_value ev schema (BinaryOp l op r) row))"
| "truth ev schema row (UnaryOp op e) =
     (if op = UNot then not3 (truth ev schema row e) else bool3 (scalar_value ev schema (UnaryOp op e) row))"
| "truth ev schema row (InList e es negated) =
     (let r = in3 ev (scalar_value ev schema e row) (map (\<lambda>x. scalar_value ev schema x row) es)
      in if negated then not3 r else r)"
| "truth ev schema row (Between e negated low high) =
     (let r = and3 (compare3 ev BLtEq (scalar_value ev schema low row) (scalar_value ev schema e row))
                   (compare3 ev BLtEq (scalar_value ev schema e row) (scalar_value ev schema high row))
      in if negated then not3 r else r)"
| "truth ev schema row e = bool3 (scalar_value ev schema e row)"

text \<open>Conditions without a negation of a comparison: \<^verbatim>\<open>NOT\<close>, \<^verbatim>\<open><>\<close> and \<^verbatim>\<open>NOT BETWEEN\<close> occur in no conjunct or
  disjunct.\<close>

fun negation_free :: "expr \<Rightarrow> bool" where
  "negation_free (Nested e) = negation_free e"
| "negation_free (BinaryOp l op r) = (if op \<in> {BAnd, BOr} then negation_free l \<and> negation_free r else op \<noteq> BNotEq)"
| "negation_free (UnaryOp op e) = (op \<noteq> UNot)"
| "negation_free (InList e es negated) = (es \<noteq> [])"
| "negation_free (Between e negated low high) = (\<not> negated)"
| "negation_free e = True"

lemma datum_ord_null [simp]: "datum_ord ev DNull b = None" "datum_ord ev a DNull = None"
  by (simp_all add: datum_ord_def split: datum.splits)

lemma compare3_true:
  assumes "op \<in> {BEq, BLt, BLtEq, BGt, BGtEq}"
  shows "(binary_datums ev op a b = DBool True) = (compare3 ev op a b = Some True)"
  using assms by (auto simp: binary_datums_def compare3_def compare_datums_def datum_eq_def datum_cmp_bool_def)

lemma or3_true: "(or3 a b = Some True) = (a = Some True \<or> b = Some True)"
  by (simp add: or3_def)

lemma or3_false: "(or3 a b = Some False) = (a = Some False \<and> b = Some False)"
  by (cases a; cases b) (auto simp: or3_def)

lemma and3_true: "(and3 a b = Some True) = (a = Some True \<and> b = Some True)"
  by (cases a; cases b) (auto simp: and3_def)

lemma in3_true: "(in3 ev v cs = Some True) = (\<exists>c \<in> set cs. compare3 ev BEq v c = Some True)"
  by (induction cs) (simp_all add: in3_def or3_true)

lemma in3_false: "(in3 ev v cs = Some False) = (\<forall>c \<in> set cs. compare3 ev BEq v c = Some False)"
  by (induction cs) (simp_all add: in3_def or3_false)

lemma in_list_scan_spec:
  "fst (in_list_scan ev v cs n) = (\<exists>c \<in> set cs. c \<noteq> DNull \<and> datum_eq ev v c)"
  "\<not> fst (in_list_scan ev v cs n) \<Longrightarrow> snd (in_list_scan ev v cs n) = (n \<or> DNull \<in> set cs)"
  by (induction cs arbitrary: n) auto

lemma in_list_true:
  assumes "cs \<noteq> []"
  shows "(in_list_datums ev negated v cs = DBool True) =
    ((if negated then not3 (in3 ev v cs) else in3 ev v cs) = Some True)"
proof (cases "v = DNull")
  case True
  have "in3 ev DNull cs \<noteq> Some True" "in3 ev DNull cs \<noteq> Some False"
    using assms by (auto simp: in3_true in3_false compare3_def)
  then show ?thesis using True by (auto simp: in_list_datums_def not3_def)
next
  case False
  have cmp: "compare3 ev BEq v c = (if c = DNull then None else Some (datum_eq ev v c))" for c
    using False by (simp add: compare3_def compare_datums_def)
  have null: "datum_eq ev v DNull = False" by (simp add: datum_eq_def)
  obtain hit saw where scan: "in_list_scan ev v cs False = (hit, saw)" by (cases "in_list_scan ev v cs False")
  have hit: "hit = (in3 ev v cs = Some True)"
    using in_list_scan_spec(1) [of ev v cs False] unfolding scan in3_true cmp by auto
  have miss: "(\<not> hit \<and> \<not> saw) = (in3 ev v cs = Some False)"
    using in_list_scan_spec [of ev v cs False] unfolding scan in3_false cmp by (auto split: if_splits)
  show ?thesis
    using False scan hit miss by (cases "in3 ev v cs") (auto simp: in_list_datums_def not3_def)
qed

lemma between_true:
  "(between_datums ev False v low high = DBool True) =
     (and3 (compare3 ev BLtEq low v) (compare3 ev BLtEq v high) = Some True)"
  by (auto simp: between_datums_def and3_true compare3_def compare_datums_def)

lemma scalar_value_Ok [simp]: "compile_inner ev schema e = Ok f \<Longrightarrow> scalar_value ev schema e row = f row"
  by (simp add: scalar_value_def)

lemma mapr_scalar_values:
  "mapr (compile_inner ev schema) es = Ok gs \<Longrightarrow> map (\<lambda>g. g row) gs = map (\<lambda>x. scalar_value ev schema x row) es"
  by (induction es arbitrary: gs) (auto simp: rbind_eq_Ok)

lemma bool3_true: "(bool3 d = Some True) = (d = DBool True)"
  by (cases d) (simp_all add: bool3_def)

lemma predicate_truth:
  assumes "compile_inner ev schema e = Ok f" "negation_free e"
  shows "(f row = DBool True) = (truth ev schema row e = Some True)"
  using assms
proof (induction e arbitrary: f)
  case (BinaryOp l op r)
  obtain g h where c: "compile_inner ev schema l = Ok g" "compile_inner ev schema r = Ok h"
    and f: "f = (\<lambda>row. binary_datums ev op (g row) (h row))"
    using BinaryOp.prems(1) by (auto simp: rbind_eq_Ok split: if_splits)
  show ?case
  proof (cases "op \<in> {BAnd, BOr}")
    case True
    then have "negation_free l" "negation_free r" using BinaryOp.prems(2) by auto
    then show ?thesis
      using BinaryOp.IH(1) [OF c(1)] BinaryOp.IH(2) [OF c(2)] True
      by (auto simp: f binary_datums_def and3_true or3_true)
  next
    case False
    then have "op \<noteq> BNotEq" using BinaryOp.prems(2) by simp
    then show ?thesis
      using False c f BinaryOp.prems(1) compare3_true [of op ev "g row" "h row"]
      by (cases "comparison op") (auto simp: bool3_true)
  qed
next
  case (UnaryOp op e)
  then show ?case by (simp add: bool3_true)
next
  case (InList e es negated)
  then obtain g gs where c: "compile_inner ev schema e = Ok g" "mapr (compile_inner ev schema) es = Ok gs"
    and f: "f = (\<lambda>row. in_list_datums ev negated (g row) (map (\<lambda>g. g row) gs))"
    by (auto simp: rbind_eq_Ok)
  have "map (\<lambda>x. scalar_value ev schema x row) es \<noteq> []" using InList.prems(2) by simp
  from in_list_true [OF this] show ?case
    using c(1) by (simp add: f mapr_scalar_values [OF c(2)] Let_def)
next
  case (Between e negated low high)
  then obtain g h k where "compile_inner ev schema e = Ok g" "compile_inner ev schema low = Ok h"
    "compile_inner ev schema high = Ok k" "f = (\<lambda>row. between_datums ev False (g row) (h row) (k row))"
    by (auto simp: rbind_eq_Ok)
  then show ?case using Between.prems(2) between_true by (simp add: Let_def)
qed (simp_all add: bool3_true)

section \<open>Properties\<close>

text \<open>C9: \<^verbatim>\<open>like_match\<close>, the two-pointer matcher with backtracking to the last \<^verbatim>\<open>%\<close>, always returns and gives
  the answer of the reference semantics of the pattern.\<close>
theorem like_match_equivalence:
  "like_match subject pattern esc = Some (like_spec esc (utf8_chars pattern) (utf8_chars subject))"
  by (rule like_match_spec)



text \<open>With a negation the predicate can accept a row on which the condition is unknown: \<^verbatim>\<open>NOT (done = true)\<close> and
  \<^verbatim>\<open>done <> true\<close> accept a row whose column is \<^verbatim>\<open>NULL\<close>.\<close>

lemma negated_null_accepted:
  assumes "e \<in> {UnaryOp UNot (BinaryOp (Identifier ''done'') BEq (Value (VBoolean True))),
    BinaryOp (Identifier ''done'') BNotEq (Value (VBoolean True))}"
  shows "scalar_value ev (from_pairs [(''done'', CtBool)]) e [DNull] = DBool True
    \<and> truth ev (from_pairs [(''done'', CtBool)]) [DNull] e = None"
  using assms
  by (auto simp: scalar_value_def identifier_scalar_def index_of_def from_pairs_def value_scalar_def
      column_scalar_def compare3_def datum_eq_def binary_datums_def not3_def)

text \<open>Integer arithmetic is exact or \<^verbatim>\<open>NULL\<close>.\<close>

lemma checked_i64_exact: "checked_i64 v = Some r \<Longrightarrow> sint r = v"
  by (auto simp: checked_i64_def sint_sbintrunc' signed_take_bit_int_eq_self_iff split: if_splits)

lemma arithmetic_exact:
  assumes "op \<in> {BPlus, BMinus, BMultiply}" "as_i64 a = Some x" "as_i64 b = Some y"
    "arithmetic_datums ev op a b = DI64 r"
  shows "sint r = (case op of BPlus \<Rightarrow> sint x + sint y | BMinus \<Rightarrow> sint x - sint y | _ \<Rightarrow> sint x * sint y)"
  using assms by (auto simp: arithmetic_datums_def checked_arith_def dest!: checked_i64_exact split: option.splits)

end
