(* ===== verification/Dataflow_State.thy ===== *)
theory Dataflow_State
  imports Server_Cursor "HOL-Library.Multiset"
begin

text \<open>
  The state the dataflow keeps around its operators: consolidation of weighted records
  (\<^verbatim>\<open>palimpsest-dataflow/src/consolidation.rs\<close>), and of \<^verbatim>\<open>palimpsest-dataflow/src/palimpsest\<close> the timestamps
  (\<^verbatim>\<open>time.rs\<close>), the assembly of transactions from WAL events (\<^verbatim>\<open>wal.rs\<close>), the resolution of unchanged
  TOAST values (\<^verbatim>\<open>toast.rs\<close>) and the keys of partial materializations (\<^verbatim>\<open>materialization.rs\<close>).
\<close>

section \<open>Consolidation\<close>

text \<open>A weighted record is a key with a weight; the triples of \<^verbatim>\<open>consolidate_updates\<close> have the pair of data
  and time as key.  The weights are a commutative monoid, and a slice is changed in place.  The sort is a
  parameter, because \<^verbatim>\<open>consolidate\<close> sorts stably and \<^verbatim>\<open>consolidate_updates\<close> does not.\<close>

type_synonym ('k, 'r) weighted = "('k \<times> 'r) list"

definition slice_swap :: "nat \<Rightarrow> nat \<Rightarrow> 'a list \<Rightarrow> 'a list" where
  "slice_swap i j xs = xs[i := xs ! j, j := xs ! i]"

text \<open>\<^verbatim>\<open>slice.swap(offset, at); slice[offset].1 = accum\<close>.\<close>

definition put_run :: "nat \<Rightarrow> nat \<Rightarrow> 'r \<Rightarrow> ('k, 'r) weighted \<Rightarrow> ('k, 'r) weighted" where
  "put_run offset at accum sl =
     (let sl' = slice_swap offset at sl in sl'[offset := (fst (sl' ! offset), accum)])"

lemma length_put_run [simp]: "length (put_run offset at accum sl) = length sl"
  by (simp add: put_run_def slice_swap_def Let_def)

function consolidate_loop ::
    "('k, 'r::comm_monoid_add) weighted \<Rightarrow> nat \<Rightarrow> nat \<Rightarrow> 'r \<Rightarrow> ('k, 'r) weighted \<times> nat" where
  "consolidate_loop sl index offset accum =
     (if index < length sl
      then if fst (sl ! index) = fst (sl ! (index - 1))
           then consolidate_loop sl (index + 1) offset (accum + snd (sl ! index))
           else if accum \<noteq> 0
           then (let sl' = put_run offset (index - 1) accum sl
                 in consolidate_loop sl' (index + 1) (offset + 1) (snd (sl' ! index)))
           else consolidate_loop sl (index + 1) offset (snd (sl ! index))
      else if accum \<noteq> 0 then (put_run offset (length sl - 1) accum sl, offset + 1)
      else (sl, offset))"
  by pat_completeness auto

termination
  by (relation "measure (\<lambda>(sl, index, offset, accum). length sl - index)") (auto simp: Let_def)

declare consolidate_loop.simps [simp del]

definition consolidate_slice_slow ::
    "(('k, 'r::comm_monoid_add) weighted \<Rightarrow> ('k, 'r) weighted) \<Rightarrow> ('k, 'r) weighted \<Rightarrow> ('k, 'r) weighted \<times> nat" where
  "consolidate_slice_slow srt sl = (let sl' = srt sl in consolidate_loop sl' 1 0 (snd (sl' ! 0)))"

definition consolidate_slice ::
    "(('k, 'r::comm_monoid_add) weighted \<Rightarrow> ('k, 'r) weighted) \<Rightarrow> ('k, 'r) weighted \<Rightarrow> ('k, 'r) weighted \<times> nat" where
  "consolidate_slice srt sl =
     (if length sl > 1 then consolidate_slice_slow srt sl
      else (sl, length (filter (\<lambda>x. snd x \<noteq> 0) sl)))"

definition consolidate_from ::
    "(('k, 'r::comm_monoid_add) weighted \<Rightarrow> ('k, 'r) weighted) \<Rightarrow> ('k, 'r) weighted \<Rightarrow> nat \<Rightarrow> (('k, 'r) weighted, 'e) result" where
  "consolidate_from srt vec offset =
     (if offset > length vec then Panic
      else case consolidate_slice srt (drop offset vec) of
        (sl, n) \<Rightarrow> Ok (take (offset + n) (take offset vec @ sl)))"

definition consolidate :: "('k::linorder, 'r::comm_monoid_add) weighted \<Rightarrow> (('k, 'r) weighted, 'e) result" where
  "consolidate vec = consolidate_from (sort_key fst) vec 0"

definition consolidate_updates ::
    "((('d \<times> 't), 'r::comm_monoid_add) weighted \<Rightarrow> (('d \<times> 't), 'r) weighted) \<Rightarrow> (('d \<times> 't), 'r) weighted
       \<Rightarrow> ((('d \<times> 't), 'r) weighted, 'e) result" where
  "consolidate_updates srt vec = consolidate_from srt vec 0"

subsection \<open>The reference\<close>

definition weight :: "('k, 'r::comm_monoid_add) weighted \<Rightarrow> 'k \<Rightarrow> 'r" where
  "weight vec k = (\<Sum>x\<leftarrow>filter (\<lambda>x. fst x = k) vec. snd x)"

definition consolidated :: "('k::linorder, 'r::comm_monoid_add) weighted \<Rightarrow> ('k, 'r) weighted" where
  "consolidated vec =
     map (\<lambda>k. (k, weight vec k)) (filter (\<lambda>k. weight vec k \<noteq> 0) (sorted_list_of_set (fst ` set vec)))"

text \<open>The loop of \<^verbatim>\<open>consolidate_into\<close>: the runs of a list, with the key and the weight of the current one.\<close>

fun squash :: "'k \<Rightarrow> 'r::comm_monoid_add \<Rightarrow> ('k, 'r) weighted \<Rightarrow> ('k, 'r) weighted" where
  "squash k accum [] = (if accum \<noteq> 0 then [(k, accum)] else [])"
| "squash k accum (x # xs) =
     (if fst x = k then squash k (accum + snd x) xs
      else (if accum \<noteq> 0 then [(k, accum)] else []) @ squash (fst x) (snd x) xs)"

definition consolidate_into ::
    "('k::linorder, 'r::comm_monoid_add) weighted \<Rightarrow> ('k, 'r) weighted \<Rightarrow> ('k, 'r) weighted" where
  "consolidate_into items target =
     (case sort_key fst items of [] \<Rightarrow> target | x # xs \<Rightarrow> target @ squash (fst x) (snd x) xs)"

lemma put_run_spec:
  assumes "offset \<le> at" "at < length sl"
  shows "take (Suc offset) (put_run offset at accum sl) = take offset sl @ [(fst (sl ! at), accum)]"
    and "at < i \<Longrightarrow> i < length sl \<Longrightarrow> put_run offset at accum sl ! i = sl ! i"
    and "drop (Suc at) (put_run offset at accum sl) = drop (Suc at) sl"
  using assms
  by (auto simp: put_run_def slice_swap_def Let_def take_Suc_conv_app_nth nth_list_update)

lemma consolidate_loop_spec:
  assumes "offset < index" "index \<le> length sl"
  shows "\<exists>sl' n. consolidate_loop sl index offset accum = (sl', n) \<and> length sl' = length sl \<and> n \<le> length sl
    \<and> take n sl' = take offset sl @ squash (fst (sl ! (index - 1))) accum (drop index sl)"
  using assms
proof (induction sl index offset accum rule: consolidate_loop.induct)
  case (1 sl index offset accum)
  have at: "offset \<le> index - 1" "index - 1 < length sl" "Suc (index - 1) = index" using 1(4,5) by simp_all
  show ?case
  proof (cases "index < length sl")
    case True
    then have rest: "drop index sl = sl ! index # drop (Suc index) sl" by (simp add: Cons_nth_drop_Suc)
    consider (same) "fst (sl ! index) = fst (sl ! (index - 1))"
      | (flush) "fst (sl ! index) \<noteq> fst (sl ! (index - 1))" "accum \<noteq> 0"
      | (drop) "fst (sl ! index) \<noteq> fst (sl ! (index - 1))" "accum = 0" by blast
    then show ?thesis
    proof cases
      case same
      then show ?thesis using 1(1) [OF True same] True 1(4,5) by (subst consolidate_loop.simps) (simp add: rest)
    next
      case flush
      let ?s = "put_run offset (index - 1) accum sl"
      note P = put_run_spec [OF at(1,2), where accum = accum]
      have nth: "?s ! index = sl ! index" using P(2) [of index] True at by simp
      have "drop (Suc index) ?s = drop (Suc index) sl"
        using P(3) unfolding at(3) by (metis drop_Suc drop_drop tl_drop)
      then show ?thesis
        using 1(2) [OF True flush refl] True 1(4) flush P(1) nth
        by (subst consolidate_loop.simps) (simp add: rest Let_def)
    next
      case drop
      then show ?thesis using 1(3) [OF True drop(1)] True 1(4,5) by (subst consolidate_loop.simps) (simp add: rest)
    qed
  next
    case False
    then have "index = length sl" using 1(5) by simp
    then show ?thesis
      using put_run_spec(1) [OF at(1,2), where accum = accum] at 1(4)
      by (subst consolidate_loop.simps) auto
  qed
qed

lemma weight_Cons: "weight (x # xs) k = (if fst x = k then snd x + weight xs k else weight xs k)"
  by (simp add: weight_def)

lemma weight_merge: "weight ((k, a) # (k, b) # xs) = weight ((k, a + b) # xs)"
  by (rule ext) (simp add: weight_Cons add.assoc)

lemma weight_absent: "k \<notin> fst ` set xs \<Longrightarrow> weight xs k = 0"
  by (induction xs) (auto simp: weight_def)

lemma weight_mset: "mset xs = mset ys \<Longrightarrow> weight xs = weight ys"
proof
  assume eq: "mset xs = mset ys"
  have "weight zs k = sum_mset (image_mset snd (filter_mset (\<lambda>x. fst x = k) (mset zs)))" for zs :: "('a, 'b) weighted" and k
    unfolding weight_def by (simp flip: sum_mset_sum_list)
  then show "weight xs k = weight ys k" for k by (simp only: eq)
qed

lemma squash_spec:
  assumes "sorted (k # map fst xs)"
  shows "sorted_wrt (<) (map fst (squash k a xs)) \<and> (\<forall>y \<in> set (squash k a xs). k \<le> fst y)
    \<and> set (squash k a xs) = {(j, weight ((k, a) # xs) j) |j. j \<in> insert k (fst ` set xs) \<and> weight ((k, a) # xs) j \<noteq> 0}"
  using assms
proof (induction xs arbitrary: k a)
  case Nil
  then show ?case by (auto simp: weight_def)
next
  case (Cons x xs)
  obtain k' b where x: "x = (k', b)" by (cases x)
  show ?case
  proof (cases "k' = k")
    case True
    have "sorted (k # map fst xs)" using Cons.prems x True by simp
    from Cons.IH [OF this, of "a + b"] show ?thesis
      by (simp add: x True weight_merge insert_absorb2)
  next
    case False
    have kk: "k < k'" "\<forall>y \<in> set xs. k' \<le> fst y" and "sorted (k' # map fst xs)" using Cons.prems x False by auto
    note IH = Cons.IH [OF this(3), of b]
    have absent: "k \<notin> insert k' (fst ` set xs)" using kk by fastforce
    then have wk: "weight ((k, a) # x # xs) k = a" using weight_absent [of k "x # xs"] by (simp add: x weight_Cons)
    have wj: "j \<noteq> k \<Longrightarrow> weight ((k, a) # x # xs) j = weight ((k', b) # xs) j" for j by (simp add: x weight_Cons)
    have set: "{(j, weight ((k, a) # x # xs) j) |j. j \<in> insert k (fst ` set (x # xs)) \<and> weight ((k, a) # x # xs) j \<noteq> 0}
      = (if a \<noteq> 0 then {(k, a)} else {})
        \<union> {(j, weight ((k', b) # xs) j) |j. j \<in> insert k' (fst ` set xs) \<and> weight ((k', b) # xs) j \<noteq> 0}"
      (is "?A = ?B")
    proof
      show "?A \<subseteq> ?B"
      proof
        fix y assume "y \<in> ?A"
        then obtain j where j: "y = (j, weight ((k, a) # x # xs) j)" "j \<in> insert k (fst ` set (x # xs))" "weight ((k, a) # x # xs) j \<noteq> 0" by blast
        show "y \<in> ?B"
        proof (cases "j = k")
          case True
          then show ?thesis using j(1,3) unfolding True wk by simp
        next
          case False
          then have "j \<in> insert k' (fst ` set xs)" using j(2) by (simp add: x)
          then show ?thesis using j(1,3) unfolding wj [OF False] by blast
        qed
      qed
      show "?B \<subseteq> ?A"
      proof
        fix y assume "y \<in> ?B"
        then consider "a \<noteq> 0" "y = (k, a)"
          | j where "y = (j, weight ((k', b) # xs) j)" "j \<in> insert k' (fst ` set xs)" "weight ((k', b) # xs) j \<noteq> 0"
          by (auto split: if_splits)
        then show "y \<in> ?A"
        proof cases
          case 1
          then show ?thesis using wk by (intro CollectI exI [of _ k]) simp
        next
          case (2 j)
          then have "j \<noteq> k" using absent by blast
          then show ?thesis using 2 unfolding wj [OF \<open>j \<noteq> k\<close>, symmetric] by (intro CollectI exI [of _ j]) (auto simp: x)
        qed
      qed
    qed
    have sq: "squash k a (x # xs) = (if a \<noteq> 0 then [(k, a)] else []) @ squash k' b xs" using False by (simp add: x)
    have above: "\<forall>y \<in> set (squash k' b xs). k < fst y" using IH kk(1) by fastforce
    show ?thesis
      unfolding set sq using IH above by (auto simp: less_imp_le)
  qed
qed

text \<open>What the sort has to do.\<close>

locale key_sort =
  fixes srt :: "('k::linorder, 'r::comm_monoid_add) weighted \<Rightarrow> ('k, 'r) weighted"
  assumes srt_sorted: "sorted (map fst (srt xs))"
    and srt_mset: "mset (srt xs) = mset xs"
begin

lemma srt_length: "length (srt xs) = length xs"
  using srt_mset by (metis size_mset)

lemma srt_set: "set (srt xs) = set xs"
  using srt_mset by (metis set_mset_mset)

lemma squash_consolidated:
  assumes sl: "srt vec = x # xs"
  shows "squash (fst x) (snd x) xs = consolidated vec"
proof (rule map_sorted_distinct_set_unique [where f = fst])
  have "sorted (fst x # map fst xs)" using srt_sorted [of vec] by (simp add: sl)
  note Q = squash_spec [OF this, of "snd x"]
  have w: "weight ((fst x, snd x) # xs) = weight vec"
    using weight_mset [OF srt_mset [of vec]] by (simp add: sl)
  have keys: "insert (fst x) (fst ` set xs) = fst ` set vec"
    using srt_set [of vec] by (simp add: sl flip: image_insert)
  have set: "set (consolidated vec) = {(j, weight vec j) |j. j \<in> fst ` set vec \<and> weight vec j \<noteq> 0}"
    by (auto simp: consolidated_def)
  show "set (squash (fst x) (snd x) xs) = set (consolidated vec)" using Q unfolding w keys set by blast
  show "inj_on fst (set (squash (fst x) (snd x) xs) \<union> set (consolidated vec))"
    using Q unfolding w keys set by (auto intro!: inj_onI)
  show "sorted (map fst (squash (fst x) (snd x) xs))" "distinct (map fst (squash (fst x) (snd x) xs))"
    using Q by (simp_all add: strict_sorted_iff)
  have "map fst (consolidated vec) = filter (\<lambda>k. weight vec k \<noteq> 0) (sorted_list_of_set (fst ` set vec))"
    by (simp add: consolidated_def comp_def)
  then show "sorted (map fst (consolidated vec))" "distinct (map fst (consolidated vec))"
    by (simp_all add: sorted_filter [where f = id, simplified])
qed

lemma consolidate_slice_spec: "\<exists>sl' n. consolidate_slice srt vec = (sl', n) \<and> take n sl' = consolidated vec"
proof (cases "length vec > 1")
  case True
  define sl where "sl = srt vec"
  have len: "length sl = length vec" by (simp add: sl_def srt_length)
  then obtain x xs where sl: "sl = x # xs" using True by (cases sl) auto
  obtain sl' n where loop: "consolidate_loop sl 1 0 (snd (sl ! 0)) = (sl', n)"
    and out: "take n sl' = squash (fst x) (snd x) xs"
    using consolidate_loop_spec [of 0 1 sl "snd (sl ! 0)"] True len by (auto simp: sl)
  have "squash (fst x) (snd x) xs = consolidated vec" using squash_consolidated sl by (simp add: sl_def)
  then show ?thesis using loop out True by (simp add: consolidate_slice_def consolidate_slice_slow_def sl_def Let_def)
next
  case False
  then consider "vec = []" | x where "vec = [x]" by (cases vec rule: remdups_adj.cases) auto
  then show ?thesis
    by cases (auto simp: consolidate_slice_def consolidated_def weight_def)
qed

lemma consolidate_from_spec:
  "offset \<le> length vec \<Longrightarrow> consolidate_from srt vec offset = Ok (take offset vec @ consolidated (drop offset vec))"
  using consolidate_slice_spec [of "drop offset vec"] by (auto simp: consolidate_from_def)

end

interpretation stable: key_sort "sort_key fst"
  by unfold_locales simp_all

lemma consolidate_into_spec: "consolidate_into items target = target @ consolidated items"
proof (cases "sort_key fst items")
  case Nil
  then have "items = []" using stable.srt_mset [of items] by simp
  then show ?thesis by (simp add: consolidate_into_def consolidated_def)
next
  case (Cons x xs)
  then show ?thesis by (simp add: consolidate_into_def stable.squash_consolidated)
qed

text \<open>C12: The three consolidation routines compute the same list, whatever order an unstable sort gives to
  records with equal keys: every key once, in ascending order, with the sum of its weights, and without
  the keys whose weights cancel.  The two routines that work in place return it as the prefix they keep,
  and the third appends it to its target.\<close>
theorem consolidation_equivalence:
  assumes "key_sort srt"
  shows "consolidate vec = Ok (consolidated vec)
    \<and> consolidate_updates srt vec = Ok (consolidated vec)
    \<and> consolidate_into vec target = target @ consolidated vec"
  using key_sort.consolidate_from_spec [OF assms, of 0 vec] stable.consolidate_from_spec [of 0 vec]
  by (simp add: consolidate_def consolidate_updates_def consolidate_into_spec)

theorem consolidation_equivalence_witness:
  "key_sort (sort_key fst :: ((nat \<times> nat) \<times> int) list \<Rightarrow> _)
   \<and> consolidate_updates (sort_key fst) [((2, 1), 1), ((1, 1), 3), ((2, 1), - 1), ((1, 1), 2 :: int)]
     = (Ok [((1 :: nat, 1 :: nat), 5)] :: (_, unit) result)"
proof -
  have "consolidated [((2 :: nat, 1 :: nat), 1), ((1, 1), 3), ((2, 1), - 1), ((1, 1), 2 :: int)] = [((1, 1), 5)]"
    by (simp add: consolidated_def weight_def insert_commute)
  then show ?thesis
    by (simp only: consolidation_equivalence [OF stable.key_sort_axioms, THEN conjunct2, THEN conjunct1]
        stable.key_sort_axioms simp_thms)
qed

section \<open>Timestamps\<close>

text \<open>\<^verbatim>\<open>LsnSummary\<close>: advancing a position by an amount, with overflow.\<close>

definition checked_add_u64 :: "u64 \<Rightarrow> u64 \<Rightarrow> u64 option" where
  "checked_add_u64 a b = (if unat a + unat b < 2 ^ 64 then Some (a + b) else None)"

definition results_in :: "u64 \<Rightarrow> lsn \<Rightarrow> lsn option" where
  "results_in summary src = checked_add_u64 src summary"

definition followed_by :: "u64 \<Rightarrow> u64 \<Rightarrow> u64 option" where
  "followed_by summary other = checked_add_u64 summary other"

definition lsn_join :: "lsn \<Rightarrow> lsn \<Rightarrow> lsn" where
  "lsn_join a b = max a b"

definition lsn_meet :: "lsn \<Rightarrow> lsn \<Rightarrow> lsn" where
  "lsn_meet a b = min a b"

lemma unat_checked_add: "checked_add_u64 a b = Some c \<Longrightarrow> unat c = unat a + unat b"
  by (auto simp: checked_add_u64_def unat_word_ariths split: if_splits)

lemma followed_by_composes:
  "Option.bind (results_in a src) (results_in b) = Option.bind (followed_by a b) (\<lambda>s. results_in s src)"
proof -
  have u: "unat x + unat y < 2 ^ 64 \<Longrightarrow> unat (x + y) = unat x + unat y" for x y :: u64
    by (simp add: unat_word_ariths)
  show ?thesis
    by (auto simp: results_in_def followed_by_def checked_add_u64_def u add.assoc)
qed

section \<open>Transactions from WAL events\<close>

record pending_row =
  pr_table :: table_id
  pr_op :: row_op
  pr_old :: "row option"
  pr_new :: "row option"

record wal_source_state =
  ws_transaction_xid :: "u32 option"
  ws_pending :: "pending_row list"

record wal_transaction =
  wt_xid :: "u32 option"
  wt_begin_lsn :: "lsn option"
  wt_commit_lsn :: lsn
  wt_end_lsn :: lsn
  wt_updates :: "wal_update list"

definition wal_source_new :: wal_source_state where
  "wal_source_new = \<lparr>ws_transaction_xid = None, ws_pending = []\<rparr>"

definition mk_update :: "table_id \<Rightarrow> lsn \<Rightarrow> i64 \<Rightarrow> row option \<Rightarrow> wal_update list" where
  "mk_update table time diff img =
     (case img of None \<Rightarrow> [] | Some r \<Rightarrow> [\<lparr>wu_table = table, wu_row = r, wu_time = time, wu_diff = diff\<rparr>])"

definition row_updates :: "lsn \<Rightarrow> pending_row \<Rightarrow> wal_update list" where
  "row_updates time p =
     (case pr_op p of
        Insert \<Rightarrow> mk_update (pr_table p) time 1 (pr_new p)
      | Update \<Rightarrow> mk_update (pr_table p) time (- 1) (pr_old p) @ mk_update (pr_table p) time 1 (pr_new p)
      | Delete \<Rightarrow> mk_update (pr_table p) time (- 1) (pr_old p))"

definition drain_pending :: "lsn \<Rightarrow> wal_source_state \<Rightarrow> wal_update list \<times> wal_source_state" where
  "drain_pending time st = (concat (map (row_updates time) (ws_pending st)), st\<lparr>ws_pending := []\<rparr>)"

definition finish_transaction :: "u32 option \<Rightarrow> lsn \<Rightarrow> lsn \<Rightarrow> wal_source_state \<Rightarrow> wal_transaction option \<times> wal_source_state" where
  "finish_transaction xid commit end_lsn st =
     (case drain_pending commit st of (updates, st') \<Rightarrow>
        (Some \<lparr>wt_xid = xid, wt_begin_lsn = None, wt_commit_lsn = commit, wt_end_lsn = end_lsn, wt_updates = updates\<rparr>,
         st'\<lparr>ws_transaction_xid := None\<rparr>))"

fun apply_transaction_event :: "decoded_event \<Rightarrow> wal_source_state \<Rightarrow> wal_transaction option \<times> wal_source_state" where
  "apply_transaction_event (EvBegin xid _) st = (None, st\<lparr>ws_transaction_xid := Some xid\<rparr>)"
| "apply_transaction_event (EvRow table op old new) st =
     (None, st\<lparr>ws_pending := ws_pending st @ [\<lparr>pr_table = table, pr_op = op, pr_old = old, pr_new = new\<rparr>]\<rparr>)"
| "apply_transaction_event (EvCommit commit end_lsn) st = finish_transaction (ws_transaction_xid st) commit end_lsn st"
| "apply_transaction_event (EvStream (StreamCommit xid commit end_lsn)) st =
     finish_transaction (case ws_transaction_xid st of None \<Rightarrow> Some xid | Some x \<Rightarrow> Some x) commit end_lsn st"
| "apply_transaction_event (EvStream (StreamStart xid _)) st = (None, st\<lparr>ws_transaction_xid := Some xid\<rparr>)"
| "apply_transaction_event (EvStream (StreamAbort _ _)) st = (None, \<lparr>ws_transaction_xid = None, ws_pending = []\<rparr>)"
| "apply_transaction_event _ st = (None, st)"

fun apply_events :: "decoded_event list \<Rightarrow> wal_source_state \<Rightarrow> wal_transaction list \<times> wal_source_state" where
  "apply_events [] st = ([], st)"
| "apply_events (e # es) st =
     (let (t, st') = apply_transaction_event e st; (ts, st'') = apply_events es st'
      in ((case t of None \<Rightarrow> [] | Some x \<Rightarrow> [x]) @ ts, st''))"

text \<open>Events that carry no row and no transaction boundary.\<close>

fun passive_event :: "decoded_event \<Rightarrow> bool" where
  "passive_event (EvBegin _ _) = False"
| "passive_event (EvRow _ _ _ _) = False"
| "passive_event (EvCommit _ _) = False"
| "passive_event (EvStream a) = (a = StreamStop)"
| "passive_event _ = True"

lemma apply_passive: "passive_event e \<Longrightarrow> apply_transaction_event e st = (None, st)"
  by (induction e rule: passive_event.induct) auto

lemma apply_events_append:
  "apply_events (es @ fs) st =
     (let (ts, st') = apply_events es st; (us, st'') = apply_events fs st' in (ts @ us, st''))"
  by (induction es arbitrary: st) (auto simp: Let_def split: prod.split)

text \<open>The rows an event list carries.\<close>

fun event_rows :: "decoded_event list \<Rightarrow> pending_row list" where
  "event_rows [] = []"
| "event_rows (EvRow table op old new # es) = \<lparr>pr_table = table, pr_op = op, pr_old = old, pr_new = new\<rparr> # event_rows es"
| "event_rows (e # es) = event_rows es"

fun carries_row :: "decoded_event \<Rightarrow> bool" where
  "carries_row (EvRow _ _ _ _) = True"
| "carries_row _ = False"

lemma apply_body:
  "list_all (\<lambda>e. passive_event e \<or> carries_row e) body \<Longrightarrow>
     apply_events body st = ([], st\<lparr>ws_pending := ws_pending st @ event_rows body\<rparr>)"
proof (induction body arbitrary: st)
  case (Cons e body)
  show ?case
  proof (cases "carries_row e")
    case True
    then show ?thesis using Cons by (cases e) auto
  next
    case False
    then have "apply_transaction_event e st = (None, st)" "event_rows (e # body) = event_rows body"
      using Cons.prems apply_passive by (auto, cases e) auto
    then show ?thesis using Cons by simp
  qed
qed simp

text \<open>A transaction on the wire: a begin, a body and a commit, or the segments of a streamed transaction and
  their commit.\<close>

record wire_transaction =
  wx_xid :: u32
  wx_begin :: lsn
  wx_streamed :: bool
  wx_segments :: "(bool \<times> decoded_event list) list"
  wx_commit :: lsn
  wx_end :: lsn

definition segment_events :: "u32 \<Rightarrow> bool \<times> decoded_event list \<Rightarrow> decoded_event list" where
  "segment_events xid seg = EvStream (StreamStart xid (fst seg)) # snd seg @ [EvStream StreamStop]"

definition wire_events :: "wire_transaction \<Rightarrow> decoded_event list" where
  "wire_events x =
     (if wx_streamed x
      then concat (map (segment_events (wx_xid x)) (wx_segments x)) @ [EvStream (StreamCommit (wx_xid x) (wx_commit x) (wx_end x))]
      else EvBegin (wx_xid x) (wx_begin x) # concat (map snd (wx_segments x)) @ [EvCommit (wx_commit x) (wx_end x)])"

definition wire_ok :: "wire_transaction \<Rightarrow> bool" where
  "wire_ok x = list_all (\<lambda>seg. list_all (\<lambda>e. passive_event e \<or> carries_row e) (snd seg)) (wx_segments x)"

definition assembled :: "wire_transaction \<Rightarrow> wal_transaction" where
  "assembled x = \<lparr>wt_xid = Some (wx_xid x), wt_begin_lsn = None, wt_commit_lsn = wx_commit x, wt_end_lsn = wx_end x,
     wt_updates = concat (map (row_updates (wx_commit x)) (event_rows (concat (map snd (wx_segments x)))))\<rparr>"

lemma event_rows_append [simp]: "event_rows (es @ fs) = event_rows es @ event_rows fs"
  by (induction es rule: event_rows.induct) auto

lemma wire_ok_body: "wire_ok x \<Longrightarrow> list_all (\<lambda>e. passive_event e \<or> carries_row e) (concat (map snd (wx_segments x)))"
  by (auto simp: wire_ok_def list_all_iff)

lemma apply_segments:
  "list_all (\<lambda>seg. list_all (\<lambda>e. passive_event e \<or> carries_row e) (snd seg)) segs \<Longrightarrow>
     apply_events (concat (map (segment_events xid) segs)) st
     = ([], \<lparr>ws_transaction_xid = (if segs = [] then ws_transaction_xid st else Some xid),
             ws_pending = ws_pending st @ event_rows (concat (map snd segs))\<rparr>)"
  by (induction segs arbitrary: st) (simp_all add: segment_events_def apply_events_append apply_body)

lemma apply_wire_transaction:
  assumes "wire_ok x"
  shows "apply_events (wire_events x) wal_source_new = ([assembled x], wal_source_new)"
proof (cases "wx_streamed x")
  case True
  show ?thesis using assms
    by (simp add: True wire_events_def apply_events_append apply_segments [OF assms [unfolded wire_ok_def]]
        finish_transaction_def drain_pending_def assembled_def wal_source_new_def)
next
  case False
  show ?thesis
    by (simp add: False wire_events_def apply_events_append apply_body [OF wire_ok_body [OF assms]]
        finish_transaction_def drain_pending_def assembled_def wal_source_new_def)
qed

text \<open>C21: The events of transactions that follow one another, each either plain or streamed in any number of
  segments, are assembled into exactly those transactions in order.  Each has its own transaction id,
  commit and end position, and the updates of its own rows in order with the commit position as time;
  nothing is left pending.  Other events in between change nothing.\<close>
theorem wal_transactions_assembled:
  assumes "list_all wire_ok xs"
  shows "apply_events (concat (map wire_events xs)) wal_source_new = (map assembled xs, wal_source_new)"
  using assms by (induction xs) (simp_all add: apply_events_append apply_wire_transaction)

theorem wal_transactions_assembled_witness:
  "apply_events (concat (map wire_events
      [\<lparr>wx_xid = 7, wx_begin = 10, wx_streamed = False, wx_segments = [(True, [EvRow 1 Update (Some [DI64 1]) (Some [DI64 2])])],
        wx_commit = 20, wx_end = 21\<rparr>,
       \<lparr>wx_xid = 8, wx_begin = 0, wx_streamed = True,
        wx_segments = [(True, [EvRow 1 Insert None (Some [DI64 3])]), (False, [EvRow 1 Delete (Some [DI64 2]) None])],
        wx_commit = 30, wx_end = 31\<rparr>])) wal_source_new
   = ([\<lparr>wt_xid = Some 7, wt_begin_lsn = None, wt_commit_lsn = 20, wt_end_lsn = 21,
        wt_updates = [\<lparr>wu_table = 1, wu_row = [DI64 1], wu_time = 20, wu_diff = - 1\<rparr>,
                      \<lparr>wu_table = 1, wu_row = [DI64 2], wu_time = 20, wu_diff = 1\<rparr>]\<rparr>,
       \<lparr>wt_xid = Some 8, wt_begin_lsn = None, wt_commit_lsn = 30, wt_end_lsn = 31,
        wt_updates = [\<lparr>wu_table = 1, wu_row = [DI64 3], wu_time = 30, wu_diff = 1\<rparr>,
                      \<lparr>wu_table = 1, wu_row = [DI64 2], wu_time = 30, wu_diff = - 1\<rparr>]\<rparr>], wal_source_new)"
  by (subst wal_transactions_assembled)
    (simp_all add: wire_ok_def assembled_def row_updates_def mk_update_def)

text \<open>Streamed transactions may interleave on the wire.  The pending rows are not kept per transaction: the
  first commit carries the rows of the others, and the abort of any subtransaction discards all rows.\<close>

lemma interleaved_streams_merge:
  "fst (apply_events
      [EvStream (StreamStart 1 True), EvRow t Insert None (Some a), EvStream StreamStop,
       EvStream (StreamStart 2 True), EvRow t Insert None (Some b), EvStream StreamStop,
       EvStream (StreamCommit 2 commit end_lsn)] wal_source_new)
   = [\<lparr>wt_xid = Some 2, wt_begin_lsn = None, wt_commit_lsn = commit, wt_end_lsn = end_lsn,
       wt_updates = [\<lparr>wu_table = t, wu_row = a, wu_time = commit, wu_diff = 1\<rparr>,
                     \<lparr>wu_table = t, wu_row = b, wu_time = commit, wu_diff = 1\<rparr>]\<rparr>]"
  by (simp add: wal_source_new_def finish_transaction_def drain_pending_def row_updates_def mk_update_def)

lemma subtransaction_abort_discards:
  "fst (apply_events
      [EvStream (StreamStart 1 True), EvRow t Insert None (Some a), EvStream StreamStop,
       EvStream (StreamAbort 1 5), EvStream (StreamCommit 1 commit end_lsn)] wal_source_new)
   = [\<lparr>wt_xid = Some 1, wt_begin_lsn = None, wt_commit_lsn = commit, wt_end_lsn = end_lsn, wt_updates = []\<rparr>]"
  by (simp add: wal_source_new_def finish_transaction_def drain_pending_def)

section \<open>TOAST values\<close>

record column_location =
  cl_table :: table_id
  cl_column :: nat

datatype toast_outcome = Cached datum | PointSelect datum | ToastMissing

fun into_datum :: "toast_outcome \<Rightarrow> datum option" where
  "into_datum (Cached v) = Some v"
| "into_datum (PointSelect v) = Some v"
| "into_datum ToastMissing = None"

type_synonym arrangement_cache = "(table_id \<times> string, row) btree"

definition arrangement_get :: "column_location \<Rightarrow> string \<Rightarrow> arrangement_cache \<Rightarrow> datum option" where
  "arrangement_get loc k c =
     (case map_of c (cl_table loc, k) of
        None \<Rightarrow> None
      | Some r \<Rightarrow> if cl_column loc < length r then Some (r ! cl_column loc) else None)"

record toast_resolver =
  tr_cache :: arrangement_cache
  tr_cached_hits :: u64
  tr_point_select_hits :: u64
  tr_misses :: u64

definition resolver_new :: toast_resolver where
  "resolver_new = \<lparr>tr_cache = [], tr_cached_hits = 0, tr_point_select_hits = 0, tr_misses = 0\<rparr>"

definition toast_resolve ::
    "(column_location \<Rightarrow> string \<Rightarrow> datum option) \<Rightarrow> column_location \<Rightarrow> string \<Rightarrow> toast_resolver \<Rightarrow> toast_outcome \<times> toast_resolver" where
  "toast_resolve point_select loc k t =
     (case arrangement_get loc k (tr_cache t) of
        Some v \<Rightarrow> (Cached v, t\<lparr>tr_cached_hits := sat_add (tr_cached_hits t) 1\<rparr>)
      | None \<Rightarrow>
          (case point_select loc k of
             Some v \<Rightarrow> (PointSelect v, t\<lparr>tr_point_select_hits := sat_add (tr_point_select_hits t) 1\<rparr>)
           | None \<Rightarrow> (ToastMissing, t\<lparr>tr_misses := sat_add (tr_misses t) 1\<rparr>)))"

definition record_row :: "table_id \<Rightarrow> string \<Rightarrow> row \<Rightarrow> toast_resolver \<Rightarrow> toast_resolver" where
  "record_row table k r t = t\<lparr>tr_cache := bt_insert (table, k) r (tr_cache t)\<rparr>"

definition forget_row :: "table_id \<Rightarrow> string \<Rightarrow> toast_resolver \<Rightarrow> toast_resolver" where
  "forget_row table k t = t\<lparr>tr_cache := bt_remove (table, k) (tr_cache t)\<rparr>"

lemma recorded_row_cached:
  assumes "bt_invar (tr_cache t)" "c < length r"
  shows "fst (toast_resolve ps \<lparr>cl_table = table, cl_column = c\<rparr> k (record_row table k r t)) = Cached (r ! c)"
  using assms by (simp add: toast_resolve_def record_row_def arrangement_get_def map_of_bt_insert)

lemma forgotten_row_selected:
  assumes "bt_invar (tr_cache t)"
  shows "into_datum (fst (toast_resolve ps \<lparr>cl_table = table, cl_column = c\<rparr> k (forget_row table k t)))
    = ps \<lparr>cl_table = table, cl_column = c\<rparr> k"
  using assms by (simp add: toast_resolve_def forget_row_def arrangement_get_def map_of_bt_remove split: option.split)

section \<open>Keys of a partial materialization\<close>

datatype key_status = Materialized | Pending | KeyMissing

datatype 'k lookup_outcome = Hit 'k | Upquery 'k | AlreadyPending 'k

text \<open>The waiter counts are natural numbers: each counts calls that have happened.\<close>

record 'k materialized_keys =
  mk_materialized :: "'k set"
  mk_pending :: "'k set"
  mk_waiters :: "('k, nat) btree"

definition keys_new :: "'k materialized_keys" where
  "keys_new = \<lparr>mk_materialized = {}, mk_pending = {}, mk_waiters = []\<rparr>"

definition key_status_of :: "'k \<Rightarrow> 'k materialized_keys \<Rightarrow> key_status" where
  "key_status_of k t =
     (if k \<in> mk_materialized t then Materialized else if k \<in> mk_pending t then Pending else KeyMissing)"

definition key_waiters :: "'k \<Rightarrow> 'k materialized_keys \<Rightarrow> nat" where
  "key_waiters k t = (case map_of (mk_waiters t) k of None \<Rightarrow> 0 | Some n \<Rightarrow> n)"

definition key_lookup :: "'k::linorder \<Rightarrow> 'k materialized_keys \<Rightarrow> 'k lookup_outcome \<times> 'k materialized_keys" where
  "key_lookup k t =
     (if k \<in> mk_materialized t then (Hit k, t)
      else if k \<in> mk_pending t
      then (AlreadyPending k, t\<lparr>mk_waiters := bt_insert k (key_waiters k t + 1) (mk_waiters t)\<rparr>)
      else (Upquery k, t\<lparr>mk_pending := insert k (mk_pending t), mk_waiters := bt_insert k 1 (mk_waiters t)\<rparr>))"

definition mark_materialized :: "'k::linorder \<Rightarrow> 'k materialized_keys \<Rightarrow> nat \<times> 'k materialized_keys" where
  "mark_materialized k t =
     (key_waiters k t,
      t\<lparr>mk_waiters := bt_remove k (mk_waiters t), mk_pending := mk_pending t - {k},
        mk_materialized := insert k (mk_materialized t)\<rparr>)"

fun mark_many_materialized :: "'k::linorder list \<Rightarrow> 'k materialized_keys \<Rightarrow> nat \<times> 'k materialized_keys" where
  "mark_many_materialized [] t = (0, t)"
| "mark_many_materialized (k # ks) t =
     (let (n, t') = mark_materialized k t; (m, t'') = mark_many_materialized ks t' in (n + m, t''))"

definition key_forget :: "'k \<Rightarrow> 'k materialized_keys \<Rightarrow> bool \<times> 'k materialized_keys" where
  "key_forget k t = (k \<in> mk_materialized t, t\<lparr>mk_materialized := mk_materialized t - {k}\<rparr>)"

definition fail_pending :: "'k::linorder \<Rightarrow> 'k materialized_keys \<Rightarrow> nat \<times> 'k materialized_keys" where
  "fail_pending k t =
     (key_waiters k t, t\<lparr>mk_waiters := bt_remove k (mk_waiters t), mk_pending := mk_pending t - {k}\<rparr>)"

record 'k batch_lookup =
  bl_hits :: "'k list"
  bl_upqueries :: "'k list"
  bl_already_pending :: "'k list"

fun lookup_batch_loop :: "'k::linorder list \<Rightarrow> 'k batch_lookup \<Rightarrow> 'k materialized_keys \<Rightarrow> 'k batch_lookup \<times> 'k materialized_keys" where
  "lookup_batch_loop [] b t = (b, t)"
| "lookup_batch_loop (k # ks) b t =
     (case key_lookup k t of
        (Hit k', t') \<Rightarrow> lookup_batch_loop ks (b\<lparr>bl_hits := bl_hits b @ [k']\<rparr>) t'
      | (Upquery k', t') \<Rightarrow> lookup_batch_loop ks (b\<lparr>bl_upqueries := bl_upqueries b @ [k']\<rparr>) t'
      | (AlreadyPending k', t') \<Rightarrow> lookup_batch_loop ks (b\<lparr>bl_already_pending := bl_already_pending b @ [k']\<rparr>) t')"

definition lookup_batch :: "'k::linorder list \<Rightarrow> 'k materialized_keys \<Rightarrow> 'k batch_lookup \<times> 'k materialized_keys" where
  "lookup_batch ks t = lookup_batch_loop ks \<lparr>bl_hits = [], bl_upqueries = [], bl_already_pending = []\<rparr> t"

type_synonym 'k materialization_tracker = "(string, 'k materialized_keys) btree"

definition tracker_register ::
    "string \<Rightarrow> 'k materialization_tracker \<Rightarrow> (unit, string) result \<times> 'k materialization_tracker" where
  "tracker_register name m =
     (case map_of m name of None \<Rightarrow> (Ok (), bt_insert name keys_new m) | Some _ \<Rightarrow> (Err name, m))"

definition forget_arrangement ::
    "string \<Rightarrow> 'k materialization_tracker \<Rightarrow> 'k materialized_keys option \<times> 'k materialization_tracker" where
  "forget_arrangement name m = (map_of m name, bt_remove name m)"

subsection \<open>Runs of the tracker\<close>

datatype 'k keys_op = OpLookup 'k | OpBatch "'k list" | OpMark 'k | OpMarkMany "'k list" | OpForget 'k | OpFail 'k

text \<open>What the callers see of a run: the upqueries they must issue, the lookups that were told to wait
  and the waiters they were told to wake.\<close>

record 'k keys_log =
  kl_upqueries :: "'k list"
  kl_blocked :: nat
  kl_woken :: nat

fun log_outcome :: "'k lookup_outcome \<Rightarrow> 'k keys_log \<Rightarrow> 'k keys_log" where
  "log_outcome (Hit k) l = l"
| "log_outcome (Upquery k) l = l\<lparr>kl_upqueries := kl_upqueries l @ [k], kl_blocked := kl_blocked l + 1\<rparr>"
| "log_outcome (AlreadyPending k) l = l\<lparr>kl_blocked := kl_blocked l + 1\<rparr>"

fun keys_step :: "'k::linorder keys_op \<Rightarrow> 'k keys_log \<times> 'k materialized_keys \<Rightarrow> 'k keys_log \<times> 'k materialized_keys" where
  "keys_step (OpLookup k) (l, t) = (case key_lookup k t of (r, t') \<Rightarrow> (log_outcome r l, t'))"
| "keys_step (OpBatch ks) (l, t) =
     (case lookup_batch ks t of (b, t') \<Rightarrow>
        (l\<lparr>kl_upqueries := kl_upqueries l @ bl_upqueries b,
           kl_blocked := kl_blocked l + length (bl_upqueries b) + length (bl_already_pending b)\<rparr>, t'))"
| "keys_step (OpMark k) (l, t) = (case mark_materialized k t of (n, t') \<Rightarrow> (l\<lparr>kl_woken := kl_woken l + n\<rparr>, t'))"
| "keys_step (OpMarkMany ks) (l, t) = (case mark_many_materialized ks t of (n, t') \<Rightarrow> (l\<lparr>kl_woken := kl_woken l + n\<rparr>, t'))"
| "keys_step (OpForget k) (l, t) = (l, snd (key_forget k t))"
| "keys_step (OpFail k) (l, t) = (case fail_pending k t of (n, t') \<Rightarrow> (l\<lparr>kl_woken := kl_woken l + n\<rparr>, t'))"

definition keys_run :: "'k::linorder keys_op list \<Rightarrow> 'k keys_log \<times> 'k materialized_keys" where
  "keys_run ops = fold keys_step ops (\<lparr>kl_upqueries = [], kl_blocked = 0, kl_woken = 0\<rparr>, keys_new)"

fun completions :: "'k \<Rightarrow> 'k keys_op \<Rightarrow> nat" where
  "completions k (OpMark k') = (if k' = k then 1 else 0)"
| "completions k (OpMarkMany ks) = count_list ks k"
| "completions k (OpFail k') = (if k' = k then 1 else 0)"
| "completions k _ = 0"

definition waiting :: "'k materialized_keys \<Rightarrow> nat" where
  "waiting t = sum_list (map snd (mk_waiters t))"

text \<open>No key is both materialized and pending, and the pending keys are exactly those with waiters.\<close>

definition keys_ok :: "'k::linorder materialized_keys \<Rightarrow> bool" where
  "keys_ok t = (bt_invar (mk_waiters t) \<and> mk_materialized t \<inter> mk_pending t = {}
     \<and> fst ` set (mk_waiters t) = mk_pending t \<and> (\<forall>n \<in> snd ` set (mk_waiters t). n > 0))"

text \<open>The accounts of a run: per key the upqueries not yet completed, and over all keys the waiters.\<close>

definition keys_inv :: "('k::linorder \<Rightarrow> nat) \<Rightarrow> 'k keys_log \<times> 'k materialized_keys \<Rightarrow> bool" where
  "keys_inv ended = (\<lambda>(l, t). keys_ok t \<and> kl_woken l + waiting t = kl_blocked l
     \<and> (\<forall>k. count_list (kl_upqueries l) k \<le> ended k + (if k \<in> mk_pending t then 1 else 0)))"

lemma bt_remove_missing: "k \<notin> fst ` set m \<Longrightarrow> bt_remove k m = m"
  by (induction k m rule: bt_remove.induct) auto

lemma fst_bt_remove: "bt_invar m \<Longrightarrow> fst ` set (bt_remove k m) = fst ` set m - {k}"
  by (induction k m rule: bt_remove.induct) auto

lemma snd_bt_insert: "snd ` set (bt_insert k v m) \<subseteq> insert v (snd ` set m)"
  by (induction k v m rule: bt_insert.induct) auto

lemma sum_bt_remove:
  "bt_invar m \<Longrightarrow> (case map_of m k of None \<Rightarrow> 0 | Some n \<Rightarrow> n) + sum_list (map snd (bt_remove k m)) = sum_list (map snd m)"
  for m :: "('k::linorder, nat) btree"
  by (induction k m rule: bt_remove.induct) auto

lemma sum_bt_insert:
  "bt_invar m \<Longrightarrow> sum_list (map snd (bt_insert k v m)) = v + sum_list (map snd (bt_remove k m))"
  for m :: "('k::linorder, nat) btree"
proof (induction k v m rule: bt_insert.induct)
  case (2 k v k' v' m)
  have "k < k' \<Longrightarrow> k \<notin> fst ` set m" using 2 by fastforce
  then show ?case using 2 by (auto simp: bt_remove_missing)
qed simp

lemma waiting_remove:
  "keys_ok t \<Longrightarrow> key_waiters k t + sum_list (map snd (bt_remove k (mk_waiters t))) = waiting t"
  by (simp add: keys_ok_def key_waiters_def waiting_def sum_bt_remove)

lemma waiters_absent: "keys_ok t \<Longrightarrow> k \<notin> mk_pending t \<Longrightarrow> key_waiters k t = 0"
  by (simp add: keys_ok_def key_waiters_def map_of_eq_None_iff [THEN iffD2])

lemma keys_ok_insert:
  assumes "keys_ok t" "k \<notin> mk_materialized t" "n > 0"
  shows "keys_ok (t\<lparr>mk_pending := insert k (mk_pending t), mk_waiters := bt_insert k n (mk_waiters t)\<rparr>)"
proof -
  have old: "m \<in> snd ` set (mk_waiters t) \<Longrightarrow> m > 0" for m using assms(1) unfolding keys_ok_def by blast
  have "m > 0" if "m \<in> snd ` set (bt_insert k n (mk_waiters t))" for m
    using subsetD [OF snd_bt_insert that] old [of m] assms(3) by (elim insertE) simp_all
  then have "\<forall>m \<in> snd ` set (bt_insert k n (mk_waiters t)). m > 0" by blast
  then show ?thesis using assms(1,2) by (simp add: keys_ok_def fst_bt_insert bt_invar_insert)
qed

lemma keys_ok_lookup:
  assumes "keys_ok t"
  shows "keys_ok (snd (key_lookup k t))"
proof (cases "k \<in> mk_pending t")
  case True
  then have "t\<lparr>mk_waiters := w\<rparr> = t\<lparr>mk_pending := insert k (mk_pending t), mk_waiters := w\<rparr>" for w
    by (simp add: insert_absorb)
  then show ?thesis using keys_ok_insert [OF assms, of k "key_waiters k t + 1"] assms by (simp add: key_lookup_def True)
next
  case False
  then show ?thesis using keys_ok_insert [OF assms, of k 1] assms by (simp add: key_lookup_def)
qed

lemma keys_ok_fail:
  assumes "keys_ok t"
  shows "keys_ok (snd (fail_pending k t))"
proof -
  have old: "m \<in> snd ` set (mk_waiters t) \<Longrightarrow> m > 0" for m using assms unfolding keys_ok_def by blast
  have "m > 0" if "m \<in> snd ` set (bt_remove k (mk_waiters t))" for m
    using subsetD [OF image_mono [OF set_bt_remove] that] old by simp
  then have "\<forall>m \<in> snd ` set (bt_remove k (mk_waiters t)). m > 0" by blast
  moreover have "mk_materialized t \<inter> (mk_pending t - {k}) = {}" using assms by (auto simp: keys_ok_def)
  ultimately show ?thesis using assms by (simp add: keys_ok_def fail_pending_def fst_bt_remove bt_invar_remove)
qed

lemma mark_is_fail:
  "mark_materialized k t = (fst (fail_pending k t), (snd (fail_pending k t))\<lparr>mk_materialized := insert k (mk_materialized t)\<rparr>)"
  by (simp add: mark_materialized_def fail_pending_def)

lemma keys_ok_mark: "keys_ok t \<Longrightarrow> keys_ok (snd (mark_materialized k t))"
  using keys_ok_fail [of t k] by (auto simp: mark_is_fail keys_ok_def fail_pending_def)

lemma keys_inv_lookup:
  assumes "keys_inv ended (l, t)"
  shows "keys_inv ended (case key_lookup k t of (r, t') \<Rightarrow> (log_outcome r l, t'))"
proof -
  have ok: "keys_ok t" using assms by (simp add: keys_inv_def)
  have inv: "bt_invar (mk_waiters t)" using ok by (simp add: keys_ok_def)
  note w = waiting_remove [OF ok, of k] waiters_absent [OF ok, of k]
  show ?thesis using assms keys_ok_lookup [OF ok, of k] w
    by (auto simp: keys_inv_def key_lookup_def waiting_def sum_bt_insert [OF inv] split: if_splits)
qed

lemma keys_inv_fail:
  assumes "keys_inv ended (l, t)"
  shows "keys_inv (ended(k := ended k + 1)) (l\<lparr>kl_woken := kl_woken l + fst (fail_pending k t)\<rparr>, snd (fail_pending k t))"
proof -
  have ok: "keys_ok t" using assms by (simp add: keys_inv_def)
  show ?thesis using assms keys_ok_fail [OF ok, of k] waiting_remove [OF ok, of k]
    by (auto simp: keys_inv_def fail_pending_def waiting_def split: if_splits)
qed

lemma keys_inv_mark:
  assumes "keys_inv ended (l, t)"
  shows "keys_inv (ended(k := ended k + 1)) (l\<lparr>kl_woken := kl_woken l + fst (mark_materialized k t)\<rparr>, snd (mark_materialized k t))"
  using keys_inv_fail [OF assms, of k] keys_ok_mark [of t k] assms
  by (auto simp: keys_inv_def mark_is_fail waiting_def)

lemma keys_inv_mark_many:
  "keys_inv ended (l, t) \<Longrightarrow> keys_inv (\<lambda>k. ended k + count_list ks k)
     (l\<lparr>kl_woken := kl_woken l + fst (mark_many_materialized ks t)\<rparr>, snd (mark_many_materialized ks t))"
proof (induction ks arbitrary: ended l t)
  case (Cons k ks)
  obtain n t' where m: "mark_materialized k t = (n, t')" by (cases "mark_materialized k t")
  have eq: "(\<lambda>j. (ended(k := ended k + 1)) j + count_list ks j) = (\<lambda>j. ended j + count_list (k # ks) j)"
    by (auto simp: fun_eq_iff)
  show ?case using Cons.IH [OF keys_inv_mark [OF Cons.prems, of k]] unfolding eq
    by (simp add: m Let_def add.assoc split_beta)
qed simp

lemma lookup_batch_log:
  "(case lookup_batch_loop ks b t of (b', t') \<Rightarrow>
      (l\<lparr>kl_upqueries := kl_upqueries l @ bl_upqueries b',
         kl_blocked := kl_blocked l + length (bl_upqueries b') + length (bl_already_pending b')\<rparr>, t'))
   = fold (\<lambda>k (l, t). case key_lookup k t of (r, t') \<Rightarrow> (log_outcome r l, t')) ks
       (l\<lparr>kl_upqueries := kl_upqueries l @ bl_upqueries b,
          kl_blocked := kl_blocked l + length (bl_upqueries b) + length (bl_already_pending b)\<rparr>, t)"
proof (induction ks arbitrary: b t)
  case (Cons k ks)
  obtain r t' where r: "key_lookup k t = (r, t')" by (cases "key_lookup k t")
  show ?case
  proof (cases r)
    case (Hit k')
    then show ?thesis using Cons.IH [of "b\<lparr>bl_hits := bl_hits b @ [k']\<rparr>" t'] r by simp
  next
    case (Upquery k')
    then show ?thesis using Cons.IH [of "b\<lparr>bl_upqueries := bl_upqueries b @ [k']\<rparr>" t'] r by simp
  next
    case (AlreadyPending k')
    then show ?thesis using Cons.IH [of "b\<lparr>bl_already_pending := bl_already_pending b @ [k']\<rparr>" t'] r by simp
  qed
qed simp

lemma keys_inv_lookups:
  "keys_inv ended lt \<Longrightarrow> keys_inv ended (fold (\<lambda>k (l, t). case key_lookup k t of (r, t') \<Rightarrow> (log_outcome r l, t')) ks lt)"
proof (induction ks arbitrary: lt)
  case (Cons k ks)
  obtain l t where lt: "lt = (l, t)" by (cases lt)
  show ?case using Cons.IH [OF keys_inv_lookup [of ended l t k]] Cons.prems by (simp add: lt)
qed simp

lemma keys_inv_step:
  assumes "keys_inv ended lt"
  shows "keys_inv (\<lambda>k. ended k + completions k op) (keys_step op lt)"
proof -
  obtain l t where lt: "lt = (l, t)" by (cases lt)
  note inv = assms [unfolded lt]
  have upd: "(\<lambda>j. ended j + (if k = j then 1 else 0)) = ended(k := ended k + 1)" for k by (auto simp: fun_eq_iff)
  show ?thesis
  proof (cases op)
    case (OpLookup k)
    then show ?thesis using keys_inv_lookup [OF inv, of k] by (simp add: lt)
  next
    case (OpBatch ks)
    have "keys_step op lt = fold (\<lambda>k (l, t). case key_lookup k t of (r, t') \<Rightarrow> (log_outcome r l, t')) ks lt"
      using lookup_batch_log [where l = l and ks = ks and t = t and b = "\<lparr>bl_hits = [], bl_upqueries = [], bl_already_pending = []\<rparr>"]
      by (simp add: OpBatch lt lookup_batch_def)
    then show ?thesis using keys_inv_lookups [OF assms, of ks] by (simp add: OpBatch)
  next
    case (OpMark k)
    then show ?thesis using keys_inv_mark [OF inv, of k] by (simp add: lt upd split_beta)
  next
    case (OpMarkMany ks)
    then show ?thesis using keys_inv_mark_many [OF inv, of ks] by (simp add: lt split_beta)
  next
    case (OpForget k)
    have "keys_ok (snd (key_forget k t))" using inv by (auto simp: keys_inv_def keys_ok_def key_forget_def)
    then show ?thesis using inv by (simp add: OpForget lt keys_inv_def key_forget_def waiting_def)
  next
    case (OpFail k)
    then show ?thesis using keys_inv_fail [OF inv, of k] by (simp add: lt upd split_beta)
  qed
qed

lemma keys_inv_fold:
  "keys_inv ended lt \<Longrightarrow> keys_inv (\<lambda>k. ended k + sum_list (map (completions k) ops)) (fold keys_step ops lt)"
proof (induction ops arbitrary: ended lt)
  case (Cons op ops)
  show ?case using Cons.IH [OF keys_inv_step [OF Cons.prems, of op]] by (simp add: add.assoc)
qed simp

text \<open>C20: In every run of a tracker no key is both materialized and pending, and the pending keys are
  exactly those with waiters.  An upquery for a key is issued again only after the previous one was
  completed or failed: at most one more than the completions, and at most as many when none is pending.
  Every lookup that was told to wait is either still counted as a waiter or was reported to be woken,
  exactly once.\<close>
theorem materialization_single_flight:
  "(case keys_run ops of (l, t) \<Rightarrow>
      keys_ok t
      \<and> count_list (kl_upqueries l) k \<le> sum_list (map (completions k) ops) + (if key_status_of k t = Pending then 1 else 0)
      \<and> kl_woken l + waiting t = kl_blocked l)"
proof -
  have "keys_inv (\<lambda>_. 0) (\<lparr>kl_upqueries = [], kl_blocked = 0, kl_woken = 0\<rparr>, keys_new :: 'a materialized_keys)"
    by (simp add: keys_inv_def keys_new_def keys_ok_def waiting_def)
  from keys_inv_fold [OF this, of ops] have inv: "keys_inv (\<lambda>k. sum_list (map (completions k) ops)) (keys_run ops)"
    by (simp add: keys_run_def)
  obtain l t where lt: "keys_run ops = (l, t)" by (cases "keys_run ops")
  have "keys_ok t" using inv by (simp add: lt keys_inv_def)
  then have "key_status_of k t = Pending \<longleftrightarrow> k \<in> mk_pending t" by (auto simp: key_status_of_def keys_ok_def)
  then show ?thesis using inv by (simp add: lt keys_inv_def)
qed

end
