(* ===== verification/Lsn_Feedback.thy ===== *)
theory Lsn_Feedback
  imports Wal_Datum
begin

text \<open>
  The positions that the consumer reports back to PostgreSQL
  (\<^verbatim>\<open>palimpsest-wal/upstream/pg-walstream/src/lsn.rs\<close>): two atomic words that any number of threads raise with
  compare-and-exchange loops.  A thread's next instruction is a \<open>call_state\<close>, and \<open>feedback_step\<close>
  interleaves the instructions of all threads.  A load, and a failed exchange, may return any value up to
  the current one: the words only grow, so this covers every value an earlier write left behind under
  weak memory ordering, and the spurious failures of \<^verbatim>\<open>compare_exchange_weak\<close>.
\<close>

section \<open>State and steps\<close>

record shared_lsn_feedback =
  sf_flushed :: u64
  sf_applied :: u64

definition feedback_new :: shared_lsn_feedback where
  "feedback_new = \<lparr>sf_flushed = 0, sf_applied = 0\<rparr>"

text \<open>Where a thread stands: outside, about to load or inside the loop of \<^verbatim>\<open>update_applied_lsn\<close>, and the same
  for \<^verbatim>\<open>update_flushed_lsn\<close>, with its argument and the value of \<^verbatim>\<open>current\<close>.\<close>

datatype call_state = Outside | ApplyLoad u64 | ApplyLoop u64 u64 | FlushLoad u64 | FlushLoop u64 u64

definition enter_flushed :: "u64 \<Rightarrow> call_state" where
  "enter_flushed l = (if l = 0 then Outside else FlushLoad l)"

definition enter_applied :: "u64 \<Rightarrow> call_state" where
  "enter_applied l = (if l = 0 then Outside else ApplyLoad l)"

text \<open>One instruction of a thread.  The value \<open>seen\<close> is what a load or a failed exchange returns, and \<open>ok\<close> is
  whether an exchange whose expectation holds succeeds.\<close>

fun call_step :: "u64 \<Rightarrow> bool \<Rightarrow> call_state \<Rightarrow> shared_lsn_feedback \<Rightarrow> call_state \<times> shared_lsn_feedback" where
  "call_step seen ok Outside s = (Outside, s)"
| "call_step seen ok (FlushLoad l) s = (FlushLoop l seen, s)"
| "call_step seen ok (FlushLoop l current) s =
     (if l \<le> current then (Outside, s)
      else if ok \<and> sf_flushed s = current then (Outside, s\<lparr>sf_flushed := l\<rparr>)
      else (FlushLoop l seen, s))"
| "call_step seen ok (ApplyLoad l) s = (ApplyLoop l seen, s)"
| "call_step seen ok (ApplyLoop l current) s =
     (if l \<le> current then (Outside, s)
      else if ok \<and> sf_applied s = current then (enter_flushed l, s\<lparr>sf_applied := l\<rparr>)
      else (ApplyLoop l seen, s))"

fun may_see :: "u64 \<Rightarrow> call_state \<Rightarrow> shared_lsn_feedback \<Rightarrow> bool" where
  "may_see seen (FlushLoad _) s = (seen \<le> sf_flushed s)"
| "may_see seen (FlushLoop _ _) s = (seen \<le> sf_flushed s)"
| "may_see seen (ApplyLoad _) s = (seen \<le> sf_applied s)"
| "may_see seen (ApplyLoop _ _) s = (seen \<le> sf_applied s)"
| "may_see seen Outside s = True"

text \<open>The threads of a run by number, and the arguments of the calls made so far.\<close>

record feedback_run =
  fr_shared :: shared_lsn_feedback
  fr_threads :: "nat \<Rightarrow> call_state"
  fr_flushed_args :: "u64 set"
  fr_applied_args :: "u64 set"

definition run_start :: feedback_run where
  "run_start = \<lparr>fr_shared = feedback_new, fr_threads = (\<lambda>_. Outside), fr_flushed_args = {}, fr_applied_args = {}\<rparr>"

definition call_flushed :: "nat \<Rightarrow> u64 \<Rightarrow> feedback_run \<Rightarrow> feedback_run" where
  "call_flushed t l r = r\<lparr>fr_threads := (fr_threads r)(t := enter_flushed l), fr_flushed_args := insert l (fr_flushed_args r)\<rparr>"

definition call_applied :: "nat \<Rightarrow> u64 \<Rightarrow> feedback_run \<Rightarrow> feedback_run" where
  "call_applied t l r = r\<lparr>fr_threads := (fr_threads r)(t := enter_applied l), fr_applied_args := insert l (fr_applied_args r)\<rparr>"

definition thread_step :: "nat \<Rightarrow> u64 \<Rightarrow> bool \<Rightarrow> feedback_run \<Rightarrow> feedback_run" where
  "thread_step t seen ok r =
     (case call_step seen ok (fr_threads r t) (fr_shared r) of
        (c, s) \<Rightarrow> r\<lparr>fr_shared := s, fr_threads := (fr_threads r)(t := c)\<rparr>)"

inductive feedback_step :: "feedback_run \<Rightarrow> feedback_run \<Rightarrow> bool" where
  step_flushed: "fr_threads r t = Outside \<Longrightarrow> feedback_step r (call_flushed t l r)"
| step_applied: "fr_threads r t = Outside \<Longrightarrow> feedback_step r (call_applied t l r)"
| step_thread: "may_see seen (fr_threads r t) (fr_shared r) \<Longrightarrow> feedback_step r (thread_step t seen ok r)"

text \<open>\<^verbatim>\<open>get_feedback_lsn\<close> loads the flushed word in one state and the applied word in a later one.\<close>

definition get_feedback_lsn :: "feedback_run \<Rightarrow> feedback_run \<Rightarrow> u64 \<times> u64" where
  "get_feedback_lsn r r' = (sf_flushed (fr_shared r), sf_applied (fr_shared r'))"

definition quiescent :: "feedback_run \<Rightarrow> bool" where
  "quiescent r = (\<forall>t. fr_threads r t = Outside)"

section \<open>Invariant\<close>

fun flushing :: "call_state \<Rightarrow> u64 option" where
  "flushing (FlushLoad l) = Some l"
| "flushing (FlushLoop l _) = Some l"
| "flushing _ = None"

fun applying :: "call_state \<Rightarrow> u64 option" where
  "applying (ApplyLoad l) = Some l"
| "applying (ApplyLoop l _) = Some l"
| "applying _ = None"

fun current_ok :: "shared_lsn_feedback \<Rightarrow> call_state \<Rightarrow> bool" where
  "current_ok s (FlushLoop l c) = (c \<le> sf_flushed s)"
| "current_ok s (ApplyLoop l c) = (c \<le> sf_applied s)"
| "current_ok s _ = True"

definition feedback_inv :: "feedback_run \<Rightarrow> bool" where
  "feedback_inv r \<longleftrightarrow>
     (\<forall>t. current_ok (fr_shared r) (fr_threads r t))
     \<and> sf_applied (fr_shared r) \<in> insert 0 (fr_applied_args r)
     \<and> sf_flushed (fr_shared r) \<in> insert 0 (fr_flushed_args r \<union> fr_applied_args r)
     \<and> (\<forall>t l. flushing (fr_threads r t) = Some l \<longrightarrow> l \<in> fr_flushed_args r \<union> fr_applied_args r)
     \<and> (\<forall>t l. applying (fr_threads r t) = Some l \<longrightarrow> l \<in> fr_applied_args r)
     \<and> (\<forall>a \<in> fr_applied_args r. a \<le> sf_applied (fr_shared r) \<or> (\<exists>t. applying (fr_threads r t) = Some a))
     \<and> (\<forall>f \<in> insert (sf_applied (fr_shared r)) (fr_flushed_args r).
          f \<le> sf_flushed (fr_shared r) \<or> (\<exists>t. flushing (fr_threads r t) = Some f))
     \<and> finite (fr_flushed_args r) \<and> finite (fr_applied_args r)"

lemma feedback_inv_applied:
  "feedback_inv r \<Longrightarrow> a \<in> fr_applied_args r \<Longrightarrow> a \<le> sf_applied (fr_shared r) \<or> (\<exists>t. applying (fr_threads r t) = Some a)"
  by (simp add: feedback_inv_def)

lemma feedback_inv_flushed:
  "feedback_inv r \<Longrightarrow> f \<in> insert (sf_applied (fr_shared r)) (fr_flushed_args r) \<Longrightarrow>
     f \<le> sf_flushed (fr_shared r) \<or> (\<exists>t. flushing (fr_threads r t) = Some f)"
  unfolding feedback_inv_def by blast

lemma feedback_inv_flushing:
  "feedback_inv r \<Longrightarrow> flushing (fr_threads r t) = Some l \<Longrightarrow> l \<in> fr_flushed_args r \<union> fr_applied_args r"
  unfolding feedback_inv_def by blast

lemma feedback_inv_applying: "feedback_inv r \<Longrightarrow> applying (fr_threads r t) = Some l \<Longrightarrow> l \<in> fr_applied_args r"
  unfolding feedback_inv_def by blast

lemma feedback_inv_values:
  "feedback_inv r \<Longrightarrow> sf_applied (fr_shared r) \<in> insert 0 (fr_applied_args r)
     \<and> sf_flushed (fr_shared r) \<in> insert 0 (fr_flushed_args r \<union> fr_applied_args r)"
  by (simp add: feedback_inv_def)

lemma feedback_inv_start: "feedback_inv run_start"
  by (simp add: feedback_inv_def run_start_def feedback_new_def)

lemma enter_simps [simp]:
  "flushing (enter_flushed l) = (if l = 0 then None else Some l)" "applying (enter_flushed l) = None"
  "flushing (enter_applied l) = None" "applying (enter_applied l) = (if l = 0 then None else Some l)"
  "current_ok s (enter_flushed l)" "current_ok s (enter_applied l)"
  by (simp_all add: enter_flushed_def enter_applied_def)

lemma current_ok_mono:
  "current_ok s c \<Longrightarrow> sf_flushed s \<le> sf_flushed s' \<Longrightarrow> sf_applied s \<le> sf_applied s' \<Longrightarrow> current_ok s' c"
  by (cases c) auto

text \<open>One thread moves to \<open>c\<close>, the words do not decrease, and every argument the thread gives up is covered.\<close>

lemma feedback_inv_update:
  assumes inv: "feedback_inv r" and r': "r' = \<lparr>fr_shared = s', fr_threads = (fr_threads r)(t := c), fr_flushed_args = F', fr_applied_args = A'\<rparr>"
    and mono: "sf_flushed (fr_shared r) \<le> sf_flushed s'" "sf_applied (fr_shared r) \<le> sf_applied s'"
    and cur: "current_ok s' c"
    and args: "fr_flushed_args r \<subseteq> F'" "fr_applied_args r \<subseteq> A'" "finite F'" "finite A'"
    and vals: "sf_applied s' \<in> insert 0 A'" "sf_flushed s' \<in> insert 0 (F' \<union> A')"
    and new: "\<And>l. flushing c = Some l \<Longrightarrow> l \<in> F' \<union> A'" "\<And>l. applying c = Some l \<Longrightarrow> l \<in> A'"
    and covA: "\<And>a. a \<in> A' \<Longrightarrow> a \<in> fr_applied_args r \<and> applying (fr_threads r t) \<noteq> Some a \<or> a \<le> sf_applied s' \<or> applying c = Some a"
    and covF: "\<And>f. f \<in> insert (sf_applied s') F' \<Longrightarrow> f \<in> insert (sf_applied (fr_shared r)) (fr_flushed_args r)
        \<and> flushing (fr_threads r t) \<noteq> Some f \<or> f \<le> sf_flushed s' \<or> flushing c = Some f"
  shows "feedback_inv r'"
proof -
  note I = inv [unfolded feedback_inv_def]
  have keep: "(\<exists>t'. g (((fr_threads r)(t := c)) t') = Some a)" if "\<exists>t'. g (fr_threads r t') = Some a" "g (fr_threads r t) \<noteq> Some a" for g and a :: u64
  proof -
    from that(1) obtain t' where t': "g (fr_threads r t') = Some a" by blast
    then have "t' \<noteq> t" using that(2) by auto
    then show ?thesis using t' by (intro exI [of _ t']) simp
  qed
  have here: "g c = Some a \<Longrightarrow> \<exists>t'. g (((fr_threads r)(t := c)) t') = Some a" for g and a :: u64
    by (intro exI [of _ t]) simp
  have 1: "current_ok s' (((fr_threads r)(t := c)) t')" for t' using I cur current_ok_mono [OF _ mono] by simp
  have 2: "flushing (((fr_threads r)(t := c)) t') = Some l \<Longrightarrow> l \<in> F' \<union> A'" for t' l
    using feedback_inv_flushing [OF inv, of t' l] new(1) args(1,2) by (cases "t' = t") auto
  have 3: "applying (((fr_threads r)(t := c)) t') = Some l \<Longrightarrow> l \<in> A'" for t' l
    using feedback_inv_applying [OF inv, of t' l] new(2) args(2) by (cases "t' = t") auto
  have 4: "a \<le> sf_applied s' \<or> (\<exists>t'. applying (((fr_threads r)(t := c)) t') = Some a)" if "a \<in> A'" for a
    using covA [OF that]
  proof (elim disjE conjE)
    assume a: "a \<in> fr_applied_args r" "applying (fr_threads r t) \<noteq> Some a"
    from feedback_inv_applied [OF inv a(1)] consider "a \<le> sf_applied (fr_shared r)" | "\<exists>t. applying (fr_threads r t) = Some a" by blast
    then show ?thesis using mono(2) keep [of applying a] a(2) by cases auto
  qed (use here [of applying a] in blast)+
  have 5: "f \<le> sf_flushed s' \<or> (\<exists>t'. flushing (((fr_threads r)(t := c)) t') = Some f)" if "f \<in> insert (sf_applied s') F'" for f
    using covF [OF that]
  proof (elim disjE conjE)
    assume f: "f \<in> insert (sf_applied (fr_shared r)) (fr_flushed_args r)" "flushing (fr_threads r t) \<noteq> Some f"
    from feedback_inv_flushed [OF inv f(1)] consider "f \<le> sf_flushed (fr_shared r)" | "\<exists>t. flushing (fr_threads r t) = Some f" by blast
    then show ?thesis using mono(1) keep [of flushing f] f(2) by cases auto
  qed (use here [of flushing f] in blast)+
  show ?thesis unfolding feedback_inv_def r' using 1 2 3 4 5 args(3,4) vals by simp
qed

lemma feedback_inv_call_flushed:
  assumes "feedback_inv r" "fr_threads r t = Outside"
  shows "feedback_inv (call_flushed t l r)"
proof (rule feedback_inv_update [OF assms(1)])
  show "call_flushed t l r = \<lparr>fr_shared = fr_shared r, fr_threads = (fr_threads r)(t := enter_flushed l),
      fr_flushed_args = insert l (fr_flushed_args r), fr_applied_args = fr_applied_args r\<rparr>"
    by (simp add: call_flushed_def)
qed (use assms in \<open>auto simp: feedback_inv_def split: if_splits\<close>)

lemma feedback_inv_call_applied:
  assumes "feedback_inv r" "fr_threads r t = Outside"
  shows "feedback_inv (call_applied t l r)"
proof (rule feedback_inv_update [OF assms(1)])
  show "call_applied t l r = \<lparr>fr_shared = fr_shared r, fr_threads = (fr_threads r)(t := enter_applied l),
      fr_flushed_args = fr_flushed_args r, fr_applied_args = insert l (fr_applied_args r)\<rparr>"
    by (simp add: call_applied_def)
qed (use assms in \<open>auto simp: feedback_inv_def split: if_splits\<close>)

lemma call_step_mono:
  assumes "current_ok s c" "call_step seen ok c s = (c', s')"
  shows "sf_flushed s \<le> sf_flushed s' \<and> sf_applied s \<le> sf_applied s'"
  using assms by (cases c) (auto split: if_splits)

lemma feedback_inv_thread:
  assumes inv: "feedback_inv r" and see: "may_see seen (fr_threads r t) (fr_shared r)"
  shows "feedback_inv (thread_step t seen ok r)"
proof -
  obtain c s' where step: "call_step seen ok (fr_threads r t) (fr_shared r) = (c, s')" by (cases "call_step seen ok (fr_threads r t) (fr_shared r)")
  note I = inv [unfolded feedback_inv_def]
  have cur: "current_ok (fr_shared r) (fr_threads r t)" using I by blast
  note mono = call_step_mono [OF cur step]
  have fl: "flushing (fr_threads r t) = Some l \<Longrightarrow> l \<in> fr_flushed_args r \<union> fr_applied_args r" for l using feedback_inv_flushing [OF inv] .
  have ap: "applying (fr_threads r t) = Some l \<Longrightarrow> l \<in> fr_applied_args r" for l using feedback_inv_applying [OF inv] .
  show ?thesis
  proof (rule feedback_inv_update [OF inv])
    show "thread_step t seen ok r = \<lparr>fr_shared = s', fr_threads = (fr_threads r)(t := c),
        fr_flushed_args = fr_flushed_args r, fr_applied_args = fr_applied_args r\<rparr>"
      by (simp add: thread_step_def step)
    show "current_ok s' c" using step see cur by (cases "fr_threads r t") (auto split: if_splits)
    show "sf_applied s' \<in> insert 0 (fr_applied_args r)"
      using step I ap by (cases "fr_threads r t") (auto split: if_splits)
    show "sf_flushed s' \<in> insert 0 (fr_flushed_args r \<union> fr_applied_args r)"
      using step I fl by (cases "fr_threads r t") (auto split: if_splits)
    show "l \<in> fr_flushed_args r \<union> fr_applied_args r" if "flushing c = Some l" for l
      using step that fl ap by (cases "fr_threads r t") (auto split: if_splits)
    show "l \<in> fr_applied_args r" if "applying c = Some l" for l
      using step that ap by (cases "fr_threads r t") (auto split: if_splits)
    show "a \<in> fr_applied_args r \<and> applying (fr_threads r t) \<noteq> Some a \<or> a \<le> sf_applied s' \<or> applying c = Some a"
      if "a \<in> fr_applied_args r" for a
      using step that cur by (cases "fr_threads r t") (auto split: if_splits)
    show "f \<in> insert (sf_applied (fr_shared r)) (fr_flushed_args r) \<and> flushing (fr_threads r t) \<noteq> Some f
        \<or> f \<le> sf_flushed s' \<or> flushing c = Some f" if "f \<in> insert (sf_applied s') (fr_flushed_args r)" for f
      using step that cur by (cases "fr_threads r t") (auto split: if_splits)
  qed (use mono I in auto)
qed

lemma feedback_inv_step: "feedback_step r r' \<Longrightarrow> feedback_inv r \<Longrightarrow> feedback_inv r'"
  by (induction rule: feedback_step.induct)
    (simp_all add: feedback_inv_call_flushed feedback_inv_call_applied feedback_inv_thread)

lemma feedback_step_mono:
  assumes "feedback_step r r'" "feedback_inv r"
  shows "sf_flushed (fr_shared r) \<le> sf_flushed (fr_shared r') \<and> sf_applied (fr_shared r) \<le> sf_applied (fr_shared r')"
  using assms
proof (induction rule: feedback_step.induct)
  case (step_thread seen r t ok)
  have "current_ok (fr_shared r) (fr_threads r t)" using step_thread.prems by (simp add: feedback_inv_def)
  then show ?case using call_step_mono by (cases "call_step seen ok (fr_threads r t) (fr_shared r)") (auto simp: thread_step_def)
qed (simp_all add: call_flushed_def call_applied_def)

lemma feedback_inv_steps: "feedback_step\<^sup>*\<^sup>* r r' \<Longrightarrow> feedback_inv r \<Longrightarrow> feedback_inv r'"
  by (induction rule: rtranclp_induct) (auto intro: feedback_inv_step)

lemma feedback_steps_mono:
  "feedback_step\<^sup>*\<^sup>* r r' \<Longrightarrow> feedback_inv r \<Longrightarrow>
     sf_flushed (fr_shared r) \<le> sf_flushed (fr_shared r') \<and> sf_applied (fr_shared r) \<le> sf_applied (fr_shared r')"
proof (induction rule: rtranclp_induct)
  case (step r' r'')
  then show ?case using feedback_step_mono [OF step.hyps(2) feedback_inv_steps [OF step.hyps(1)]] by auto
qed simp

text \<open>A loop does not wait for the other threads: left alone, a thread leaves it after two exchanges that
  read the current value and do not fail spuriously.\<close>

lemma flush_loop_leaves:
  "fr_threads (thread_step t seen True (thread_step t (sf_flushed (fr_shared r)) ok
       (r\<lparr>fr_threads := (fr_threads r)(t := FlushLoad l)\<rparr>))) t = Outside"
  by (simp add: thread_step_def)

section \<open>Properties\<close>


text \<open>Two threads report position 5: the second finds the applied word already raised by the first, which has
  not reached the flushed word yet.\<close>

definition race_calls :: feedback_run where
  "race_calls = thread_step 1 5 True (thread_step 1 5 True (call_applied 1 5
     (thread_step 0 0 True (thread_step 0 0 True (call_applied 0 5 run_start)))))"

definition race_end :: feedback_run where
  "race_end = thread_step 0 0 True (thread_step 0 0 True race_calls)"

lemmas race_defs = race_calls_def race_end_def thread_step_def call_applied_def run_start_def feedback_new_def
  enter_applied_def enter_flushed_def

lemma steps_thread:
  "feedback_step\<^sup>*\<^sup>* a r \<Longrightarrow> may_see seen (fr_threads r t) (fr_shared r) \<Longrightarrow> feedback_step\<^sup>*\<^sup>* a (thread_step t seen ok r)"
  by (rule rtranclp.rtrancl_into_rtrancl [of feedback_step], assumption, rule step_thread)

lemma steps_applied:
  "feedback_step\<^sup>*\<^sup>* a r \<Longrightarrow> fr_threads r t = Outside \<Longrightarrow> feedback_step\<^sup>*\<^sup>* a (call_applied t l r)"
  by (rule rtranclp.rtrancl_into_rtrancl [of feedback_step], assumption, rule step_applied)

lemma race_calls_reachable: "feedback_step\<^sup>*\<^sup>* run_start race_calls"
  unfolding race_calls_def
  by (intro steps_thread steps_applied rtranclp.rtrancl_refl) (simp_all add: race_defs)

lemma race_end_reachable: "feedback_step\<^sup>*\<^sup>* race_calls race_end"
  unfolding race_end_def
  by (intro steps_thread rtranclp.rtrancl_refl) (simp_all add: race_defs)


text \<open>In between, the second call has returned without raising anything, the flushed word is behind, and the
  pair of words is not one that the consumer ever reported.\<close>

lemma applied_ahead_of_flushed:
  "feedback_step\<^sup>*\<^sup>* run_start race_calls \<and> fr_threads race_calls 1 = Outside
   \<and> get_feedback_lsn race_calls race_calls = (0, 5)"
  using race_calls_reachable by (simp add: get_feedback_lsn_def) (simp add: race_defs)

end
