(* ===== verification/Wal_Source.thy ===== *)
theory Wal_Source
  imports Wal_Protocol
begin

text \<open>
  The consumer side of \<^verbatim>\<open>palimpsest-wal\<close>: the source of decoded events with its restart position and its
  reconnect delays (\<^verbatim>\<open>source.rs\<close>), and the queue that spills the segments of streamed transactions to files
  when its channel is full (\<^verbatim>\<open>spill.rs\<close>).  The file system is a map from paths to contents with a set of
  paths on which every operation fails; the channel is a parameter.
\<close>

section \<open>Files\<close>

record file_system =
  fs_files :: "string \<rightharpoonup> string"
  fs_faulty :: "string \<Rightarrow> bool"

definition path_join :: "string \<Rightarrow> string \<Rightarrow> string" where
  "path_join dir name = (if dir = [] \<or> last dir = CHR ''/'' then dir @ name else dir @ ''/'' @ name)"

lemma path_join_inject [simp]: "path_join dir a = path_join dir b \<longleftrightarrow> a = b"
  by (simp add: path_join_def)

section \<open>The event source\<close>

record wal_config =
  wc_slot_name :: string
  wc_channel_capacity :: nat
  wc_spill_directory :: string
  wc_restart_lsn_path :: string

definition wal_config_new :: "string \<Rightarrow> string \<Rightarrow> wal_config" where
  "wal_config_new slot dir = \<lparr>wc_slot_name = slot, wc_channel_capacity = 1024,
     wc_spill_directory = path_join dir ''spill'', wc_restart_lsn_path = path_join dir ''restart_lsn''\<rparr>"

text \<open>Durations are nanoseconds; the product saturates far above every maximum.\<close>

record reconnect_backoff =
  rb_attempt :: u32
  rb_initial :: nat
  rb_max :: nat

definition reconnect_backoff_default :: reconnect_backoff where
  "reconnect_backoff_default = \<lparr>rb_attempt = 0, rb_initial = 100 * 1000000, rb_max = 30 * 1000000000\<rparr>"

definition backoff_multiplier :: "u32 \<Rightarrow> u32" where
  "backoff_multiplier attempt = (if unat attempt < 32 then push_bit (unat attempt) 1 else - 1)"

definition source_next_delay :: "reconnect_backoff \<Rightarrow> nat \<times> reconnect_backoff" where
  "source_next_delay b =
     (min (rb_initial b * unat (backoff_multiplier (rb_attempt b))) (rb_max b),
      b\<lparr>rb_attempt := sat_add (rb_attempt b) 1\<rparr>)"

definition source_backoff_reset :: "reconnect_backoff \<Rightarrow> reconnect_backoff" where
  "source_backoff_reset b = b\<lparr>rb_attempt := 0\<rparr>"

definition restart_load :: "string \<Rightarrow> file_system \<Rightarrow> (lsn option, wal_error) result" where
  "restart_load path fs =
     (if fs_faulty fs path then Err IoError
      else case fs_files fs path of
        None \<Rightarrow> Ok None
      | Some content \<Rightarrow>
          if \<not> utf8_valid content then Err IoError
          else (case parse_unsigned 10 (str_trim content) of
                  None \<Rightarrow> Err InvalidRestartLsn
                | Some v \<Rightarrow> Ok (Some v)))"

definition restart_store :: "string \<Rightarrow> lsn \<Rightarrow> file_system \<Rightarrow> (unit, wal_error) result \<times> file_system" where
  "restart_store path l fs =
     (if fs_faulty fs path then (Err IoError, fs)
      else (Ok (), fs\<lparr>fs_files := (fs_files fs)(path \<mapsto> show_nat (unat l))\<rparr>))"

record wal_source =
  so_catalog :: catalog
  so_restart_path :: string
  so_backoff :: reconnect_backoff
  so_pending :: "(decoded_event, wal_error) result list"

definition source_new :: "wal_config \<Rightarrow> wal_source" where
  "source_new cfg = \<lparr>so_catalog = catalog_new, so_restart_path = wc_restart_lsn_path cfg,
     so_backoff = reconnect_backoff_default, so_pending = []\<rparr>"

definition push_pgoutput_message :: "float_env \<Rightarrow> string \<Rightarrow> wal_source \<Rightarrow> wal_source" where
  "push_pgoutput_message fl message so =
     (case decode_pgoutput_message fl (so_catalog so) message of
        (r, cat) \<Rightarrow> so\<lparr>so_catalog := cat, so_pending := so_pending so @ [r]\<rparr>)"

definition from_pgoutput_messages :: "float_env \<Rightarrow> wal_config \<Rightarrow> string list \<Rightarrow> wal_source" where
  "from_pgoutput_messages fl cfg messages = fold (push_pgoutput_message fl) messages (source_new cfg)"

definition source_stream :: "wal_source \<Rightarrow> (decoded_event, wal_error) result list \<times> wal_source" where
  "source_stream so = (so_pending so, so\<lparr>so_pending := []\<rparr>)"

definition source_ack :: "lsn \<Rightarrow> wal_source \<Rightarrow> file_system \<Rightarrow> (unit, wal_error) result \<times> file_system" where
  "source_ack l so fs = restart_store (so_restart_path so) l fs"

definition last_restart_lsn :: "wal_source \<Rightarrow> file_system \<Rightarrow> (lsn option, wal_error) result" where
  "last_restart_lsn so fs = restart_load (so_restart_path so) fs"

definition handle_slot_gone :: "lsn \<Rightarrow> wal_source \<Rightarrow> wal_source" where
  "handle_slot_gone l so = so\<lparr>so_pending := so_pending so @ [Ok (EvResync l)]\<rparr>"

definition note_reconnect :: "u32 \<Rightarrow> wal_source \<Rightarrow> wal_source" where
  "note_reconnect attempt so = so\<lparr>so_pending := so_pending so @ [Ok (EvReconnect attempt)]\<rparr>"

section \<open>Spilled segments\<close>

record stream_spill_buffer =
  sb_xid :: u32
  sb_capacity :: nat
  sb_memory :: "string list"
  sb_path :: string
  sb_spilled :: nat

definition spill_path_of :: "string \<Rightarrow> u32 \<Rightarrow> string" where
  "spill_path_of dir xid = path_join dir (''palimpsest-xid-'' @ show_nat (unat xid) @ ''.spill'')"

definition spill_new :: "u32 \<Rightarrow> nat \<Rightarrow> string \<Rightarrow> file_system \<Rightarrow> (stream_spill_buffer, wal_error) result" where
  "spill_new xid capacity dir fs =
     (if fs_faulty fs dir then Err IoError
      else Ok \<lparr>sb_xid = xid, sb_capacity = capacity, sb_memory = [], sb_path = spill_path_of dir xid, sb_spilled = 0\<rparr>)"

definition file_content :: "string \<Rightarrow> file_system \<Rightarrow> string" where
  "file_content path fs = (case fs_files fs path of None \<Rightarrow> [] | Some c \<Rightarrow> c)"

definition spill_push ::
    "string \<Rightarrow> stream_spill_buffer \<Rightarrow> file_system \<Rightarrow> (unit, wal_error) result \<times> stream_spill_buffer \<times> file_system" where
  "spill_push segment b fs =
     (if length (sb_memory b) < sb_capacity b then (Ok (), b\<lparr>sb_memory := sb_memory b @ [segment]\<rparr>, fs)
      else if fs_faulty fs (sb_path b) then (Err IoError, b, fs)
      else let content = file_content (sb_path b) fs in
        if length segment \<ge> 2 ^ 32
        then (Err (Malformed ''spill segment too large''), b, fs\<lparr>fs_files := (fs_files fs)(sb_path b \<mapsto> content)\<rparr>)
        else (Ok (), b\<lparr>sb_spilled := sb_spilled b + 1\<rparr>,
              fs\<lparr>fs_files := (fs_files fs)(sb_path b \<mapsto> content @ word_bytes (word_of_nat (length segment) :: u32) @ segment)\<rparr>))"

function read_segments :: "string \<Rightarrow> (string list, wal_error) result" where
  "read_segments bs =
     (if length bs < 4 then Ok []
      else let len = unat (be_word (take 4 bs) :: u32); rest = drop 4 bs in
        if length rest < len then Err IoError
        else rmap ((#) (take len rest)) (read_segments (drop len rest)))"
  by pat_completeness auto
termination by (relation "measure length") auto

declare read_segments.simps [simp del]

definition spill_drain :: "stream_spill_buffer \<Rightarrow> file_system \<Rightarrow> (string list, wal_error) result \<times> file_system" where
  "spill_drain b fs =
     (if sb_spilled b > 0
      then if fs_faulty fs (sb_path b) then (Err IoError, fs)
           else case fs_files fs (sb_path b) of
             None \<Rightarrow> (Err IoError, fs)
           | Some content \<Rightarrow>
               (case read_segments content of
                  Ok segments \<Rightarrow> (Ok (sb_memory b @ segments), fs\<lparr>fs_files := (fs_files fs)(sb_path b := None)\<rparr>)
                | Err e \<Rightarrow> (Err e, fs)
                | Panic \<Rightarrow> (Panic, fs))
      else (Ok (sb_memory b), fs))"

datatype send_outcome = Sent | ChannelFull | ChannelClosed | SendFailed

record 'c backpressure_queue =
  bq_sender :: 'c
  bq_spill_directory :: string
  bq_spill_capacity :: nat
  bq_spills :: "(u32, stream_spill_buffer) btree"

definition queue_new :: "'c \<Rightarrow> nat \<Rightarrow> string \<Rightarrow> 'c backpressure_queue" where
  "queue_new sender capacity dir =
     \<lparr>bq_sender = sender, bq_spill_directory = dir, bq_spill_capacity = capacity, bq_spills = []\<rparr>"

definition spill_segment ::
    "u32 \<Rightarrow> string \<Rightarrow> 'c backpressure_queue \<Rightarrow> file_system \<Rightarrow> (unit, wal_error) result \<times> 'c backpressure_queue \<times> file_system" where
  "spill_segment xid segment q fs =
     (case (case map_of (bq_spills q) xid of
              Some b \<Rightarrow> Ok b
            | None \<Rightarrow> spill_new xid (bq_spill_capacity q) (bq_spill_directory q) fs) of
        Ok b \<Rightarrow> (case spill_push segment b fs of (r, b', fs') \<Rightarrow> (r, q\<lparr>bq_spills := bt_insert xid b' (bq_spills q)\<rparr>, fs'))
      | _ \<Rightarrow> (Panic, q, fs))"

definition push_stream_segment ::
    "('c \<Rightarrow> string \<Rightarrow> send_outcome \<times> 'c) \<Rightarrow> u32 \<Rightarrow> string \<Rightarrow> 'c backpressure_queue \<Rightarrow> file_system
       \<Rightarrow> (unit, wal_error) result \<times> 'c backpressure_queue \<times> file_system" where
  "push_stream_segment try_send xid segment q fs =
     (case try_send (bq_sender q) segment of
        (Sent, c) \<Rightarrow> (Ok (), q\<lparr>bq_sender := c\<rparr>, fs)
      | (ChannelFull, c) \<Rightarrow> spill_segment xid segment (q\<lparr>bq_sender := c\<rparr>) fs
      | (ChannelClosed, c) \<Rightarrow> (Err (Malformed ''consumer disconnected''), q\<lparr>bq_sender := c\<rparr>, fs)
      | (SendFailed, c) \<Rightarrow> (Err (Malformed ''failed to queue WAL segment''), q\<lparr>bq_sender := c\<rparr>, fs))"

definition drain_spilled_on_commit ::
    "u32 \<Rightarrow> 'c backpressure_queue \<Rightarrow> file_system \<Rightarrow> (string list, wal_error) result \<times> 'c backpressure_queue \<times> file_system" where
  "drain_spilled_on_commit xid q fs =
     (case map_of (bq_spills q) xid of
        None \<Rightarrow> (Ok [], q, fs)
      | Some b \<Rightarrow> (case spill_drain b fs of (r, fs') \<Rightarrow> (r, q\<lparr>bq_spills := bt_remove xid (bq_spills q)\<rparr>, fs')))"

fun push_all ::
    "('c \<Rightarrow> string \<Rightarrow> send_outcome \<times> 'c) \<Rightarrow> (u32 \<times> string) list \<Rightarrow> 'c backpressure_queue \<Rightarrow> file_system
       \<Rightarrow> (unit, wal_error) result \<times> 'c backpressure_queue \<times> file_system" where
  "push_all try_send [] q fs = (Ok (), q, fs)"
| "push_all try_send ((xid, segment) # segs) q fs =
     (case push_stream_segment try_send xid segment q fs of
        (Ok _, q', fs') \<Rightarrow> push_all try_send segs q' fs'
      | r \<Rightarrow> r)"

section \<open>The source\<close>

text \<open>The events come out in the order of the messages, each decoded with the catalog its predecessors left.\<close>

fun decoded_in_order :: "float_env \<Rightarrow> catalog \<Rightarrow> string list \<Rightarrow> (decoded_event, wal_error) result list" where
  "decoded_in_order fl cat [] = []"
| "decoded_in_order fl cat (m # ms) =
     fst (decode_pgoutput_message fl cat m) # decoded_in_order fl (snd (decode_pgoutput_message fl cat m)) ms"

lemma source_decodes_in_order: "fst (source_stream (from_pgoutput_messages fl cfg ms)) = decoded_in_order fl catalog_new ms"
proof -
  have "so_pending (fold (push_pgoutput_message fl) ms so) = so_pending so @ decoded_in_order fl (so_catalog so) ms" for so
    by (induction ms arbitrary: so) (simp_all add: push_pgoutput_message_def split_beta)
  then show ?thesis by (simp add: source_stream_def from_pgoutput_messages_def source_new_def)
qed

lemma str_trim_digits:
  assumes "\<And>c. c \<in> set s \<Longrightarrow> 48 \<le> byte c \<and> byte c \<le> 57"
  shows "str_trim s = s \<and> utf8_valid s"
proof -
  have ascii: "list_all (\<lambda>b. byte b < 128) s" using assms by (force simp: list_all_iff)
  have keep: "dropWhile is_whitespace xs = xs" if "\<And>x. x \<in> set xs \<Longrightarrow> \<not> is_whitespace x" for xs
    using that by (cases xs) simp_all
  have digits: "\<not> is_whitespace x" if x: "x \<in> set (map (\<lambda>b. [b]) s)" for x
  proof -
    from x obtain b where b: "x = [b]" "b \<in> set s" by auto
    show ?thesis using assms [OF b(2)] by (simp add: b(1) is_whitespace_def Let_def)
  qed
  have "str_trim s = concat (map (\<lambda>b. [b]) s)"
    unfolding str_trim_def utf8_chars_ascii [OF ascii] by (subst keep, use digits in simp)+ simp
  then show ?thesis using utf8_valid_ascii [OF ascii] by simp
qed

lemma parse_unsigned_show: "parse_unsigned 10 (show_nat (unat w)) = Some w" for w :: "'a::len word"
proof -
  have "unat w < 2 ^ LENGTH('a)" by (rule unsigned_less)
  then show ?thesis by (simp add: parse_unsigned_def parse_nat_show_nat)
qed

lemma restart_roundtrip:
  assumes "\<not> fs_faulty fs (so_restart_path so)"
  shows "\<exists>fs'. source_ack l so fs = (Ok (), fs') \<and> last_restart_lsn so fs' = Ok (Some l)"
  using assms str_trim_digits [of "show_nat (unat l)", OF show_nat_digits]
  by (simp add: source_ack_def restart_store_def last_restart_lsn_def restart_load_def parse_unsigned_show)

text \<open>The delays double up to the maximum.\<close>

lemma unat_backoff_multiplier: "unat (backoff_multiplier a) = (if unat a < 32 then 2 ^ unat a else 2 ^ 32 - 1)"
proof (cases "unat a < 32")
  case True
  then have "(2 :: nat) ^ unat a < 2 ^ 32" by (intro power_strict_increasing) simp_all
  moreover have "push_bit (unat a) (1 :: u32) = word_of_nat (2 ^ unat a)" by (simp add: push_bit_eq_mult)
  ultimately show ?thesis using True by (simp add: backoff_multiplier_def unat_of_nat del: push_bit_of_1 of_nat_power)
next
  case False
  then show ?thesis by (simp add: backoff_multiplier_def unsigned_minus_1_eq_mask mask_eq_exp_minus_1)
qed

lemma source_delay_bounded: "fst (source_next_delay b) \<le> rb_max b"
  by (simp add: source_next_delay_def)

section \<open>Round trip through the spill files\<close>

definition encode_segment :: "string \<Rightarrow> string" where
  "encode_segment s = word_bytes (word_of_nat (length s) :: u32) @ s"

lemma read_segments_encoded:
  "list_all (\<lambda>s. length s < 2 ^ 32) segs \<Longrightarrow> read_segments (concat (map encode_segment segs)) = Ok segs"
proof (induction segs)
  case Nil
  show ?case by (subst read_segments.simps) simp
next
  case (Cons s segs)
  have len: "length (word_bytes (word_of_nat (length s) :: u32)) = 4" by (simp add: word_bytes_def)
  have n: "unat (be_word (word_bytes (word_of_nat (length s) :: u32)) :: u32) = length s"
    using Cons.prems by (simp add: be_word_word_bytes unat_of_nat)
  have "concat (map encode_segment (s # segs)) = word_bytes (word_of_nat (length s) :: u32) @ s @ concat (map encode_segment segs)"
    by (simp add: encode_segment_def)
  then show ?case using Cons len n by (subst read_segments.simps) simp
qed

lemma spill_path_inject [simp]: "spill_path_of dir x = spill_path_of dir y \<longleftrightarrow> x = y"
  by (simp add: spill_path_of_def flip: word_unat_eq_iff)

definition buffer_holds :: "string \<Rightarrow> u32 \<Rightarrow> string list \<Rightarrow> stream_spill_buffer \<Rightarrow> file_system \<Rightarrow> bool" where
  "buffer_holds dir xid held b fs \<longleftrightarrow> sb_path b = spill_path_of dir xid
     \<and> (\<exists>segs. held = sb_memory b @ segs \<and> sb_spilled b = length segs
          \<and> (segs = [] \<or> sb_capacity b \<le> length (sb_memory b)) \<and> list_all (\<lambda>s. length s < 2 ^ 32) segs
          \<and> fs_files fs (spill_path_of dir xid) = (if segs = [] then None else Some (concat (map encode_segment segs))))"

fun slot_holds :: "string \<Rightarrow> u32 \<Rightarrow> string list \<Rightarrow> stream_spill_buffer option \<Rightarrow> file_system \<Rightarrow> bool" where
  "slot_holds dir xid held None fs \<longleftrightarrow> held = [] \<and> fs_files fs (spill_path_of dir xid) = None"
| "slot_holds dir xid held (Some b) fs \<longleftrightarrow> buffer_holds dir xid held b fs"

definition spill_inv :: "(u32 \<Rightarrow> string list) \<Rightarrow> 'c backpressure_queue \<Rightarrow> file_system \<Rightarrow> bool" where
  "spill_inv held q fs \<longleftrightarrow> bt_invar (bq_spills q) \<and> (\<forall>p. \<not> fs_faulty fs p)
     \<and> (\<forall>x. slot_holds (bq_spill_directory q) x (held x) (map_of (bq_spills q) x) fs)"

lemma spill_push_holds:
  assumes "buffer_holds dir xid held b fs" "\<And>p. \<not> fs_faulty fs p" "length segment < 2 ^ 32"
  shows "\<exists>b' fs'. spill_push segment b fs = (Ok (), b', fs') \<and> buffer_holds dir xid (held @ [segment]) b' fs'
    \<and> (\<forall>p. p \<noteq> spill_path_of dir xid \<longrightarrow> fs_files fs' p = fs_files fs p) \<and> fs_faulty fs' = fs_faulty fs"
proof -
  obtain segs where segs: "sb_path b = spill_path_of dir xid" "held = sb_memory b @ segs" "sb_spilled b = length segs"
    "segs = [] \<or> sb_capacity b \<le> length (sb_memory b)" "list_all (\<lambda>s. length s < 2 ^ 32) segs"
    "fs_files fs (spill_path_of dir xid) = (if segs = [] then None else Some (concat (map encode_segment segs)))"
    using assms(1) by (auto simp: buffer_holds_def)
  show ?thesis
  proof (cases "length (sb_memory b) < sb_capacity b")
    case True
    then have none: "segs = []" using segs(4) by simp
    have "buffer_holds dir xid (held @ [segment]) (b\<lparr>sb_memory := sb_memory b @ [segment]\<rparr>) fs"
      unfolding buffer_holds_def by (intro conjI exI [of _ "[]"]) (use segs none in simp_all)
    then show ?thesis using True by (simp add: spill_push_def)
  next
    case False
    have content: "file_content (spill_path_of dir xid) fs = concat (map encode_segment segs)"
      using segs(6) by (simp add: file_content_def)
    have "buffer_holds dir xid (held @ [segment]) (b\<lparr>sb_spilled := sb_spilled b + 1\<rparr>)
        (fs\<lparr>fs_files := (fs_files fs)(sb_path b \<mapsto> concat (map encode_segment segs) @ encode_segment segment)\<rparr>)"
      unfolding buffer_holds_def by (intro conjI exI [of _ "segs @ [segment]"]) (use segs assms(3) False in simp_all)
    then show ?thesis using False assms(2,3) segs(1) content by (simp add: spill_push_def encode_segment_def Let_def)
  qed
qed

lemma slot_holds_other:
  assumes "slot_holds dir xid held slot fs" "fs_files fs' (spill_path_of dir xid) = fs_files fs (spill_path_of dir xid)"
  shows "slot_holds dir xid held slot fs'"
proof (cases slot)
  case None
  then show ?thesis using assms by simp
next
  case (Some b)
  then show ?thesis using assms(1) unfolding Some slot_holds.simps buffer_holds_def assms(2) by simp
qed

lemma spill_slot:
  assumes "slot_holds (bq_spill_directory q) xid held (map_of (bq_spills q) xid) fs" "\<And>p. \<not> fs_faulty fs p"
  shows "\<exists>b. (case map_of (bq_spills q) xid of Some b \<Rightarrow> Ok b
      | None \<Rightarrow> spill_new xid (bq_spill_capacity q) (bq_spill_directory q) fs) = Ok b
    \<and> buffer_holds (bq_spill_directory q) xid held b fs"
proof (cases "map_of (bq_spills q) xid")
  case None
  then have "held = []" "fs_files fs (spill_path_of (bq_spill_directory q) xid) = None" using assms(1) by simp_all
  then show ?thesis using None assms(2) by (simp add: spill_new_def buffer_holds_def)
next
  case (Some b)
  then show ?thesis using assms(1) by simp
qed

lemma spill_segment_inv:
  assumes inv: "spill_inv held q fs" and len: "length segment < 2 ^ 32"
  shows "\<exists>q' fs'. spill_segment xid segment q fs = (Ok (), q', fs')
    \<and> spill_inv (held(xid := held xid @ [segment])) q' fs' \<and> bq_sender q' = bq_sender q
    \<and> bq_spill_directory q' = bq_spill_directory q"
proof -
  define dir where "dir = bq_spill_directory q"
  have bt: "bt_invar (bq_spills q)" and ok: "\<And>p. \<not> fs_faulty fs p"
    and at: "\<And>x. slot_holds dir x (held x) (map_of (bq_spills q) x) fs" using inv by (simp_all add: spill_inv_def dir_def)
  from spill_slot [OF at [unfolded dir_def] ok, of xid] obtain b
    where b: "(case map_of (bq_spills q) xid of Some b \<Rightarrow> Ok b
        | None \<Rightarrow> spill_new xid (bq_spill_capacity q) (bq_spill_directory q) fs) = Ok b"
      and holds: "buffer_holds dir xid (held xid) b fs" unfolding dir_def by blast
  from spill_push_holds [OF holds ok len] obtain b' fs' where push: "spill_push segment b fs = (Ok (), b', fs')"
    and holds': "buffer_holds dir xid (held xid @ [segment]) b' fs'"
    and rest: "\<forall>p. p \<noteq> spill_path_of dir xid \<longrightarrow> fs_files fs' p = fs_files fs p" and faulty: "fs_faulty fs' = fs_faulty fs"
    by blast
  define q' where "q' = q\<lparr>bq_spills := bt_insert xid b' (bq_spills q)\<rparr>"
  have slots: "slot_holds dir x ((held(xid := held xid @ [segment])) x) (map_of (bq_spills q') x) fs'" for x
  proof (cases "x = xid")
    case True
    then show ?thesis using holds' by (simp add: q'_def map_of_bt_insert [OF bt])
  next
    case False
    then have "fs_files fs' (spill_path_of dir x) = fs_files fs (spill_path_of dir x)" using rest by simp
    from slot_holds_other [OF at this] show ?thesis using False by (simp add: q'_def map_of_bt_insert [OF bt])
  qed
  have "bq_spill_directory q' = dir" "bt_invar (bq_spills q')" "bq_sender q' = bq_sender q"
    by (simp_all add: q'_def dir_def bt_invar_insert [OF bt])
  moreover have "spill_segment xid segment q fs = (Ok (), q', fs')" by (simp add: spill_segment_def b push q'_def)
  moreover have "\<forall>p. \<not> fs_faulty fs' p" using ok by (simp add: faulty)
  ultimately show ?thesis using slots unfolding spill_inv_def dir_def by (intro exI [of _ q'] exI [of _ fs']) simp
qed

lemma drain_holds:
  assumes inv: "spill_inv held q fs"
  shows "\<exists>q' fs'. drain_spilled_on_commit xid q fs = (Ok (held xid), q', fs')
    \<and> fs_files fs' (spill_path_of (bq_spill_directory q) xid) = None \<and> map_of (bq_spills q') xid = None"
proof -
  have bt: "bt_invar (bq_spills q)" and ok: "\<And>p. \<not> fs_faulty fs p"
    and at: "slot_holds (bq_spill_directory q) xid (held xid) (map_of (bq_spills q) xid) fs" using inv by (simp_all add: spill_inv_def)
  show ?thesis
  proof (cases "map_of (bq_spills q) xid")
    case None
    then show ?thesis using at by (simp add: drain_spilled_on_commit_def)
  next
    case (Some b)
    then have "buffer_holds (bq_spill_directory q) xid (held xid) b fs" using at by simp
    then obtain segs where segs: "sb_path b = spill_path_of (bq_spill_directory q) xid" "held xid = sb_memory b @ segs"
      "sb_spilled b = length segs" "list_all (\<lambda>s. length s < 2 ^ 32) segs"
      "fs_files fs (spill_path_of (bq_spill_directory q) xid) = (if segs = [] then None else Some (concat (map encode_segment segs)))"
      unfolding buffer_holds_def by metis
    show ?thesis
    proof (cases "segs = []")
      case True
      then show ?thesis using Some segs by (simp add: drain_spilled_on_commit_def spill_drain_def map_of_bt_remove [OF bt])
    next
      case False
      then show ?thesis using Some segs ok read_segments_encoded [OF segs(4)]
        by (simp add: drain_spilled_on_commit_def spill_drain_def map_of_bt_remove [OF bt])
    qed
  qed
qed

text \<open>What the channel refuses, in order.\<close>

fun refused :: "('c \<Rightarrow> string \<Rightarrow> send_outcome \<times> 'c) \<Rightarrow> 'c \<Rightarrow> (u32 \<times> string) list \<Rightarrow> (u32 \<times> string) list" where
  "refused try_send c [] = []"
| "refused try_send c ((xid, segment) # segs) =
     (case try_send c segment of
        (Sent, c') \<Rightarrow> refused try_send c' segs
      | (_, c') \<Rightarrow> (xid, segment) # refused try_send c' segs)"

lemma push_all_inv:
  assumes open_: "\<And>c s. fst (try_send c s) \<in> {Sent, ChannelFull}"
  shows "spill_inv held q fs \<Longrightarrow> list_all (\<lambda>(x, s). length s < 2 ^ 32) segs \<Longrightarrow>
    \<exists>q' fs'. push_all try_send segs q fs = (Ok (), q', fs') \<and> bq_spill_directory q' = bq_spill_directory q
      \<and> spill_inv (\<lambda>x. held x @ map snd (filter (\<lambda>(y, s). y = x) (refused try_send (bq_sender q) segs))) q' fs'"
proof (induction segs arbitrary: held q fs)
  case (Cons xs segs)
  obtain xid segment where xs: "xs = (xid, segment)" by (cases xs)
  obtain r c where send: "try_send (bq_sender q) segment = (r, c)" by (cases "try_send (bq_sender q) segment")
  have len: "length segment < 2 ^ 32" "list_all (\<lambda>(x, s). length s < 2 ^ 32) segs" using Cons.prems(2) by (simp_all add: xs)
  have inv: "spill_inv held (q\<lparr>bq_sender := c\<rparr>) fs" using Cons.prems(1) by (simp add: spill_inv_def)
  have "r = Sent \<or> r = ChannelFull" using open_ [of "bq_sender q" segment] by (simp add: send)
  then show ?case
  proof
    assume r: "r = Sent"
    show ?thesis using Cons.IH [OF inv len(2)] by (simp add: xs push_stream_segment_def send r)
  next
    assume r: "r = ChannelFull"
    obtain q' fs' where seg: "spill_segment xid segment (q\<lparr>bq_sender := c\<rparr>) fs = (Ok (), q', fs')"
      and inv': "spill_inv (held(xid := held xid @ [segment])) q' fs'" and sender: "bq_sender q' = c"
      and dir: "bq_spill_directory q' = bq_spill_directory q"
      using spill_segment_inv [OF inv len(1), of xid] by auto
    have eq: "(\<lambda>x. (held(xid := held xid @ [segment])) x @ map snd (filter (\<lambda>(y, s). y = x) (refused try_send c segs)))
      = (\<lambda>x. held x @ map snd (filter (\<lambda>(y, s). y = x) ((xid, segment) # refused try_send c segs)))"
      by (auto simp: fun_eq_iff)
    show ?thesis using Cons.IH [OF inv' len(2)] unfolding sender eq by (simp add: xs push_stream_segment_def send r seg dir)
  qed
qed simp

section \<open>Properties\<close>

text \<open>C22: Pushing the segments of any number of transactions through a full or open channel never fails on a
  sound file system without left-over spill files.  When a transaction commits, draining it returns
  exactly those of its segments that the channel refused, in order, whether they were kept in memory
  or in its file, and removes the file.\<close>
theorem spilled_segments_drained:
  assumes "\<And>c s. fst (try_send c s) \<in> {Sent, ChannelFull}" and "\<And>p. \<not> fs_faulty fs p"
    and "\<And>x. fs_files fs (spill_path_of dir x) = None" and "list_all (\<lambda>(x, s). length s < 2 ^ 32) segs"
  shows "\<exists>q fs' q' fs''. push_all try_send segs (queue_new c capacity dir) fs = (Ok (), q, fs')
    \<and> drain_spilled_on_commit xid q fs' = (Ok (map snd (filter (\<lambda>(x, s). x = xid) (refused try_send c segs))), q', fs'')
    \<and> fs_files fs'' (spill_path_of dir xid) = None"
proof -
  have "spill_inv (\<lambda>_. []) (queue_new c capacity dir) fs" using assms(2,3) by (simp add: spill_inv_def queue_new_def)
  from push_all_inv [of try_send, OF assms(1) this assms(4)] obtain q fs' where push: "push_all try_send segs (queue_new c capacity dir) fs = (Ok (), q, fs')"
    and dir: "bq_spill_directory q = dir"
    and inv: "spill_inv (\<lambda>x. map snd (filter (\<lambda>(y, s). y = x) (refused try_send c segs))) q fs'"
    by (auto simp: queue_new_def)
  from drain_holds [OF inv, of xid] show ?thesis using push dir by auto
qed

text \<open>A channel with room for \<open>n\<close> segments.\<close>

definition room_channel :: "nat \<Rightarrow> string \<Rightarrow> send_outcome \<times> nat" where
  "room_channel n segment = (case n of 0 \<Rightarrow> (ChannelFull, 0) | Suc m \<Rightarrow> (Sent, m))"

theorem spilled_segments_drained_witness:
  "\<exists>q fs' q' fs''.
     push_all room_channel [(7, ''a''), (7, ''b''), (8, ''c''), (7, ''d''), (7, ''e'')] (queue_new 1 1 ''spill'')
       \<lparr>fs_files = Map.empty, fs_faulty = \<lambda>_. False\<rparr> = (Ok (), q, fs')
     \<and> drain_spilled_on_commit 7 q fs' = (Ok [''b'', ''d'', ''e''], q', fs'')
     \<and> fs_files fs'' (spill_path_of ''spill'' 7) = None"
  using spilled_segments_drained [of room_channel "\<lparr>fs_files = Map.empty, fs_faulty = \<lambda>_. False\<rparr>" "''spill''"
      "[(7, ''a''), (7, ''b''), (8, ''c''), (7, ''d''), (7, ''e'')]" 1 1 7]
  by (simp add: room_channel_def split: nat.splits)

text \<open>A file that an earlier process left behind is taken for the transaction's own: its segments are drained
  between those in memory and those spilled now.\<close>

lemma stale_spill_drained:
  assumes "fs_files fs (spill_path_of dir xid) = Some (encode_segment old)" "\<And>p. \<not> fs_faulty fs p"
    "length old < 2 ^ 32" "length new < 2 ^ 32"
  shows "\<exists>q fs' q' fs''. push_all room_channel [(xid, new)] (queue_new 0 0 dir) fs = (Ok (), q, fs')
    \<and> drain_spilled_on_commit xid q fs' = (Ok [old, new], q', fs'')"
  using assms read_segments_encoded [of "[old, new]"]
  by (simp add: push_stream_segment_def room_channel_def queue_new_def spill_segment_def spill_new_def spill_push_def
      file_content_def drain_spilled_on_commit_def spill_drain_def Let_def encode_segment_def)

text \<open>When the consumer makes room between two segments of one transaction, the later one is sent while the
  earlier one stays spilled until the commit, so the consumer receives them in the wrong order.\<close>

fun scripted_channel :: "send_outcome list \<times> string list \<Rightarrow> string \<Rightarrow> send_outcome \<times> send_outcome list \<times> string list" where
  "scripted_channel ([], sent) s = (ChannelFull, [], sent)"
| "scripted_channel (r # rs, sent) s = (r, rs, if r = Sent then sent @ [s] else sent)"

lemma later_segment_overtakes:
  assumes "\<And>p. \<not> fs_faulty fs p"
  shows "\<exists>q fs'. push_all scripted_channel [(7, ''first''), (7, ''second'')] (queue_new ([ChannelFull, Sent], []) 1 dir) fs = (Ok (), q, fs')
    \<and> snd (bq_sender q) = [''second''] \<and> fst (drain_spilled_on_commit 7 q fs') = Ok [''first'']"
  using assms
  by (simp add: push_stream_segment_def queue_new_def spill_segment_def spill_new_def spill_push_def
      drain_spilled_on_commit_def spill_drain_def)

end
