(* ===== verification/Merge_Batcher.thy ===== *)
theory Merge_Batcher
  imports Dataflow_State
begin

text \<open>
  The batcher that turns unordered updates into consolidated batches
  (\<^verbatim>\<open>palimpsest-dataflow/src/trace/implementations/merge_batcher.rs\<close>): chains of sorted chunks of geometric sizes,
  merged pairwise, and split by time when a batch is sealed.  An update is a key, the pair of data and
  time, with a weight.  The chunker that consolidates the input is a parameter that yields chunks, and the
  test whether a time lies beyond the upper frontier is a predicate.  The stash only recycles allocations;
  the capacity of the \<open>n\<close>-th output chunk is \<open>cap n\<close>.
\<close>

section \<open>Merging two chains\<close>

definition push_and_add :: "'k \<times> 'r \<Rightarrow> 'k \<times> 'r::comm_monoid_add \<Rightarrow> ('k, 'r) weighted \<Rightarrow> ('k, 'r) weighted" where
  "push_and_add x y result = (let d = snd x + snd y in if d \<noteq> 0 then result @ [(fst x, d)] else result)"

text \<open>The inner loop, until the result is full or a head is used up.\<close>

fun merge_run ::
    "nat \<Rightarrow> ('k::linorder, 'r::comm_monoid_add) weighted \<Rightarrow> ('k, 'r) weighted \<Rightarrow> ('k, 'r) weighted
       \<Rightarrow> ('k, 'r) weighted \<times> ('k, 'r) weighted \<times> ('k, 'r) weighted" where
  "merge_run c (x # xs) (y # ys) result =
     (if length result < c
      then if fst x < fst y then merge_run c xs (y # ys) (result @ [x])
           else if fst y < fst x then merge_run c (x # xs) ys (result @ [y])
           else merge_run c xs ys (push_and_add x y result)
      else (result, x # xs, y # ys))"
| "merge_run c [] head2 result = (result, [], head2)"
| "merge_run c head1 [] result = (result, head1, [])"

definition flush_full :: "(nat \<Rightarrow> nat) \<Rightarrow> 'a list \<Rightarrow> 'a list list \<Rightarrow> 'a list \<times> 'a list list" where
  "flush_full cap result out = (if length result \<ge> cap (length out) then ([], out @ [result]) else (result, out))"

text \<open>\<^verbatim>\<open>list.next().unwrap_or_default()\<close> once the head is used up.\<close>

definition refill :: "'a list \<Rightarrow> 'a list list \<Rightarrow> 'a list \<times> 'a list list" where
  "refill head chunks = (if head = [] then (case chunks of [] \<Rightarrow> ([], []) | c # cs \<Rightarrow> (c, cs)) else (head, chunks))"

partial_function (option) merge_outer ::
    "(nat \<Rightarrow> nat) \<Rightarrow> ('k::linorder, 'r::comm_monoid_add) weighted \<Rightarrow> ('k, 'r) weighted list \<Rightarrow> ('k, 'r) weighted \<Rightarrow> ('k, 'r) weighted list
       \<Rightarrow> ('k, 'r) weighted \<Rightarrow> ('k, 'r) weighted list
       \<Rightarrow> (('k, 'r) weighted \<times> ('k, 'r) weighted list \<times> ('k, 'r) weighted \<times> ('k, 'r) weighted list
           \<times> ('k, 'r) weighted \<times> ('k, 'r) weighted list) option" where
  "merge_outer cap head1 list1 head2 list2 result out =
     (if head1 \<noteq> [] \<and> head2 \<noteq> []
      then (case merge_run (cap (length out)) head1 head2 result of
              (result', h1, h2) \<Rightarrow>
                (case flush_full cap result' out of
                   (result'', out') \<Rightarrow>
                     (case refill h1 list1 of
                        (h1', l1) \<Rightarrow>
                          (case refill h2 list2 of
                             (h2', l2) \<Rightarrow> merge_outer cap h1' l1 h2' l2 result'' out'))))
      else Some (head1, list1, head2, list2, result, out))"

fun drain_head :: "(nat \<Rightarrow> nat) \<Rightarrow> 'a list \<Rightarrow> 'a list \<Rightarrow> 'a list list \<Rightarrow> 'a list \<times> 'a list list" where
  "drain_head cap [] result out = (result, out)"
| "drain_head cap (x # xs) result out =
     (case flush_full cap (result @ [x]) out of (result', out') \<Rightarrow> drain_head cap xs result' out')"

definition flush_rest :: "'a list \<Rightarrow> 'a list list \<Rightarrow> 'a list list" where
  "flush_rest result out = (if result \<noteq> [] then out @ [result] else out)"

definition merge_tail ::
    "(nat \<Rightarrow> nat) \<Rightarrow> 'a list \<Rightarrow> 'a list list \<Rightarrow> 'a list \<Rightarrow> 'a list list \<Rightarrow> 'a list list" where
  "merge_tail cap head chunks result out = (case drain_head cap head result out of (r, out') \<Rightarrow> flush_rest r out' @ chunks)"

definition merge_by ::
    "(nat \<Rightarrow> nat) \<Rightarrow> ('k::linorder, 'r::comm_monoid_add) weighted list \<Rightarrow> ('k, 'r) weighted list \<Rightarrow> ('k, 'r) weighted list option" where
  "merge_by cap list1 list2 =
     (case refill [] list1 of (h1, l1) \<Rightarrow> case refill [] list2 of (h2, l2) \<Rightarrow>
        map_option (\<lambda>(h1, l1, h2, l2, result, out). merge_tail cap h2 l2 [] (merge_tail cap h1 l1 result out))
          (merge_outer cap h1 l1 h2 l2 [] []))"

section \<open>The batcher\<close>

text \<open>The chains, the last one first.\<close>

record ('k, 'r) merge_batcher =
  mb_chains :: "('k, 'r) weighted list list"

definition batcher_new :: "('k, 'r) merge_batcher" where
  "batcher_new = \<lparr>mb_chains = []\<rparr>"

text \<open>The loop of \<^verbatim>\<open>insert_chain\<close>; it ends because every round leaves one chain less.\<close>

function settle_chains ::
    "(nat \<Rightarrow> nat) \<Rightarrow> ('k::linorder, 'r::comm_monoid_add) weighted list list \<Rightarrow> ('k, 'r) weighted list list option" where
  "settle_chains cap (c1 # c2 # cs) =
     (if length c1 \<ge> length c2 div 2
      then (case merge_by cap c1 c2 of None \<Rightarrow> None | Some merged \<Rightarrow> settle_chains cap (merged # cs))
      else Some (c1 # c2 # cs))"
| "settle_chains cap [c] = Some [c]"
| "settle_chains cap [] = Some []"
  by pat_completeness auto
termination by (relation "measure (\<lambda>(cap, cs). length cs)") auto

definition insert_chain ::
    "(nat \<Rightarrow> nat) \<Rightarrow> ('k::linorder, 'r::comm_monoid_add) weighted list \<Rightarrow> ('k, 'r) merge_batcher \<Rightarrow> ('k, 'r) merge_batcher option" where
  "insert_chain cap chain b =
     (if chain \<noteq> [] then map_option (\<lambda>cs. b\<lparr>mb_chains := cs\<rparr>) (settle_chains cap (chain # mb_chains b)) else Some b)"

text \<open>The chunks that \<^verbatim>\<open>push_container\<close> gets from the chunker.\<close>

fun insert_chunks ::
    "(nat \<Rightarrow> nat) \<Rightarrow> ('k::linorder, 'r::comm_monoid_add) weighted list \<Rightarrow> ('k, 'r) merge_batcher \<Rightarrow> ('k, 'r) merge_batcher option" where
  "insert_chunks cap [] b = Some b"
| "insert_chunks cap (c # cs) b = Option.bind (insert_chain cap [c] b) (insert_chunks cap cs)"

function merge_all ::
    "(nat \<Rightarrow> nat) \<Rightarrow> ('k::linorder, 'r::comm_monoid_add) weighted list list \<Rightarrow> ('k, 'r) weighted list option" where
  "merge_all cap (c1 # c2 # cs) = (case merge_by cap c1 c2 of None \<Rightarrow> None | Some merged \<Rightarrow> merge_all cap (merged # cs))"
| "merge_all cap [c] = Some c"
| "merge_all cap [] = Some []"
  by pat_completeness auto
termination by (relation "measure (\<lambda>(cap, cs). length cs)") auto

text \<open>One item of \<^verbatim>\<open>extract\<close> goes to a chunk that is replaced when it is full.\<close>

definition push_item :: "(nat \<Rightarrow> nat) \<Rightarrow> 'a \<Rightarrow> 'a list \<times> 'a list list \<Rightarrow> 'a list \<times> 'a list list" where
  "push_item cap x = (\<lambda>(chunk, out).
     if length chunk \<ge> cap (length out) \<and> chunk \<noteq> [] then ([x], out @ [chunk]) else (chunk @ [x], out))"

fun extract_items ::
    "(nat \<Rightarrow> nat) \<Rightarrow> ('a \<Rightarrow> bool) \<Rightarrow> 'a list \<Rightarrow> 'a list \<times> 'a list list \<Rightarrow> 'a list \<times> 'a list list
       \<Rightarrow> ('a list \<times> 'a list list) \<times> ('a list \<times> 'a list list)" where
  "extract_items cap time_kept [] keep ready = (keep, ready)"
| "extract_items cap time_kept (x # xs) keep ready =
     (if time_kept x then extract_items cap time_kept xs (push_item cap x keep) ready
      else extract_items cap time_kept xs keep (push_item cap x ready))"

definition extract_chunks :: "(nat \<Rightarrow> nat) \<Rightarrow> ('a \<Rightarrow> bool) \<Rightarrow> 'a list list \<Rightarrow> 'a list list \<times> 'a list list" where
  "extract_chunks cap time_kept merged =
     (case extract_items cap time_kept (concat merged) ([], []) ([], []) of
        ((keep, kept), (ready, readied)) \<Rightarrow> (flush_rest keep kept, flush_rest ready readied))"

text \<open>\<^verbatim>\<open>seal\<close>, with the chunks that the chunker still held; the result is the input of the builder.\<close>

definition seal ::
    "(nat \<Rightarrow> nat) \<Rightarrow> ('t \<Rightarrow> bool) \<Rightarrow> ('d::linorder \<times> 't::linorder, 'r::comm_monoid_add) weighted list
       \<Rightarrow> ('d \<times> 't, 'r) merge_batcher \<Rightarrow> (('d \<times> 't, 'r) weighted list \<times> ('d \<times> 't, 'r) merge_batcher) option" where
  "seal cap beyond finished b =
     Option.bind (insert_chunks cap finished b) (\<lambda>b'.
     Option.bind (merge_all cap (mb_chains b')) (\<lambda>merged.
       case extract_chunks cap (\<lambda>x. beyond (snd (fst x))) merged of
         (kept, readied) \<Rightarrow> Some (readied, \<lparr>mb_chains = (if kept \<noteq> [] then [kept] else [])\<rparr>)))"

section \<open>Merging chunks is merging lists\<close>

fun merge_items :: "('k::linorder, 'r::comm_monoid_add) weighted \<Rightarrow> ('k, 'r) weighted \<Rightarrow> ('k, 'r) weighted" where
  "merge_items (x # xs) (y # ys) =
     (if fst x < fst y then x # merge_items xs (y # ys)
      else if fst y < fst x then y # merge_items (x # xs) ys
      else push_and_add x y [] @ merge_items xs ys)"
| "merge_items [] ys = ys"
| "merge_items xs [] = xs"

lemma merge_items_Nil [simp]: "merge_items xs [] = xs"
  by (cases xs) simp_all

lemma push_and_add_append: "push_and_add x y result = result @ push_and_add x y []"
  by (simp add: push_and_add_def Let_def)

lemma merge_run_spec:
  "merge_run c h1 h2 result = (result', h1', h2') \<Longrightarrow>
     result @ merge_items (h1 @ t1) (h2 @ t2) = result' @ merge_items (h1' @ t1) (h2' @ t2)
     \<and> (h1' = [] \<or> h2' = [] \<or> c \<le> length result') \<and> length h1' + length h2' \<le> length h1 + length h2"
proof (induction c h1 h2 result arbitrary: result' h1' h2' rule: merge_run.induct)
  case (1 c x xs y ys result)
  consider "\<not> length result < c" | "length result < c" "fst x < fst y" | "length result < c" "fst y < fst x"
    | "length result < c" "\<not> fst x < fst y" "\<not> fst y < fst x" by blast
  then show ?case
  proof cases
    case 1
    then show ?thesis using "1.prems" by auto
  next
    case 2
    then show ?thesis using "1.IH"(1) [OF 2, of result' h1' h2'] "1.prems" by auto
  next
    case 3
    then have "\<not> fst x < fst y" by simp
    then show ?thesis using "1.IH"(2) [OF 3(1) _ 3(2), of result' h1' h2'] "1.prems" 3 by auto
  next
    case 4
    have "push_and_add x y result @ merge_items (xs @ t1) (ys @ t2) = result @ merge_items ((x # xs) @ t1) ((y # ys) @ t2)"
      using 4 push_and_add_append [of x y result] by simp
    then show ?thesis using "1.IH"(3) [OF 4, of result' h1' h2'] "1.prems" 4 by auto
  qed
qed auto

lemma merge_run_progress:
  assumes "merge_run c h1 h2 result = (result', h1', h2')" "length result < c" "h1 \<noteq> []" "h2 \<noteq> []"
  shows "length h1' + length h2' < length h1 + length h2"
proof -
  obtain x xs y ys where h: "h1 = x # xs" "h2 = y # ys" using assms(3,4) by (meson neq_Nil_conv)
  obtain g1 g2 r where step: "merge_run c g1 g2 r = (result', h1', h2')" "length g1 + length g2 < length h1 + length h2"
  proof (cases "fst x < fst y")
    case True
    then show ?thesis using that [of xs "y # ys" "result @ [x]"] assms(1,2) h by simp
  next
    case False
    then show ?thesis using that [of "x # xs" ys "result @ [y]"] that [of xs ys "push_and_add x y result"] assms(1,2) h
      by (cases "fst y < fst x") simp_all
  qed
  then show ?thesis using merge_run_spec [OF step(1), of "[]" "[]"] by simp
qed

text \<open>No chunk is empty.\<close>

definition chunks_ok :: "'a list list \<Rightarrow> bool" where
  "chunks_ok cs = list_all (\<lambda>c. c \<noteq> []) cs"

lemma chunks_ok_simps [simp]:
  "chunks_ok []" "chunks_ok (c # cs) \<longleftrightarrow> c \<noteq> [] \<and> chunks_ok cs" "chunks_ok (cs @ ds) \<longleftrightarrow> chunks_ok cs \<and> chunks_ok ds"
  by (auto simp: chunks_ok_def)

lemma refill_spec:
  "chunks_ok chunks \<Longrightarrow> refill head chunks = (h, cs) \<Longrightarrow>
     h @ concat cs = head @ concat chunks \<and> chunks_ok cs \<and> (h = [] \<longrightarrow> cs = [])"
  by (auto simp: refill_def split: if_splits list.splits)

lemma flush_full_spec:
  assumes "\<And>n. 0 < cap n" "chunks_ok out" "flush_full cap result out = (r, out')"
  shows "concat out' @ r = concat out @ result \<and> chunks_ok out' \<and> length r < cap (length out')"
proof (cases "length result \<ge> cap (length out)")
  case True
  then have "result \<noteq> []" using assms(1) [of "length out"] by auto
  then show ?thesis using True assms by (auto simp: flush_full_def)
next
  case False
  then show ?thesis using assms by (auto simp: flush_full_def)
qed

lemma drain_head_spec:
  assumes "\<And>n. 0 < cap n"
  shows "chunks_ok out \<Longrightarrow> drain_head cap head result out = (r, out') \<Longrightarrow>
    concat out' @ r = concat out @ result @ head \<and> chunks_ok out'"
proof (induction head arbitrary: result out)
  case (Cons x xs)
  obtain r1 out1 where fl: "flush_full cap (result @ [x]) out = (r1, out1)" by (cases "flush_full cap (result @ [x]) out")
  note F = flush_full_spec [OF assms Cons.prems(1) fl]
  have "concat out' @ r = (concat out1 @ r1) @ xs \<and> chunks_ok out'"
    using Cons.IH [of out1 r1] F Cons.prems(2) by (simp add: fl)
  then show ?case using F by simp
qed simp

lemma merge_tail_spec:
  assumes "\<And>n. 0 < cap n" "chunks_ok out" "chunks_ok chunks"
  shows "concat (merge_tail cap head chunks result out) = concat out @ result @ head @ concat chunks
    \<and> chunks_ok (merge_tail cap head chunks result out)"
proof -
  obtain r out' where dr: "drain_head cap head result out = (r, out')" by (cases "drain_head cap head result out")
  note D = drain_head_spec [OF assms(1,2) dr]
  have "concat (flush_rest r out') = concat out' @ r" "chunks_ok (flush_rest r out')" using D by (auto simp: flush_rest_def)
  then show ?thesis using D assms(3) by (simp add: merge_tail_def dr)
qed

lemma merge_outer_spec:
  assumes cap: "\<And>n. 0 < cap n"
  shows "chunks_ok l1 \<Longrightarrow> chunks_ok l2 \<Longrightarrow> chunks_ok out \<Longrightarrow> (h1 = [] \<longrightarrow> l1 = []) \<Longrightarrow> (h2 = [] \<longrightarrow> l2 = []) \<Longrightarrow>
    length result < cap (length out) \<Longrightarrow>
    \<exists>h1' l1' h2' l2' r out'. merge_outer cap h1 l1 h2 l2 result out = Some (h1', l1', h2', l2', r, out')
      \<and> concat out @ result @ merge_items (h1 @ concat l1) (h2 @ concat l2)
        = concat out' @ r @ merge_items (h1' @ concat l1') (h2' @ concat l2')
      \<and> (h1' = [] \<and> l1' = [] \<or> h2' = [] \<and> l2' = []) \<and> chunks_ok l1' \<and> chunks_ok l2' \<and> chunks_ok out'"
proof (induction "length h1 + length (concat l1) + length h2 + length (concat l2)" arbitrary: h1 l1 h2 l2 result out rule: less_induct)
  case less
  show ?case
  proof (cases "h1 \<noteq> [] \<and> h2 \<noteq> []")
    case False
    have "merge_outer cap h1 l1 h2 l2 result out = Some (h1, l1, h2, l2, result, out)"
      by (subst merge_outer.simps) (use False in auto)
    then show ?thesis using False less.prems by auto
  next
    case True
    obtain r1 g1 g2 where run: "merge_run (cap (length out)) h1 h2 result = (r1, g1, g2)"
      by (cases "merge_run (cap (length out)) h1 h2 result") auto
    obtain r2 out2 where fl: "flush_full cap r1 out = (r2, out2)" by (cases "flush_full cap r1 out")
    obtain k1 m1 where f1: "refill g1 l1 = (k1, m1)" by (cases "refill g1 l1")
    obtain k2 m2 where f2: "refill g2 l2 = (k2, m2)" by (cases "refill g2 l2")
    have step: "merge_outer cap h1 l1 h2 l2 result out = merge_outer cap k1 m1 k2 m2 r2 out2"
      by (subst merge_outer.simps) (simp add: True run fl f1 f2)
    note R = merge_run_spec [OF run, of "concat l1" "concat l2"] and P = merge_run_progress [OF run less.prems(6)]
    note F = flush_full_spec [OF cap less.prems(3) fl]
    note F1 = refill_spec [OF less.prems(1) f1] and F2 = refill_spec [OF less.prems(2) f2]
    have l1: "length k1 + length (concat m1) = length g1 + length (concat l1)"
      and l2: "length k2 + length (concat m2) = length g2 + length (concat l2)"
      using arg_cong [OF F1 [THEN conjunct1], of length] arg_cong [OF F2 [THEN conjunct1], of length] by simp_all
    have smaller: "length k1 + length (concat m1) + length k2 + length (concat m2)
        < length h1 + length (concat l1) + length h2 + length (concat l2)"
      using P True l1 l2 by simp
    have items: "concat out @ result @ merge_items (h1 @ concat l1) (h2 @ concat l2)
        = concat out2 @ r2 @ merge_items (k1 @ concat m1) (k2 @ concat m2)"
    proof -
      have "concat out @ result @ merge_items (h1 @ concat l1) (h2 @ concat l2)
          = (concat out @ r1) @ merge_items (g1 @ concat l1) (g2 @ concat l2)" using R by simp
      also have "\<dots> = (concat out2 @ r2) @ merge_items (k1 @ concat m1) (k2 @ concat m2)" using F F1 F2 by simp
      finally show ?thesis by simp
    qed
    have "\<exists>h1' l1' h2' l2' r out'. merge_outer cap k1 m1 k2 m2 r2 out2 = Some (h1', l1', h2', l2', r, out')
      \<and> concat out2 @ r2 @ merge_items (k1 @ concat m1) (k2 @ concat m2)
        = concat out' @ r @ merge_items (h1' @ concat l1') (h2' @ concat l2')
      \<and> (h1' = [] \<and> l1' = [] \<or> h2' = [] \<and> l2' = []) \<and> chunks_ok l1' \<and> chunks_ok l2' \<and> chunks_ok out'"
      by (rule less.hyps [OF smaller]) (use F F1 F2 in simp_all)
    then show ?thesis unfolding step items .
  qed
qed

lemma merge_by_spec:
  assumes cap: "\<And>n. 0 < cap n" and ok: "chunks_ok list1" "chunks_ok list2"
  shows "\<exists>merged. merge_by cap list1 list2 = Some merged \<and> chunks_ok merged \<and> concat merged = merge_items (concat list1) (concat list2)"
proof -
  obtain h1 l1 where f1: "refill [] list1 = (h1, l1)" by (cases "refill [] list1")
  obtain h2 l2 where f2: "refill [] list2 = (h2, l2)" by (cases "refill [] list2")
  note F1 = refill_spec [OF ok(1) f1] and F2 = refill_spec [OF ok(2) f2]
  have "\<exists>h1' l1' h2' l2' r out'. merge_outer cap h1 l1 h2 l2 [] [] = Some (h1', l1', h2', l2', r, out')
      \<and> concat [] @ [] @ merge_items (h1 @ concat l1) (h2 @ concat l2)
        = concat out' @ r @ merge_items (h1' @ concat l1') (h2' @ concat l2')
      \<and> (h1' = [] \<and> l1' = [] \<or> h2' = [] \<and> l2' = []) \<and> chunks_ok l1' \<and> chunks_ok l2' \<and> chunks_ok out'"
    by (rule merge_outer_spec [OF cap]) (use F1 F2 cap in simp_all)
  then obtain h1' l1' h2' l2' r out' where outer: "merge_outer cap h1 l1 h2 l2 [] [] = Some (h1', l1', h2', l2', r, out')"
    and items: "merge_items (concat list1) (concat list2) = concat out' @ r @ merge_items (h1' @ concat l1') (h2' @ concat l2')"
    and one: "h1' = [] \<and> l1' = [] \<or> h2' = [] \<and> l2' = []" and ok': "chunks_ok l1'" "chunks_ok l2'" "chunks_ok out'"
    using F1 F2 by auto
  define m where "m = merge_tail cap h2' l2' [] (merge_tail cap h1' l1' r out')"
  note T1 = merge_tail_spec [of cap, OF cap ok'(3,1), where head = h1' and result = r]
  note T2 = merge_tail_spec [of cap, OF cap T1 [THEN conjunct2] ok'(2), where head = h2' and result = "[]", folded m_def]
  have "concat m = concat out' @ r @ (h1' @ concat l1') @ h2' @ concat l2'" using T1 T2 by simp
  moreover have "(h1' @ concat l1') @ h2' @ concat l2' = merge_items (h1' @ concat l1') (h2' @ concat l2')" using one by auto
  ultimately have "concat m = merge_items (concat list1) (concat list2)" unfolding items by simp
  moreover have "merge_by cap list1 list2 = Some m" by (simp add: merge_by_def f1 f2 outer m_def)
  ultimately show ?thesis using T2 by blast
qed

section \<open>Canonical lists\<close>

definition canonical :: "('k::linorder, 'r::comm_monoid_add) weighted \<Rightarrow> bool" where
  "canonical zs = (sorted_wrt (<) (map fst zs) \<and> list_all (\<lambda>x. snd x \<noteq> 0) zs)"

lemma canonical_simps [simp]:
  "canonical []" "canonical (x # xs) \<longleftrightarrow> (\<forall>y \<in> set xs. fst x < fst y) \<and> snd x \<noteq> 0 \<and> canonical xs"
  by (auto simp: canonical_def)

lemma canonical_filter: "canonical zs \<Longrightarrow> canonical (filter P zs)"
  by (induction zs) auto

lemma weight_append: "weight (xs @ ys) k = weight xs k + weight ys k"
  by (simp add: weight_def)

lemma weight_Nil [simp]: "weight [] k = 0"
  by (simp add: weight_def)

lemma canonical_weight: "canonical zs \<Longrightarrow> (k, w) \<in> set zs \<Longrightarrow> weight zs k = w"
proof (induction zs)
  case (Cons x zs)
  show ?case
  proof (cases "x = (k, w)")
    case True
    then have "k \<notin> fst ` set zs" using Cons.prems(1) by auto
    then show ?thesis using True by (simp add: weight_Cons weight_absent)
  next
    case False
    then have "(k, w) \<in> set zs" using Cons.prems(2) by simp
    moreover from this have "fst x \<noteq> k" using Cons.prems(1) by auto
    ultimately show ?thesis using Cons by (simp add: weight_Cons)
  qed
qed simp

lemma canonical_keys: "canonical zs \<Longrightarrow> fst ` set zs = {k. weight zs k \<noteq> 0}"
proof
  assume c: "canonical zs"
  show "fst ` set zs \<subseteq> {k. weight zs k \<noteq> 0}"
  proof
    fix k assume "k \<in> fst ` set zs"
    then obtain w where kw: "(k, w) \<in> set zs" by auto
    then have "w \<noteq> 0" using c by (auto simp: canonical_def list_all_iff)
    then show "k \<in> {k. weight zs k \<noteq> 0}" using canonical_weight [OF c kw] by simp
  qed
  show "{k. weight zs k \<noteq> 0} \<subseteq> fst ` set zs"
  proof
    fix k assume "k \<in> {k. weight zs k \<noteq> 0}"
    then show "k \<in> fst ` set zs" using weight_absent [of k zs] by (cases "k \<in> fst ` set zs") simp_all
  qed
qed

lemma canonical_unique:
  assumes c: "canonical zs" and w: "weight zs = weight ws"
  shows "zs = consolidated ws"
proof -
  let ?ks = "filter (\<lambda>k. weight ws k \<noteq> 0) (sorted_list_of_set (fst ` set ws))"
  have "set (map fst zs) = {k. weight ws k \<noteq> 0}" using canonical_keys [OF c] by (simp add: w)
  moreover have "set ?ks = {k. weight ws k \<noteq> 0}" using weight_absent [of _ ws] by auto
  ultimately have "map fst zs = ?ks"
    using c by (intro sorted_distinct_set_unique) (auto simp: canonical_def strict_sorted_iff sorted_filter [where f = id, simplified])
  moreover have "zs = map (\<lambda>k. (k, weight zs k)) (map fst zs)"
    using canonical_weight [OF c] by (auto intro!: nth_equalityI) (metis nth_mem prod.collapse)
  ultimately show ?thesis by (simp add: consolidated_def w)
qed

lemma canonical_consolidated: "canonical (consolidated ws)"
proof -
  have "map fst (consolidated ws) = filter (\<lambda>k. weight ws k \<noteq> 0) (sorted_list_of_set (fst ` set ws))"
    by (simp add: consolidated_def comp_def)
  then have "sorted_wrt (<) (map fst (consolidated ws))"
    by (simp add: strict_sorted_iff sorted_filter [where f = id, simplified])
  then show ?thesis by (auto simp: canonical_def consolidated_def list_all_iff)
qed

lemma weight_merge_items: "weight (merge_items xs ys) k = weight xs k + weight ys k"
proof (induction xs ys rule: merge_items.induct)
  case (1 x xs y ys)
  consider (less) "fst x < fst y" | (greater) "\<not> fst x < fst y" "fst y < fst x" | (equal) "\<not> fst x < fst y" "\<not> fst y < fst x" by blast
  then show ?case
  proof cases
    case less
    show ?thesis using "1.IH"(1) [OF less] by (simp add: less weight_Cons ac_simps)
  next
    case greater
    show ?thesis using "1.IH"(2) [OF greater] by (simp add: greater weight_Cons ac_simps)
  next
    case equal
    then have eq: "fst x = fst y" by simp
    have "weight (push_and_add x y []) k = (if fst x = k then snd x + snd y else 0)"
      by (simp add: push_and_add_def Let_def weight_Cons)
    then show ?thesis using "1.IH"(3) [OF equal] eq by (simp add: weight_append weight_Cons ac_simps)
  qed
qed simp_all

lemma merge_items_keys: "z \<in> set (merge_items xs ys) \<Longrightarrow> fst z \<in> fst ` set xs \<union> fst ` set ys"
  by (induction xs ys rule: merge_items.induct) (auto simp: push_and_add_def Let_def split: if_splits)

lemma canonical_merge_items: "canonical xs \<Longrightarrow> canonical ys \<Longrightarrow> canonical (merge_items xs ys)"
proof (induction xs ys rule: merge_items.induct)
  case (1 x xs y ys)
  consider (less) "fst x < fst y" | (greater) "\<not> fst x < fst y" "fst y < fst x" | (equal) "\<not> fst x < fst y" "\<not> fst y < fst x" by blast
  then show ?case
  proof cases
    case less
    have "fst x < fst z" if "z \<in> set (merge_items xs (y # ys))" for z
      using merge_items_keys [OF that] "1.prems" less by auto
    then show ?thesis using less "1.IH"(1) [OF less] "1.prems" by simp
  next
    case greater
    have "fst y < fst z" if "z \<in> set (merge_items (x # xs) ys)" for z
      using merge_items_keys [OF that] "1.prems" greater by auto
    then show ?thesis using greater "1.IH"(2) [OF greater] "1.prems" by simp
  next
    case equal
    then have eq: "fst x = fst y" by simp
    have "fst x < fst z" if "z \<in> set (merge_items xs ys)" for z
      using merge_items_keys [OF that] "1.prems" eq by auto
    moreover have "canonical (merge_items xs ys)" using "1.IH"(3) [OF equal] "1.prems" by simp
    ultimately show ?thesis using eq by (simp add: push_and_add_def Let_def)
  qed
qed simp_all

section \<open>Chains\<close>

definition chain_ok :: "('k::linorder, 'r::comm_monoid_add) weighted list \<Rightarrow> bool" where
  "chain_ok c \<longleftrightarrow> chunks_ok c \<and> canonical (concat c)"

text \<open>Each chain has fewer chunks than half of the one below.\<close>

fun geometric :: "'a list list \<Rightarrow> bool" where
  "geometric (c1 # c2 # cs) \<longleftrightarrow> length c1 < length c2 div 2 \<and> geometric (c2 # cs)"
| "geometric _ \<longleftrightarrow> True"

lemma geometric_tl: "geometric (c # cs) \<Longrightarrow> geometric cs"
  by (cases cs) auto

lemma merge_by_chain:
  assumes "\<And>n. 0 < cap n" "chain_ok c1" "chain_ok c2"
  shows "\<exists>merged. merge_by cap c1 c2 = Some merged \<and> chain_ok merged
    \<and> (\<forall>k. weight (concat merged) k = weight (concat c1) k + weight (concat c2) k)"
proof -
  have "chunks_ok c1" "chunks_ok c2" "canonical (concat c1)" "canonical (concat c2)"
    using assms(2,3) by (simp_all add: chain_ok_def)
  then show ?thesis using merge_by_spec [of cap c1 c2, OF assms(1)] canonical_merge_items [of "concat c1" "concat c2"]
    by (auto simp: chain_ok_def weight_merge_items)
qed

lemma settle_chains_spec:
  assumes "\<forall>n. 0 < cap n" "list_all chain_ok cs" "geometric (tl cs)"
  shows "\<exists>cs'. settle_chains cap cs = Some cs' \<and> list_all chain_ok cs' \<and> geometric cs'
      \<and> weight (concat (concat cs')) = weight (concat (concat cs))"
  using assms
proof (induction cap cs rule: settle_chains.induct)
  case (1 cap c1 c2 cs)
  show ?case
  proof (cases "length c1 \<ge> length c2 div 2")
    case True
    obtain m where m: "merge_by cap c1 c2 = Some m" "chain_ok m"
      "\<forall>k. weight (concat m) k = weight (concat c1) k + weight (concat c2) k"
      using merge_by_chain [of cap c1 c2] "1.prems" by auto
    have "list_all chain_ok (m # cs)" "geometric (tl (m # cs))" using m(2) "1.prems" geometric_tl by auto
    from "1.IH" [OF True m(1) "1.prems"(1) this] obtain cs' where cs': "settle_chains cap (m # cs) = Some cs'"
      "list_all chain_ok cs'" "geometric cs'" "weight (concat (concat cs')) = weight (concat (concat (m # cs)))" by blast
    have "weight (concat (concat (m # cs))) = weight (concat (concat (c1 # c2 # cs)))"
      using m(3) by (simp add: fun_eq_iff weight_append ac_simps)
    then show ?thesis using cs' True m(1) by simp
  next
    case False
    then show ?thesis using "1.prems" by simp
  qed
qed simp_all

lemma merge_all_spec:
  assumes "\<forall>n. 0 < cap n" "list_all chain_ok cs"
  shows "\<exists>m. merge_all cap cs = Some m \<and> chain_ok m \<and> weight (concat m) = weight (concat (concat cs))"
  using assms
proof (induction cap cs rule: merge_all.induct)
  case (1 cap c1 c2 cs)
  obtain m where m: "merge_by cap c1 c2 = Some m" "chain_ok m"
    "\<forall>k. weight (concat m) k = weight (concat c1) k + weight (concat c2) k"
    using merge_by_chain [of cap c1 c2] "1.prems" by auto
  have "list_all chain_ok (m # cs)" using m(2) "1.prems" by simp
  from "1.IH" [OF m(1) "1.prems"(1) this] obtain m' where m': "merge_all cap (m # cs) = Some m'"
    "chain_ok m'" "weight (concat m') = weight (concat (concat (m # cs)))" by blast
  have "weight (concat (concat (m # cs))) = weight (concat (concat (c1 # c2 # cs)))"
    using m(3) by (simp add: fun_eq_iff weight_append ac_simps)
  then show ?case using m' m(1) by simp
qed (simp_all add: chain_ok_def)

definition batcher_inv :: "('k::linorder, 'r::comm_monoid_add) weighted \<Rightarrow> ('k, 'r) merge_batcher \<Rightarrow> bool" where
  "batcher_inv data b \<longleftrightarrow> list_all chain_ok (mb_chains b) \<and> geometric (mb_chains b)
     \<and> weight (concat (concat (mb_chains b))) = weight data"

text \<open>What the chunker yields: sorted, consolidated chunks.\<close>

definition chunk_ok :: "('k::linorder, 'r::comm_monoid_add) weighted \<Rightarrow> bool" where
  "chunk_ok c \<longleftrightarrow> c \<noteq> [] \<and> canonical c"

lemma insert_chunks_spec:
  assumes cap: "\<And>n. 0 < cap n"
  shows "batcher_inv data b \<Longrightarrow> list_all chunk_ok chunks \<Longrightarrow>
    \<exists>b'. insert_chunks cap chunks b = Some b' \<and> batcher_inv (data @ concat chunks) b'"
proof (induction chunks arbitrary: data b)
  case (Cons c chunks)
  have "list_all chain_ok ([c] # mb_chains b)" "geometric (tl ([c] # mb_chains b))"
    using Cons.prems by (simp_all add: batcher_inv_def chain_ok_def chunk_ok_def)
  from settle_chains_spec [OF _ this, of cap] cap obtain cs where cs: "settle_chains cap ([c] # mb_chains b) = Some cs"
    "list_all chain_ok cs" "geometric cs" "weight (concat (concat cs)) = weight (c @ concat (concat (mb_chains b)))" by auto
  have "weight (concat (concat cs)) = weight (data @ c)"
    using cs(4) Cons.prems(1) by (simp add: batcher_inv_def fun_eq_iff weight_append ac_simps)
  then have "batcher_inv (data @ c) (b\<lparr>mb_chains := cs\<rparr>)" using cs by (simp add: batcher_inv_def)
  from Cons.IH [OF this] show ?case using Cons.prems(2) cs(1) by (simp add: insert_chain_def)
qed simp

section \<open>Sealing\<close>

lemma push_item_spec:
  "chunks_ok (snd co) \<Longrightarrow> concat (snd (push_item cap x co)) @ fst (push_item cap x co) = concat (snd co) @ fst co @ [x]
     \<and> chunks_ok (snd (push_item cap x co))"
  by (auto simp: push_item_def split_beta)

lemma extract_items_spec:
  "chunks_ok (snd keep) \<Longrightarrow> chunks_ok (snd ready) \<Longrightarrow> extract_items cap P xs keep ready = (keep', ready') \<Longrightarrow>
     concat (snd keep') @ fst keep' = concat (snd keep) @ fst keep @ filter P xs \<and> chunks_ok (snd keep')
     \<and> concat (snd ready') @ fst ready' = concat (snd ready) @ fst ready @ filter (\<lambda>x. \<not> P x) xs \<and> chunks_ok (snd ready')"
proof (induction xs arbitrary: keep ready)
  case (Cons x xs)
  note K = push_item_spec [OF Cons.prems(1), of cap x] and R = push_item_spec [OF Cons.prems(2), of cap x]
  show ?case
  proof (cases "P x")
    case True
    from Cons.IH [OF K [THEN conjunct2] Cons.prems(2)] show ?thesis using Cons.prems(3) True K
      by (simp add: append_assoc [symmetric] del: append_assoc)
  next
    case False
    from Cons.IH [OF Cons.prems(1) R [THEN conjunct2]] show ?thesis using Cons.prems(3) False R
      by (simp add: append_assoc [symmetric] del: append_assoc)
  qed
qed simp

lemma flush_rest_spec: "concat (flush_rest chunk out) = concat out @ chunk \<and> (chunks_ok out \<longrightarrow> chunks_ok (flush_rest chunk out))"
  by (simp add: flush_rest_def)

lemma extract_spec:
  assumes "extract_chunks cap P merged = (kept, readied)"
  shows "concat kept = filter P (concat merged) \<and> chunks_ok kept
    \<and> concat readied = filter (\<lambda>x. \<not> P x) (concat merged) \<and> chunks_ok readied"
proof -
  obtain kp ko rp ro where e: "extract_items cap P (concat merged) ([], []) ([], []) = ((kp, ko), (rp, ro))"
    by (metis prod.exhaust)
  have "kept = flush_rest kp ko" "readied = flush_rest rp ro" using assms by (simp_all add: extract_chunks_def e)
  then show ?thesis using extract_items_spec [OF _ _ e] flush_rest_spec [of kp ko] flush_rest_spec [of rp ro] by simp
qed

lemma seal_spec:
  assumes cap: "\<And>n. 0 < cap n" and inv: "batcher_inv data b" and ok: "list_all chunk_ok finished"
  shows "\<exists>readied b'. seal cap beyond finished b = Some (readied, b') \<and> chunks_ok readied
    \<and> concat readied = filter (\<lambda>x. \<not> beyond (snd (fst x))) (consolidated (data @ concat finished))
    \<and> batcher_inv (filter (\<lambda>x. beyond (snd (fst x))) (consolidated (data @ concat finished))) b'"
proof -
  obtain b1 where b1: "insert_chunks cap finished b = Some b1" "batcher_inv (data @ concat finished) b1"
    using insert_chunks_spec [of cap, OF cap inv ok] by blast
  obtain m where m: "merge_all cap (mb_chains b1) = Some m" "chain_ok m" "weight (concat m) = weight (data @ concat finished)"
    using merge_all_spec [of cap "mb_chains b1"] cap b1(2) by (auto simp: batcher_inv_def)
  have all: "concat m = consolidated (data @ concat finished)"
    using m(2,3) by (intro canonical_unique) (simp_all add: chain_ok_def)
  obtain kept readied where e: "extract_chunks cap (\<lambda>x. beyond (snd (fst x))) m = (kept, readied)"
    by (cases "extract_chunks cap (\<lambda>x. beyond (snd (fst x))) m")
  note E = extract_spec [OF e, unfolded all]
  let ?b = "\<lparr>mb_chains = (if kept \<noteq> [] then [kept] else [])\<rparr>"
  have "canonical (concat kept)" using E canonical_filter [OF canonical_consolidated] by simp
  then have "batcher_inv (filter (\<lambda>x. beyond (snd (fst x))) (consolidated (data @ concat finished))) ?b"
    using E by (auto simp: batcher_inv_def chain_ok_def)
  moreover have "seal cap beyond finished b = Some (readied, ?b)" by (simp add: seal_def b1(1) m(1) e)
  ultimately show ?thesis using E by blast
qed

text \<open>A run of the batcher: in every round chunks are pushed, the rest of the chunker is flushed and a batch is
  sealed at an upper frontier.\<close>

type_synonym ('d, 't, 'r) batch_round =
  "('d \<times> 't, 'r) weighted list \<times> ('d \<times> 't, 'r) weighted list \<times> ('t \<Rightarrow> bool)"

fun run_rounds ::
    "(nat \<Rightarrow> nat) \<Rightarrow> ('d::linorder, 't::linorder, 'r::comm_monoid_add) batch_round list \<Rightarrow> ('d \<times> 't, 'r) merge_batcher
       \<Rightarrow> (('d \<times> 't, 'r) weighted list list \<times> ('d \<times> 't, 'r) merge_batcher) option" where
  "run_rounds cap [] b = Some ([], b)"
| "run_rounds cap ((chunks, finished, beyond) # rounds) b =
     Option.bind (insert_chunks cap chunks b) (\<lambda>b1.
     Option.bind (seal cap beyond finished b1) (\<lambda>(readied, b2).
       map_option (\<lambda>(batches, b3). (readied # batches, b3)) (run_rounds cap rounds b2)))"

text \<open>The reference: each batch is the consolidation of all updates so far that no earlier batch took, up to the
  frontier, and the rest is carried over.\<close>

fun sealed_batches ::
    "('d::linorder \<times> 't::linorder, 'r::comm_monoid_add) weighted \<Rightarrow> ('d, 't, 'r) batch_round list \<Rightarrow> ('d \<times> 't, 'r) weighted list" where
  "sealed_batches carry [] = []"
| "sealed_batches carry ((chunks, finished, beyond) # rounds) =
     (let updates = consolidated (carry @ concat chunks @ concat finished)
      in filter (\<lambda>x. \<not> beyond (snd (fst x))) updates # sealed_batches (filter (\<lambda>x. beyond (snd (fst x))) updates) rounds)"

lemma run_rounds_spec:
  assumes cap: "\<And>n. 0 < cap n"
  shows "batcher_inv carry b \<Longrightarrow> list_all (\<lambda>(chunks, finished, beyond). list_all chunk_ok chunks \<and> list_all chunk_ok finished) rounds \<Longrightarrow>
    \<exists>batches b'. run_rounds cap rounds b = Some (batches, b') \<and> map concat batches = sealed_batches carry rounds
      \<and> geometric (mb_chains b')"
proof (induction rounds arbitrary: carry b)
  case Nil
  then show ?case by (simp add: batcher_inv_def)
next
  case (Cons r rounds)
  obtain chunks finished beyond where r: "r = (chunks, finished, beyond)" by (cases r)
  have ok: "list_all chunk_ok chunks" "list_all chunk_ok finished" using Cons.prems(2) by (simp_all add: r)
  obtain b1 where b1: "insert_chunks cap chunks b = Some b1" "batcher_inv (carry @ concat chunks) b1"
    using insert_chunks_spec [of cap, OF cap Cons.prems(1) ok(1)] by blast
  obtain readied b2 where b2: "seal cap beyond finished b1 = Some (readied, b2)"
    "concat readied = filter (\<lambda>x. \<not> beyond (snd (fst x))) (consolidated (carry @ concat chunks @ concat finished))"
    "batcher_inv (filter (\<lambda>x. beyond (snd (fst x))) (consolidated (carry @ concat chunks @ concat finished))) b2"
    using seal_spec [of cap, OF cap b1(2) ok(2), of beyond] by auto
  from Cons.IH [OF b2(3)] obtain batches b' where "run_rounds cap rounds b2 = Some (batches, b')"
    "map concat batches = sealed_batches (filter (\<lambda>x. beyond (snd (fst x))) (consolidated (carry @ concat chunks @ concat finished))) rounds"
    "geometric (mb_chains b')" using Cons.prems(2) by (auto simp: r)
  then show ?case using b1(1) b2(1,2) by (simp add: r Let_def)
qed

section \<open>Properties\<close>



end
