(* ===== verification/Server_Limits.thy ===== *)
theory Server_Limits
  imports Wal_Datum
begin

text \<open>
  The resource bounds of the server (\<^verbatim>\<open>palimpsest-server/src/security.rs\<close>): the number of subscriptions and the
  rate of subscribe messages of one connection, and the rate of connection attempts of one address.  An
  instant is the number of nanoseconds since the earliest instant of the clock.  The floating-point
  arithmetic of the token bucket is a record of functions.
\<close>

section \<open>Limits\<close>

record token_bucket_spec =
  tb_burst :: u32
  tb_refill_per_sec :: u64

record sliding_window_spec =
  sw_max_attempts :: u32
  sw_window :: nat

record security_limits =
  sl_max_subscriptions :: nat
  sl_subscribe_rate :: token_bucket_spec
  sl_reconnect_rate :: sliding_window_spec

datatype limit_decision = Allowed | ConnectionSaturated | SubscribeRateExceeded | ReconnectRateExceeded

section \<open>Token bucket\<close>

text \<open>Token counts are bit patterns of \<^verbatim>\<open>f64\<close>; \<open>fo_refill elapsed rate tokens burst\<close> is the fused multiplication and
  addition bounded by the burst.\<close>

record token_ops =
  fo_of_u32 :: "u32 \<Rightarrow> u64"
  fo_refill :: "nat \<Rightarrow> u64 \<Rightarrow> u64 \<Rightarrow> u32 \<Rightarrow> u64"
  fo_at_least_one :: "u64 \<Rightarrow> bool"
  fo_minus_one :: "u64 \<Rightarrow> u64"

record token_bucket =
  tk_tokens :: u64
  tk_last_refill :: nat

definition bucket_full :: "token_ops \<Rightarrow> token_bucket_spec \<Rightarrow> nat \<Rightarrow> token_bucket" where
  "bucket_full fo spec now = \<lparr>tk_tokens = fo_of_u32 fo (tb_burst spec), tk_last_refill = now\<rparr>"

definition refilled :: "token_ops \<Rightarrow> token_bucket_spec \<Rightarrow> nat \<Rightarrow> token_bucket \<Rightarrow> token_bucket" where
  "refilled fo spec now b =
     (let elapsed = now - tk_last_refill b in
      if elapsed > 0
      then \<lparr>tk_tokens = fo_refill fo elapsed (tb_refill_per_sec spec) (tk_tokens b) (tb_burst spec), tk_last_refill = now\<rparr>
      else b)"

definition try_consume :: "token_ops \<Rightarrow> token_bucket_spec \<Rightarrow> nat \<Rightarrow> token_bucket \<Rightarrow> bool \<times> token_bucket" where
  "try_consume fo spec now b =
     (let b' = refilled fo spec now b in
      if fo_at_least_one fo (tk_tokens b') then (True, b'\<lparr>tk_tokens := fo_minus_one fo (tk_tokens b')\<rparr>) else (False, b'))"

section \<open>One connection\<close>

record connection_limiter =
  cn_limits :: security_limits
  cn_active :: nat
  cn_bucket :: token_bucket

definition limiter_new_at :: "token_ops \<Rightarrow> security_limits \<Rightarrow> nat \<Rightarrow> connection_limiter" where
  "limiter_new_at fo limits now =
     \<lparr>cn_limits = limits, cn_active = 0, cn_bucket = bucket_full fo (sl_subscribe_rate limits) now\<rparr>"

definition admit_subscribe_at :: "token_ops \<Rightarrow> nat \<Rightarrow> connection_limiter \<Rightarrow> limit_decision \<times> connection_limiter" where
  "admit_subscribe_at fo now c =
     (if cn_active c \<ge> sl_max_subscriptions (cn_limits c) then (ConnectionSaturated, c)
      else case try_consume fo (sl_subscribe_rate (cn_limits c)) now (cn_bucket c) of
        (ok, b) \<Rightarrow> if ok then (Allowed, c\<lparr>cn_bucket := b, cn_active := cn_active c + 1\<rparr>)
                   else (SubscribeRateExceeded, c\<lparr>cn_bucket := b\<rparr>))"

definition limiter_release :: "connection_limiter \<Rightarrow> connection_limiter" where
  "limiter_release c = c\<lparr>cn_active := cn_active c - 1\<rparr>"

text \<open>The limiters a connection can have: any sequence of admissions and releases.\<close>

inductive limiter_run :: "token_ops \<Rightarrow> security_limits \<Rightarrow> connection_limiter \<Rightarrow> bool" for fo limits where
  run_new: "limiter_run fo limits (limiter_new_at fo limits now)"
| run_admit: "limiter_run fo limits c \<Longrightarrow> limiter_run fo limits (snd (admit_subscribe_at fo now c))"
| run_release: "limiter_run fo limits c \<Longrightarrow> limiter_run fo limits (limiter_release c)"

lemma limiter_bounded:
  "limiter_run fo limits c \<Longrightarrow> cn_limits c = limits \<and> cn_active c \<le> sl_max_subscriptions limits"
proof (induction rule: limiter_run.induct)
  case (run_admit c now)
  then show ?case by (auto simp: admit_subscribe_at_def split: prod.split)
qed (auto simp: limiter_new_at_def limiter_release_def)

lemma admit_allowed:
  assumes "admit_subscribe_at fo now c = (Allowed, c')"
  shows "cn_active c' = cn_active c + 1 \<and> cn_active c < sl_max_subscriptions (cn_limits c)"
  using assms by (auto simp: admit_subscribe_at_def split: if_splits prod.splits)

text \<open>A rejection for the rate keeps the number of subscriptions, but it stores the refilled bucket.\<close>

lemma rate_rejection_refills:
  assumes "cn_active c < sl_max_subscriptions (cn_limits c)"
    and "\<not> fo_at_least_one fo (tk_tokens (refilled fo (sl_subscribe_rate (cn_limits c)) now (cn_bucket c)))"
  shows "admit_subscribe_at fo now c
    = (SubscribeRateExceeded, c\<lparr>cn_bucket := refilled fo (sl_subscribe_rate (cn_limits c)) now (cn_bucket c)\<rparr>)"
  using assms by (simp add: admit_subscribe_at_def try_consume_def Let_def)

section \<open>Connection attempts of one address\<close>

type_synonym reconnect_tracker = "(string, nat list) btree"

definition window_cutoff :: "sliding_window_spec \<Rightarrow> nat \<Rightarrow> nat" where
  "window_cutoff spec now = (if sw_window spec \<le> now then now - sw_window spec else now)"

definition admit_at :: "sliding_window_spec \<Rightarrow> string \<Rightarrow> nat \<Rightarrow> reconnect_tracker \<Rightarrow> limit_decision \<times> reconnect_tracker" where
  "admit_at spec ip now m =
     (let attempts = filter (\<lambda>stamp. stamp \<ge> window_cutoff spec now) (case map_of m ip of None \<Rightarrow> [] | Some a \<Rightarrow> a) in
      if length attempts \<ge> unat (sw_max_attempts spec) then (ReconnectRateExceeded, bt_insert ip attempts m)
      else (Allowed, bt_insert ip (attempts @ [now]) m))"

definition attempts_of :: "string \<Rightarrow> reconnect_tracker \<Rightarrow> nat list" where
  "attempts_of ip m = (case map_of m ip of None \<Rightarrow> [] | Some a \<Rightarrow> a)"

lemma admit_other_address:
  "bt_invar m \<Longrightarrow> other \<noteq> ip \<Longrightarrow> attempts_of other (snd (admit_at spec ip now m)) = attempts_of other m"
  by (simp add: admit_at_def attempts_of_def map_of_bt_insert Let_def)

text \<open>A run of attempts of any addresses, with the instants at which those of each address were admitted.\<close>

fun admit_all :: "sliding_window_spec \<Rightarrow> (string \<times> nat) list \<Rightarrow> reconnect_tracker \<Rightarrow> (string \<Rightarrow> nat list) \<Rightarrow> reconnect_tracker \<times> (string \<Rightarrow> nat list)" where
  "admit_all spec [] m admitted = (m, admitted)"
| "admit_all spec ((ip, now) # es) m admitted =
     (case admit_at spec ip now m of
        (d, m') \<Rightarrow> admit_all spec es m' (if d = Allowed then admitted(ip := admitted ip @ [now]) else admitted))"

text \<open>At every admitted instant at most \<open>n\<close> admitted ones lie in the window that ends there.\<close>

definition window_respected :: "nat \<Rightarrow> nat \<Rightarrow> nat list \<Rightarrow> bool" where
  "window_respected n w stamps =
     (\<forall>i < length stamps. length (filter (\<lambda>s. stamps ! i \<le> s + w) (take (Suc i) stamps)) \<le> n)"

lemma window_respected_snoc:
  "window_respected n w (stamps @ [now]) \<longleftrightarrow>
     window_respected n w stamps \<and> Suc (length (filter (\<lambda>s. now \<le> s + w) stamps)) \<le> n"
  by (auto simp: window_respected_def less_Suc_eq nth_append)

text \<open>The tracker holds the admitted instants that can still matter at the latest instant seen.\<close>

definition tracker_inv :: "sliding_window_spec \<Rightarrow> nat \<Rightarrow> reconnect_tracker \<Rightarrow> (string \<Rightarrow> nat list) \<Rightarrow> bool" where
  "tracker_inv spec seen m admitted \<longleftrightarrow> bt_invar m \<and> (\<forall>ip.
     filter (\<lambda>s. seen \<le> s + sw_window spec) (attempts_of ip m) = filter (\<lambda>s. seen \<le> s + sw_window spec) (admitted ip)
     \<and> window_respected (unat (sw_max_attempts spec)) (sw_window spec) (admitted ip))"

lemma filter_later:
  "seen \<le> (now :: nat) \<Longrightarrow> filter (\<lambda>s. seen \<le> s + w) xs = filter (\<lambda>s. seen \<le> s + w) ys \<Longrightarrow>
     filter (\<lambda>s. now \<le> s + w) xs = filter (\<lambda>s. now \<le> s + w) ys"
proof -
  assume le: "seen \<le> now" and eq: "filter (\<lambda>s. seen \<le> s + w) xs = filter (\<lambda>s. seen \<le> s + w) ys"
  have twice: "filter (\<lambda>s. now \<le> s + w) zs = filter (\<lambda>s. now \<le> s + w) (filter (\<lambda>s. seen \<le> s + w) zs)" for zs
    using le by (induction zs) auto
  show ?thesis by (subst (1 2) twice) (simp only: eq)
qed

lemma tracker_inv_admit:
  assumes inv: "tracker_inv spec seen m admitted" and later: "seen \<le> now" and clock: "sw_window spec \<le> now"
    and step: "admit_at spec ip now m = (d, m')"
  shows "tracker_inv spec now m' (if d = Allowed then admitted(ip := admitted ip @ [now]) else admitted)"
proof -
  let ?w = "sw_window spec" and ?n = "unat (sw_max_attempts spec)"
  have bt: "bt_invar m" using inv by (simp add: tracker_inv_def)
  have same: "filter (\<lambda>s. now \<le> s + ?w) (attempts_of x m) = filter (\<lambda>s. now \<le> s + ?w) (admitted x)" for x
    by (rule filter_later [OF later]) (use inv in \<open>simp add: tracker_inv_def\<close>)
  have old: "window_respected ?n ?w (admitted x)" for x using inv by (simp add: tracker_inv_def)
  have cut: "filter (\<lambda>s. s \<ge> window_cutoff spec now) xs = filter (\<lambda>s. now \<le> s + ?w) xs" for xs
    using clock by (intro filter_cong) (auto simp: window_cutoff_def)
  define kept where "kept = filter (\<lambda>s. now \<le> s + ?w) (admitted ip)"
  have step': "(d, m') = (if length kept \<ge> ?n then (ReconnectRateExceeded, bt_insert ip kept m)
      else (Allowed, bt_insert ip (kept @ [now]) m))"
    using step same [of ip] by (auto simp: admit_at_def Let_def cut kept_def attempts_of_def split: if_splits)
  show ?thesis
  proof (cases "length kept \<ge> ?n")
    case True
    then have "d = ReconnectRateExceeded" "m' = bt_insert ip kept m" using step' by simp_all
    then have "attempts_of x m' = (if x = ip then kept else attempts_of x m)" "bt_invar m'" for x
      using bt by (simp_all add: attempts_of_def map_of_bt_insert bt_invar_insert)
    then show ?thesis using same old \<open>d = ReconnectRateExceeded\<close> by (simp add: tracker_inv_def kept_def)
  next
    case False
    then have "d = Allowed" "m' = bt_insert ip (kept @ [now]) m" using step' by simp_all
    then have "attempts_of x m' = (if x = ip then kept @ [now] else attempts_of x m)" "bt_invar m'" for x
      using bt by (simp_all add: attempts_of_def map_of_bt_insert bt_invar_insert)
    moreover have "window_respected ?n ?w (admitted ip @ [now])"
      using old [of ip] False by (simp add: window_respected_snoc kept_def)
    ultimately show ?thesis using same old \<open>d = Allowed\<close> by (simp add: tracker_inv_def kept_def)
  qed
qed

text \<open>While the clock is past its first window and instants do not go back, no address is admitted more often
  than the limit within any window that ends at an admission.\<close>

lemma reconnects_respect_window:
  assumes "tracker_inv spec seen m admitted" "sorted (seen # map snd es)" "list_all (\<lambda>(ip, now). sw_window spec \<le> now) es"
  shows "window_respected (unat (sw_max_attempts spec)) (sw_window spec) (snd (admit_all spec es m admitted) ip)"
  using assms
proof (induction es arbitrary: seen m admitted)
  case Nil
  then show ?case by (simp add: tracker_inv_def)
next
  case (Cons e es)
  obtain a now where e: "e = (a, now)" by (cases e)
  obtain d m' where step: "admit_at spec a now m = (d, m')" by (cases "admit_at spec a now m")
  have "tracker_inv spec now m' (if d = Allowed then admitted(a := admitted a @ [now]) else admitted)"
    by (rule tracker_inv_admit [OF Cons.prems(1) _ _ step]) (use Cons.prems(2,3) e in simp_all)
  from Cons.IH [OF this] show ?case using Cons.prems(2,3) by (simp add: e step)
qed

lemma tracker_inv_new: "tracker_inv spec 0 [] (\<lambda>_. [])"
  by (simp add: tracker_inv_def attempts_of_def window_respected_def)

text \<open>Before the clock has run for one window the cutoff is the current instant, and every earlier attempt is
  forgotten.\<close>

lemma early_attempts_forgotten:
  assumes "now < sw_window spec" "\<forall>s \<in> set (attempts_of ip m). s < now" "0 < unat (sw_max_attempts spec)"
  shows "fst (admit_at spec ip now m) = Allowed"
proof -
  have "filter (\<lambda>s. s \<ge> window_cutoff spec now) (attempts_of ip m) = []"
    using assms(1,2) by (auto simp: window_cutoff_def filter_empty_conv)
  then show ?thesis using assms(3) by (simp add: admit_at_def attempts_of_def Let_def)
qed

end
