(* ===== verification/Upquery.thy ===== *)
theory Upquery
  imports Sql_Mir
begin

text \<open>
  The planning of upqueries (\<^verbatim>\<open>palimpsest-dataflow/src/palimpsest/upquery.rs\<close>): a walk over the query graph from
  its root finds the base tables that contribute to a result, and one request per table fetches the
  missing keys.  The walk keeps a stack and the set of visited nodes, so that it also ends on the cycles of
  recursive queries.
\<close>

section \<open>Requests\<close>

record upquery_request =
  uq_table :: string
  uq_primary_key :: string
  uq_keys :: "string list"

fun join_with :: "string \<Rightarrow> string list \<Rightarrow> string" where
  "join_with sep [] = []"
| "join_with sep [s] = s"
| "join_with sep (s # t # ss) = s @ sep @ join_with sep (t # ss)"

definition quote_key :: "string \<Rightarrow> string" where
  "quote_key k = CHR 0x27 # double_quotes (CHR 0x27) k @ [CHR 0x27]"

definition upquery_to_sql :: "upquery_request \<Rightarrow> string" where
  "upquery_to_sql r = ''SELECT * FROM '' @ uq_table r @ '' WHERE '' @ uq_primary_key r @ '' IN ('' @
     join_with '', '' (map quote_key (uq_keys r)) @ '')''"

type_synonym static_primary_keys = "(string, string) btree"

definition primary_keys_from :: "(string \<times> string) list \<Rightarrow> static_primary_keys" where
  "primary_keys_from pairs = fold (\<lambda>(t, k). bt_insert t k) pairs []"

definition primary_key_of :: "static_primary_keys \<Rightarrow> string \<Rightarrow> string option" where
  "primary_key_of pk t = map_of pk t"

section \<open>The walk\<close>

definition cte_expansion_inputs :: "mir_graph \<Rightarrow> nat \<Rightarrow> nat list" where
  "cte_expansion_inputs g n = map fst (filter (\<lambda>(a, b, w). b = n \<and> w = CteExpansion) (edges g))"

fun walk_inputs :: "mir_graph \<Rightarrow> nat \<Rightarrow> mir_node_kind \<Rightarrow> nat list" where
  "walk_inputs g n (BaseTable _ _) = []"
| "walk_inputs g n (CteRef _) = cte_expansion_inputs g n"
| "walk_inputs g n _ = ordered_inputs g n"

text \<open>The loop shared by \<^verbatim>\<open>plan_upquery\<close> and \<^verbatim>\<open>base_tables\<close>.  The head of the list is the top of the stack, so the
  inputs are pushed in reverse; an index outside the graph panics.\<close>

function graph_walk ::
    "(mir_node_kind \<Rightarrow> 'a \<Rightarrow> 'a) \<Rightarrow> mir_graph \<Rightarrow> nat list \<Rightarrow> nat set \<Rightarrow> 'a \<Rightarrow> ('a, unit) result" where
  "graph_walk visit g [] visited acc = Ok acc"
| "graph_walk visit g (n # stack) visited acc =
     (if n \<in> visited then graph_walk visit g stack visited acc
      else if n < length (nodes g)
      then graph_walk visit g (rev (walk_inputs g n (nodes g ! n)) @ stack) (insert n visited) (visit (nodes g ! n) acc)
      else Panic)"
  by pat_completeness auto
termination
proof (relation "measures [\<lambda>(visit, g, stack, visited, acc). card ({..<length (nodes g)} - visited),
      \<lambda>(visit, g, stack, visited, acc). length stack]", goal_cases)
  case (3 visit g n stack visited acc)
  then have "{..<length (nodes g)} - insert n visited \<subset> {..<length (nodes g)} - visited" by auto
  then have "card ({..<length (nodes g)} - insert n visited) < card ({..<length (nodes g)} - visited)"
    by (intro psubset_card_mono) simp_all
  then show ?case by simp
qed simp_all

fun collect_table :: "mir_node_kind \<Rightarrow> string list \<Rightarrow> string list" where
  "collect_table (BaseTable t _) ts = ts @ [t]"
| "collect_table _ ts = ts"

definition base_tables :: "mir_graph \<Rightarrow> (string list, unit) result" where
  "base_tables g = rmap (\<lambda>ts. remdups_adj (sort ts)) (graph_walk collect_table g [root g] {} [])"

fun request_table ::
    "(string \<Rightarrow> string option) \<Rightarrow> string list \<Rightarrow> mir_node_kind \<Rightarrow> (string, upquery_request) btree \<Rightarrow> (string, upquery_request) btree" where
  "request_table primary_key requested (BaseTable t _) m =
     (case primary_key t of
        None \<Rightarrow> m
      | Some pk \<Rightarrow>
          (case map_of m t of
             Some _ \<Rightarrow> m
           | None \<Rightarrow> bt_insert t \<lparr>uq_table = t, uq_primary_key = pk, uq_keys = requested\<rparr> m))"
| "request_table primary_key requested _ m = m"

definition plan_upquery ::
    "mir_graph \<Rightarrow> string list \<Rightarrow> (string \<Rightarrow> string option) \<Rightarrow> (upquery_request list, unit) result" where
  "plan_upquery g requested primary_key =
     rmap (map snd) (graph_walk (request_table primary_key requested) g [root g] {} [])"

definition column_order :: "column_ref \<Rightarrow> (bool \<times> string) \<times> string" where
  "column_order c = ((case cr_relation c of None \<Rightarrow> (False, []) | Some r \<Rightarrow> (True, r)), cr_name c)"

definition referenced_columns :: "mir_graph \<Rightarrow> string \<Rightarrow> column_ref list" where
  "referenced_columns g table =
     remdups_adj (sort_key column_order
       (concat (map (\<lambda>k. case k of BaseTable t project \<Rightarrow> if t = table then project else [] | _ \<Rightarrow> []) (nodes g))))"

section \<open>What the walk reaches\<close>

text \<open>A common table expression reads its expansion, a table nothing, every other node its inputs.\<close>

definition reads_from :: "mir_graph \<Rightarrow> nat \<Rightarrow> nat \<Rightarrow> bool" where
  "reads_from g n m \<longleftrightarrow> (\<exists>w. (m, n, w) \<in> set (edges g) \<and>
     (case nodes g ! n of
        BaseTable t cols \<Rightarrow> False
      | CteRef name \<Rightarrow> w = CteExpansion
      | _ \<Rightarrow> w \<noteq> CteExpansion))"

text \<open>The tables whose rows can reach the root.\<close>

definition contributing_tables :: "mir_graph \<Rightarrow> string set" where
  "contributing_tables g = {t. \<exists>n cols. (reads_from g)\<^sup>*\<^sup>* (root g) n \<and> nodes g ! n = BaseTable t cols}"

lemma set_incoming_edges: "(i, a) \<in> set (incoming_edges es n) \<longleftrightarrow> (a, n, Input i) \<in> set es"
proof (induction es)
  case (Cons x es)
  then show ?case by (cases x) (auto split: mir_edge_kind.splits)
qed simp

lemma set_ordered_inputs: "m \<in> set (ordered_inputs g n) \<longleftrightarrow> (\<exists>w. (m, n, w) \<in> set (edges g) \<and> w \<noteq> CteExpansion)"
proof -
  have "m \<in> set (ordered_inputs g n) \<longleftrightarrow> (\<exists>i. (i, m) \<in> set (incoming g n))" by (force simp: ordered_inputs_def)
  also have "\<dots> \<longleftrightarrow> (\<exists>w. (m, n, w) \<in> set (edges g) \<and> w \<noteq> CteExpansion)"
    unfolding set_incoming_edges by (metis mir_edge_kind.distinct(1) mir_edge_kind.exhaust)
  finally show ?thesis .
qed

lemma set_cte_expansion_inputs: "m \<in> set (cte_expansion_inputs g n) \<longleftrightarrow> (m, n, CteExpansion) \<in> set (edges g)"
  by (force simp: cte_expansion_inputs_def)

lemma set_walk_inputs: "m \<in> set (walk_inputs g n (nodes g ! n)) \<longleftrightarrow> reads_from g n m"
  by (cases "nodes g ! n") (auto simp: reads_from_def set_ordered_inputs set_cte_expansion_inputs)

lemma reads_from_in_range: "wf_graph g \<Longrightarrow> reads_from g n m \<Longrightarrow> m < length (nodes g)"
  by (auto simp: wf_graph_def list_all_iff reads_from_def)

lemma graph_walk_spec:
  assumes wf: "wf_graph g"
  shows "\<forall>n \<in> set stack. n < length (nodes g) \<Longrightarrow>
    \<exists>ns. graph_walk visit g stack visited acc = Ok (fold visit (map ((!) (nodes g)) ns) acc)
      \<and> set stack \<subseteq> visited \<union> set ns \<and> (\<forall>n \<in> set ns. \<forall>m. reads_from g n m \<longrightarrow> m \<in> visited \<union> set ns)
      \<and> (\<forall>n \<in> set ns. \<exists>s \<in> set stack. (reads_from g)\<^sup>*\<^sup>* s n)"
  using wf
proof (induction visit g stack visited acc rule: graph_walk.induct)
  case (1 visit g visited acc)
  show ?case by (intro exI [of _ "[]"]) simp
next
  case (2 visit g n stack visited acc)
  show ?case
  proof (cases "n \<in> visited")
    case True
    obtain ns where ns: "graph_walk visit g stack visited acc = Ok (fold visit (map ((!) (nodes g)) ns) acc)"
      "set stack \<subseteq> visited \<union> set ns" "\<forall>n \<in> set ns. \<forall>m. reads_from g n m \<longrightarrow> m \<in> visited \<union> set ns"
      "\<forall>n \<in> set ns. \<exists>s \<in> set stack. (reads_from g)\<^sup>*\<^sup>* s n"
      using "2.IH"(1) [OF True] "2.prems" by auto
    show ?thesis by (intro exI [of _ ns]) (use ns True in auto)
  next
    case False
    have n: "n < length (nodes g)" using "2.prems" by simp
    let ?ins = "walk_inputs g n (nodes g ! n)"
    have range: "\<forall>m \<in> set (rev ?ins @ stack). m < length (nodes g)"
      using "2.prems" reads_from_in_range [OF "2.prems"(2)] by (auto simp: set_walk_inputs)
    obtain ns where ns: "graph_walk visit g (rev ?ins @ stack) (insert n visited) (visit (nodes g ! n) acc)
        = Ok (fold visit (map ((!) (nodes g)) ns) (visit (nodes g ! n) acc))"
      "set (rev ?ins @ stack) \<subseteq> insert n visited \<union> set ns"
      "\<forall>k \<in> set ns. \<forall>m. reads_from g k m \<longrightarrow> m \<in> insert n visited \<union> set ns"
      "\<forall>k \<in> set ns. \<exists>s \<in> set (rev ?ins @ stack). (reads_from g)\<^sup>*\<^sup>* s k"
      using "2.IH"(2) [OF False n range "2.prems"(2)] by auto
    have from_n: "s \<in> set ?ins \<Longrightarrow> (reads_from g)\<^sup>*\<^sup>* s k \<Longrightarrow> (reads_from g)\<^sup>*\<^sup>* n k" for s k
      by (rule converse_rtranclp_into_rtranclp) (simp add: set_walk_inputs)
    have reach: "\<exists>s \<in> set (n # stack). (reads_from g)\<^sup>*\<^sup>* s k" if "k \<in> set ns" for k
    proof -
      from ns(4) that obtain s where s: "s \<in> set (rev ?ins @ stack)" "(reads_from g)\<^sup>*\<^sup>* s k" by blast
      then consider "s \<in> set ?ins" | "s \<in> set stack" by auto
      then show ?thesis using from_n [OF _ s(2)] s(2) by cases auto
    qed
    show ?thesis
    proof (intro exI [of _ "n # ns"] conjI)
      show "graph_walk visit g (n # stack) visited acc = Ok (fold visit (map ((!) (nodes g)) (n # ns)) acc)"
        using False n ns(1) by simp
      show "set (n # stack) \<subseteq> visited \<union> set (n # ns)" using ns(2) by auto
      show "\<forall>k \<in> set (n # ns). \<forall>m. reads_from g k m \<longrightarrow> m \<in> visited \<union> set (n # ns)"
        using ns(2,3) by (auto simp: set_walk_inputs)
      show "\<forall>k \<in> set (n # ns). \<exists>s \<in> set (n # stack). (reads_from g)\<^sup>*\<^sup>* s k" using reach by auto
    qed
  qed
qed

lemma graph_walk_root:
  assumes "wf_graph g"
  shows "\<exists>ns. graph_walk visit g [root g] {} acc = Ok (fold visit (map ((!) (nodes g)) ns) acc)
    \<and> set ns = {n. (reads_from g)\<^sup>*\<^sup>* (root g) n}"
proof -
  have "\<forall>n \<in> set [root g]. n < length (nodes g)" using assms by (simp add: wf_graph_def)
  from graph_walk_spec [OF assms this, of visit "{}" acc] obtain ns
    where ns: "graph_walk visit g [root g] {} acc = Ok (fold visit (map ((!) (nodes g)) ns) acc)" "root g \<in> set ns"
      "\<forall>n \<in> set ns. \<forall>m. reads_from g n m \<longrightarrow> m \<in> set ns" "\<forall>n \<in> set ns. (reads_from g)\<^sup>*\<^sup>* (root g) n"
    by auto
  have "n \<in> set ns" if "(reads_from g)\<^sup>*\<^sup>* (root g) n" for n
    using that by (induction rule: rtranclp_induct) (use ns(2,3) in auto)
  then show ?thesis using ns(1,4) by auto
qed

fun table_of :: "mir_node_kind \<Rightarrow> string option" where
  "table_of (BaseTable t _) = Some t"
| "table_of _ = None"

lemma table_of_Some: "table_of k = Some t \<longleftrightarrow> (\<exists>cols. k = BaseTable t cols)"
  by (cases k) auto

lemma collect_tables: "fold collect_table ks ts = ts @ List.map_filter table_of ks"
proof (induction ks arbitrary: ts)
  case (Cons k ks)
  then show ?case by (cases k) (simp_all add: List.map_filter_def)
qed (simp add: List.map_filter_def)

lemma strict_sorted_dedup: "sorted xs \<Longrightarrow> sorted_wrt (<) (remdups_adj xs)" for xs :: "'a::linorder list"
  by (induction xs rule: remdups_adj.induct) (auto simp: order.strict_iff_order)

lemma sort_dedup: "remdups_adj (sort xs) = sorted_list_of_set (set xs)" for xs :: "'a::linorder list"
  using strict_sorted_dedup [of "sort xs"] by (intro sorted_distinct_set_unique) (simp_all add: strict_sorted_iff)

text \<open>The requests by table, whatever the order of the walk.\<close>

lemma request_tables:
  "bt_invar m \<Longrightarrow> bt_invar (fold (request_table pk requested) ks m)
    \<and> map_of (fold (request_table pk requested) ks m) t =
       (if map_of m t = None \<and> Some t \<in> table_of ` set ks
        then map_option (\<lambda>p. \<lparr>uq_table = t, uq_primary_key = p, uq_keys = requested\<rparr>) (pk t) else map_of m t)"
proof (induction ks arbitrary: m)
  case (Cons k ks)
  have step: "bt_invar (request_table pk requested k m)"
    "map_of (request_table pk requested k m) t =
       (if map_of m t = None \<and> table_of k = Some t
        then map_option (\<lambda>p. \<lparr>uq_table = t, uq_primary_key = p, uq_keys = requested\<rparr>) (pk t) else map_of m t)"
    using Cons.prems by (cases k; simp add: bt_invar_insert map_of_bt_insert split: option.split)+
  show ?case using Cons.IH [OF step(1)] step(2) by (auto split: if_splits)
qed simp

lemma bt_unique:
  assumes "bt_invar m"
  shows "m = List.map_filter (\<lambda>k. map_option (Pair k) (map_of m k)) (sorted_list_of_set (dom (map_of m)))"
proof -
  have "sorted_list_of_set (dom (map_of m)) = map fst m"
    using assms by (intro sorted_distinct_set_unique) (auto simp: bt_invar_def strict_sorted_iff dom_map_of_conv_image_fst)
  moreover have "List.map_filter (\<lambda>k. map_option (Pair k) (f k)) (map fst m) = m" if "\<And>k v. (k, v) \<in> set m \<Longrightarrow> f k = Some v" for f
    using that
  proof (induction m)
    case (Cons x m)
    have "f (fst x) = Some (snd x)" using Cons.prems [of "fst x" "snd x"] by simp
    moreover have "List.map_filter (\<lambda>k. map_option (Pair k) (f k)) (map fst m) = m" by (rule Cons.IH) (simp add: Cons.prems)
    ultimately show ?case by (simp add: map_filter_simps)
  qed (simp add: map_filter_simps)
  ultimately show ?thesis using map_of_is_SomeI [OF bt_invar_distinct [OF assms]] by metis
qed

lemma set_map_filter: "set (List.map_filter f xs) = {y. Some y \<in> f ` set xs}"
  by (induction xs) (auto simp: map_filter_simps split: option.splits)

lemma requests_in_order:
  assumes "bt_invar m" "finite C" "\<And>t. map_of m t = (if t \<in> C then h t else None)"
  shows "map snd m = List.map_filter h (sorted_list_of_set C)"
proof -
  have dom: "dom (map_of m) = {t \<in> C. h t \<noteq> None}" using assms(3) by (auto simp: dom_def)
  have sorted: "sorted_list_of_set {t \<in> C. h t \<noteq> None} = filter (\<lambda>t. h t \<noteq> None) (sorted_list_of_set C)"
    using assms(2) by (intro sorted_distinct_set_unique) (auto simp: sorted_filter [where f = id, simplified])
  have vals: "map snd (List.map_filter (\<lambda>k. map_option (Pair k) (map_of m k)) (filter (\<lambda>t. h t \<noteq> None) xs)) = List.map_filter h xs"
    if "set xs \<subseteq> C" for xs
    using that by (induction xs) (auto simp: map_filter_simps assms(3) split: option.splits)
  have "map snd m = map snd (List.map_filter (\<lambda>k. map_option (Pair k) (map_of m k)) (filter (\<lambda>t. h t \<noteq> None) (sorted_list_of_set C)))"
    by (rule arg_cong [OF bt_unique [OF assms(1), unfolded dom sorted]])
  then show ?thesis using vals [of "sorted_list_of_set C"] assms(2) by simp
qed

section \<open>Properties\<close>

text \<open>C19: On every well-formed query graph, cyclic ones included, the walk ends.  \<^verbatim>\<open>base_tables\<close> returns exactly the
  tables that contribute to the root, through the expansion of common table expressions, in order and
  without repetition.  \<^verbatim>\<open>plan_upquery\<close> requests the given keys from exactly those of them that have a primary
  key, once each.\<close>
theorem upquery_covers_contributing_tables:
  assumes "wf_graph g"
  shows "base_tables g = Ok (sorted_list_of_set (contributing_tables g))
    \<and> plan_upquery g requested pk = Ok (List.map_filter
        (\<lambda>t. map_option (\<lambda>p. \<lparr>uq_table = t, uq_primary_key = p, uq_keys = requested\<rparr>) (pk t))
        (sorted_list_of_set (contributing_tables g)))"
proof
  have tables: "{t. Some t \<in> table_of ` set (map ((!) (nodes g)) ns)} = contributing_tables g"
    if "set ns = {n. (reads_from g)\<^sup>*\<^sup>* (root g) n}" for ns
    using that by (auto simp: contributing_tables_def table_of_Some image_iff) (metis table_of_Some)+
  obtain ns where ns: "graph_walk collect_table g [root g] {} [] = Ok (List.map_filter table_of (map ((!) (nodes g)) ns))"
    "set ns = {n. (reads_from g)\<^sup>*\<^sup>* (root g) n}"
    using graph_walk_root [OF assms, of collect_table "[]"] by (auto simp: collect_tables)
  note set_eq = set_map_filter [of table_of "map ((!) (nodes g)) ns", unfolded tables [OF ns(2)]]
  show "base_tables g = Ok (sorted_list_of_set (contributing_tables g))"
    by (simp only: base_tables_def ns(1) rmap_simps sort_dedup set_eq)
  have fin: "finite (contributing_tables g)" unfolding set_eq [symmetric] by simp
  obtain ms where ms: "graph_walk (request_table pk requested) g [root g] {} []
      = Ok (fold (request_table pk requested) (map ((!) (nodes g)) ms) [])" "set ms = {n. (reads_from g)\<^sup>*\<^sup>* (root g) n}"
    using graph_walk_root [OF assms, of "request_table pk requested" "[]"] by blast
  have in_C: "Some t \<in> table_of ` set (map ((!) (nodes g)) ms) \<longleftrightarrow> t \<in> contributing_tables g" for t
    using tables [OF ms(2)] by blast
  note R = request_tables [of "[]" pk requested "map ((!) (nodes g)) ms", unfolded in_C]
  show "plan_upquery g requested pk = Ok (List.map_filter
      (\<lambda>t. map_option (\<lambda>p. \<lparr>uq_table = t, uq_primary_key = p, uq_keys = requested\<rparr>) (pk t))
      (sorted_list_of_set (contributing_tables g)))"
    unfolding plan_upquery_def ms(1) rmap_simps
    by (subst requests_in_order [OF _ fin]) (use R in simp_all)
qed

text \<open>A recursive query over one table joined with another.\<close>

definition recursive_graph :: mir_graph where
  "recursive_graph = \<lparr>nodes = [BaseTable ''users'' [], BaseTable ''posts'' [], Join JInner [], Fixpoint ''r'' True, BaseTable ''logs'' []],
     edges = [(1, 2, Input 0), (3, 2, Input 1), (0, 3, Input 0), (2, 3, Input 1)], root = 3\<rparr>"

theorem upquery_covers_contributing_tables_witness:
  "wf_graph recursive_graph
   \<and> base_tables recursive_graph = Ok (sorted_list_of_set (contributing_tables recursive_graph))
   \<and> base_tables recursive_graph = Ok [''posts'', ''users'']"
proof -
  have wf: "wf_graph recursive_graph"
    by (simp add: wf_graph_def recursive_graph_def positions_ok_def upt_rec)
  have "base_tables recursive_graph = Ok [''posts'', ''users'']"
    by (simp add: base_tables_def recursive_graph_def ordered_inputs_def)
  then show ?thesis using wf upquery_covers_contributing_tables [OF wf] by simp
qed

text \<open>The names go into the statement as they are, and a request without keys has an empty list, which
  PostgreSQL does not parse.\<close>

lemma upquery_without_keys:
  "upquery_to_sql \<lparr>uq_table = t, uq_primary_key = k, uq_keys = []\<rparr> = ''SELECT * FROM '' @ t @ '' WHERE '' @ k @ '' IN ()''"
  by (simp add: upquery_to_sql_def)

end
