(* ===== verification/Client_Sql.thy ===== *)
theory Client_Sql
  imports Client_Replica Upquery
begin

text \<open>
  The storage backend of the local replica on a SQL engine (\<^verbatim>\<open>palimpsest-client/src/local/sql.rs\<close>): the
  statements generated from a table's schema, and the transactions in which a batch of writes is applied.
  The engine is a parameter that executes one statement at a time on its session.
\<close>

section \<open>Statements\<close>

record statement =
  sm_sql :: string
  sm_params :: "wire_datum list"

definition quote_name :: "string \<Rightarrow> string" where
  "quote_name ident = CHR 0x22 # double_quotes (CHR 0x22) ident @ [CHR 0x22]"

fun column_type_sql :: "proto_datum_type \<Rightarrow> string" where
  "column_type_sql PTBool = ''boolean''"
| "column_type_sql PTI16 = ''smallint''"
| "column_type_sql PTI32 = ''integer''"
| "column_type_sql PTI64 = ''bigint''"
| "column_type_sql PTF32 = ''real''"
| "column_type_sql PTF64 = ''double precision''"
| "column_type_sql PTNumeric = ''numeric''"
| "column_type_sql PTBytea = ''bytea''"
| "column_type_sql PTDate = ''date''"
| "column_type_sql PTTime = ''time''"
| "column_type_sql PTTimestamp = ''timestamp''"
| "column_type_sql PTTimestampTz = ''timestamptz''"
| "column_type_sql PTInterval = ''interval''"
| "column_type_sql PTUuid = ''uuid''"
| "column_type_sql PTJson = ''json''"
| "column_type_sql PTJsonb = ''jsonb''"
| "column_type_sql PTArray = ''jsonb''"
| "column_type_sql PTText = ''text''"
| "column_type_sql PTUnspecified = ''text''"
| "column_type_sql PTNull = ''text''"

definition column_clause :: "proto_column \<Rightarrow> string" where
  "column_clause col = quote_name (pc_name col) @ '' '' @
     column_type_sql (case datum_type_try_from (pc_type col) of None \<Rightarrow> PTUnspecified | Some t \<Rightarrow> t) @
     (if pc_nullable col then [] else '' NOT NULL'')"

text \<open>The quoted names at the given indices that exist.\<close>

definition quoted_at :: "proto_column list \<Rightarrow> nat list \<Rightarrow> string list" where
  "quoted_at cols idxs = map (\<lambda>i. quote_name (pc_name (cols ! i))) (filter (\<lambda>i. i < length cols) idxs)"

definition create_table_sql :: "table_spec \<Rightarrow> string" where
  "create_table_sql spec =
     (let cols = ps_columns (tsp_schema spec); pk = ps_primary_key_columns (tsp_schema spec);
          defs = map column_clause cols
            @ (if pk = [] then [] else [''PRIMARY KEY ('' @ join_with '', '' (quoted_at cols (map unat pk)) @ '')''])
      in ''CREATE TABLE IF NOT EXISTS '' @ quote_name (tsp_name spec) @ '' ('' @ join_with '', '' defs @ '')'')"

definition upsert_statement :: "table_spec \<Rightarrow> wire_row \<Rightarrow> statement" where
  "upsert_statement spec row =
     (let cols = ps_columns (tsp_schema spec);
          names = map (\<lambda>c. quote_name (pc_name c)) cols;
          placeholders = map (\<lambda>i. CHR ''$'' # show_nat i) [1..<length names + 1];
          non_pk = map (\<lambda>i. let name = quote_name (pc_name (cols ! i)) in name @ '' = EXCLUDED.'' @ name)
            (filter (\<lambda>i. i \<notin> set (pk_indices spec)) [0..<length cols]);
          conflict = '' ON CONFLICT ('' @ join_with '', '' (quoted_at cols (pk_indices spec)) @ '')''
      in \<lparr>sm_sql = ''INSERT INTO '' @ quote_name (tsp_name spec) @ '' ('' @ join_with '', '' names @ '') VALUES ('' @
              join_with '', '' placeholders @ '')'' @
              (if ps_primary_key_columns (tsp_schema spec) = [] then []
               else if non_pk = [] then conflict @ '' DO NOTHING''
               else conflict @ '' DO UPDATE SET '' @ join_with '', '' non_pk),
          sm_params = row\<rparr>)"

definition key_predicate :: "table_spec \<Rightarrow> primary_key \<Rightarrow> string \<times> wire_datum list" where
  "key_predicate spec k =
     (let cols = ps_columns (tsp_schema spec);
          clauses = map (\<lambda>(p, i). quote_name (pc_name (cols ! i)) @ '' IS NOT DISTINCT FROM $'' @ show_nat (p + 1))
            (filter (\<lambda>(p, i). i < length cols) (zip [0..<length (pk_indices spec)] (pk_indices spec)))
      in (join_with '' AND '' clauses, k))"

definition delete_statement :: "table_spec \<Rightarrow> primary_key \<Rightarrow> statement" where
  "delete_statement spec k =
     (case key_predicate spec k of (predicate, params) \<Rightarrow>
        \<lparr>sm_sql = ''DELETE FROM '' @ quote_name (tsp_name spec) @ '' WHERE '' @ predicate, sm_params = params\<rparr>)"

definition select_by_key_statement :: "table_spec \<Rightarrow> primary_key \<Rightarrow> statement" where
  "select_by_key_statement spec k =
     (case key_predicate spec k of (predicate, params) \<Rightarrow>
        \<lparr>sm_sql = ''SELECT '' @ join_with '', '' (map (\<lambda>c. quote_name (pc_name c)) (ps_columns (tsp_schema spec))) @
            '' FROM '' @ quote_name (tsp_name spec) @ '' WHERE '' @ predicate, sm_params = params\<rparr>)"

section \<open>Transactions\<close>

type_synonym 's sql_executor = "string \<Rightarrow> wire_datum list \<Rightarrow> proto_schema option \<Rightarrow> 's \<Rightarrow> (local_db_error + wire_row list) \<times> 's"

fun run_statements :: "'s sql_executor \<Rightarrow> statement list \<Rightarrow> 's \<Rightarrow> local_db_error option \<times> 's" where
  "run_statements exec [] s =
     (case exec ''COMMIT'' [] None s of (Inl e, s') \<Rightarrow> (Some e, s') | (Inr _, s') \<Rightarrow> (None, s'))"
| "run_statements exec (st # sts) s =
     (case exec (sm_sql st) (sm_params st) None s of
        (Inl e, s') \<Rightarrow> (Some e, snd (exec ''ROLLBACK'' [] None s'))
      | (Inr _, s') \<Rightarrow> run_statements exec sts s')"

definition run_transaction :: "'s sql_executor \<Rightarrow> statement list \<Rightarrow> 's \<Rightarrow> local_db_error option \<times> 's" where
  "run_transaction exec statements s =
     (case exec ''BEGIN'' [] None s of (Inl e, s') \<Rightarrow> (Some e, s') | (Inr _, s') \<Rightarrow> run_statements exec statements s')"

definition sql_ensure_table :: "'s sql_executor \<Rightarrow> table_spec \<Rightarrow> 's \<Rightarrow> local_db_error option \<times> 's" where
  "sql_ensure_table exec spec s =
     (case exec (create_table_sql spec) [] None s of (Inl e, s') \<Rightarrow> (Some e, s') | (Inr _, s') \<Rightarrow> (None, s'))"

definition sql_replace_rows :: "'s sql_executor \<Rightarrow> table_spec \<Rightarrow> wire_row list \<Rightarrow> 's \<Rightarrow> local_db_error option \<times> 's" where
  "sql_replace_rows exec spec rows s =
     run_transaction exec (\<lparr>sm_sql = ''DELETE FROM '' @ quote_name (tsp_name spec), sm_params = []\<rparr>
       # map (upsert_statement spec) rows) s"

fun write_statement :: "table_spec \<Rightarrow> local_write \<Rightarrow> statement" where
  "write_statement spec (Upsert row) = upsert_statement spec row"
| "write_statement spec (DeleteKey k) = delete_statement spec k"

definition sql_apply_writes :: "'s sql_executor \<Rightarrow> table_spec \<Rightarrow> local_write list \<Rightarrow> 's \<Rightarrow> local_db_error option \<times> 's" where
  "sql_apply_writes exec spec writes s =
     (let statements = map (write_statement spec) writes
      in if statements = [] then (None, s) else run_transaction exec statements s)"

definition sql_get_row :: "'s sql_executor \<Rightarrow> table_spec \<Rightarrow> primary_key \<Rightarrow> 's \<Rightarrow> local_db_error + wire_row option" where
  "sql_get_row exec spec k s =
     (let st = select_by_key_statement spec k
      in case fst (exec (sm_sql st) (sm_params st) (Some (tsp_schema spec)) s) of
           Inl e \<Rightarrow> Inl e
         | Inr rows \<Rightarrow> Inr (case rows of [] \<Rightarrow> None | r # _ \<Rightarrow> Some r))"

definition sql_local_database :: "'s sql_executor \<Rightarrow> 's local_database" where
  "sql_local_database exec = \<lparr>db_ensure_table = sql_ensure_table exec, db_replace_rows = sql_replace_rows exec,
     db_apply_writes = sql_apply_writes exec, db_get_row = sql_get_row exec\<rparr>"

section \<open>A failed batch changes nothing\<close>

text \<open>What SQL promises of transactions: inside one, no statement changes what is committed, a rollback and a
  failed commit keep it, and a begin that succeeds starts one.\<close>

definition transactional :: "'s sql_executor \<Rightarrow> ('s \<Rightarrow> bool) \<Rightarrow> ('s \<Rightarrow> 'c) \<Rightarrow> bool" where
  "transactional exec inside committed \<longleftrightarrow>
     (\<forall>s. committed (snd (exec ''BEGIN'' [] None s)) = committed s
        \<and> (isl (fst (exec ''BEGIN'' [] None s)) \<or> inside (snd (exec ''BEGIN'' [] None s))))
     \<and> (\<forall>s sql ps. inside s \<longrightarrow> sql \<noteq> ''COMMIT'' \<longrightarrow>
          committed (snd (exec sql ps None s)) = committed s \<and> (sql = ''ROLLBACK'' \<or> inside (snd (exec sql ps None s))))
     \<and> (\<forall>s. inside s \<longrightarrow> isl (fst (exec ''COMMIT'' [] None s)) \<longrightarrow> committed (snd (exec ''COMMIT'' [] None s)) = committed s)"

lemma transactional_begin:
  "transactional exec inside committed \<Longrightarrow> committed (snd (exec ''BEGIN'' [] None s)) = committed s
     \<and> (isl (fst (exec ''BEGIN'' [] None s)) \<or> inside (snd (exec ''BEGIN'' [] None s)))"
  unfolding transactional_def by (elim conjE allE [of _ s]) (rule conjI)

lemma transactional_statement:
  "transactional exec inside committed \<Longrightarrow> inside s \<Longrightarrow> sql \<noteq> ''COMMIT'' \<Longrightarrow>
     committed (snd (exec sql ps None s)) = committed s \<and> (sql = ''ROLLBACK'' \<or> inside (snd (exec sql ps None s)))"
  unfolding transactional_def by (drule conjunct2, drule conjunct1, erule allE [of _ s], erule allE [of _ sql], erule allE [of _ ps]) (drule mp, assumption, erule mp, assumption)

lemma transactional_commit:
  "transactional exec inside committed \<Longrightarrow> inside s \<Longrightarrow> isl (fst (exec ''COMMIT'' [] None s)) \<Longrightarrow>
     committed (snd (exec ''COMMIT'' [] None s)) = committed s"
  unfolding transactional_def by (drule conjunct2, drule conjunct2, erule allE [of _ s]) (drule mp, assumption, erule mp, assumption)

lemma failed_statements:
  assumes t: "transactional exec inside committed"
  shows "inside s \<Longrightarrow> list_all (\<lambda>st. sm_sql st \<noteq> ''COMMIT'' \<and> sm_sql st \<noteq> ''ROLLBACK'') sts \<Longrightarrow>
    run_statements exec sts s = (Some e, s') \<Longrightarrow> committed s' = committed s"
proof (induction sts arbitrary: s)
  case Nil
  have commit: "isl (fst (exec ''COMMIT'' [] None s)) \<Longrightarrow> committed (snd (exec ''COMMIT'' [] None s)) = committed s"
    by (rule transactional_commit [OF t Nil.prems(1)])
  obtain r s1 where x: "exec ''COMMIT'' [] None s = (r, s1)" by (cases "exec ''COMMIT'' [] None s")
  show ?case using commit Nil.prems(3) by (cases r) (simp_all add: x)
next
  case (Cons st sts)
  obtain r s1 where x: "exec (sm_sql st) (sm_params st) None s = (r, s1)" by (cases "exec (sm_sql st) (sm_params st) None s")
  have "sm_sql st \<noteq> ''COMMIT''" "sm_sql st \<noteq> ''ROLLBACK''" using Cons.prems(2) by simp_all
  then have s1: "committed s1 = committed s" "inside s1" using transactional_statement [OF t Cons.prems(1), of "sm_sql st" "sm_params st"] by (simp_all add: x)
  have "''ROLLBACK'' \<noteq> ''COMMIT''" by simp
  then have undone: "committed (snd (exec ''ROLLBACK'' [] None s1)) = committed s1"
    using transactional_statement [OF t s1(2), of "''ROLLBACK''" "[]"] by simp
  show ?case
  proof (cases r)
    case (Inl e')
    then show ?thesis using Cons.prems(3) undone s1(1) by (auto simp: x)
  next
    case (Inr rows)
    then show ?thesis using Cons.IH [OF s1(2)] Cons.prems(2,3) s1(1) by (simp add: x)
  qed
qed

lemma failed_transaction:
  assumes t: "transactional exec inside committed"
    and sql: "list_all (\<lambda>st. sm_sql st \<noteq> ''COMMIT'' \<and> sm_sql st \<noteq> ''ROLLBACK'') sts"
    and fails: "run_transaction exec sts s = (Some e, s')"
  shows "committed s' = committed s"
proof -
  obtain r s1 where x: "exec ''BEGIN'' [] None s = (r, s1)" by (cases "exec ''BEGIN'' [] None s")
  have b: "committed s1 = committed s" "isl r \<or> inside s1" using transactional_begin [OF t, of s] by (simp_all add: x)
  show ?thesis
  proof (cases r)
    case (Inl e')
    then show ?thesis using fails b(1) by (simp add: run_transaction_def x)
  next
    case (Inr rows)
    then have "run_statements exec sts s1 = (Some e, s')" using fails by (simp add: run_transaction_def x)
    then show ?thesis using failed_statements [OF t _ sql] b Inr by simp
  qed
qed

lemma write_statement_kind:
  "sm_sql (write_statement spec w) \<noteq> ''COMMIT'' \<and> sm_sql (write_statement spec w) \<noteq> ''ROLLBACK''"
  by (cases w) (simp_all add: upsert_statement_def delete_statement_def key_predicate_def Let_def)

text \<open>A batch of writes, or a replacement of all rows, that reports an error leaves the committed rows as they
  were.\<close>

lemma failed_batch_changes_nothing:
  assumes "transactional exec inside committed"
  shows "db_apply_writes (sql_local_database exec) spec writes s = (Some e, s') \<Longrightarrow> committed s' = committed s"
    and "db_replace_rows (sql_local_database exec) spec rows s = (Some e, s') \<Longrightarrow> committed s' = committed s"
proof -
  assume "db_apply_writes (sql_local_database exec) spec writes s = (Some e, s')"
  then have "run_transaction exec (map (write_statement spec) writes) s = (Some e, s')"
    by (simp add: sql_local_database_def sql_apply_writes_def Let_def split: if_splits)
  then show "committed s' = committed s"
    by (rule failed_transaction [OF assms, rotated]) (simp add: list_all_iff write_statement_kind)
next
  assume "db_replace_rows (sql_local_database exec) spec rows s = (Some e, s')"
  then have "run_transaction exec (\<lparr>sm_sql = ''DELETE FROM '' @ quote_name (tsp_name spec), sm_params = []\<rparr>
       # map (write_statement spec) (map Upsert rows)) s = (Some e, s')"
    by (simp add: sql_local_database_def sql_replace_rows_def comp_def)
  then show "committed s' = committed s"
    by (rule failed_transaction [OF assms, rotated]) (simp add: list_all_iff write_statement_kind del: write_statement.simps)
qed

section \<open>Quoted names\<close>

text \<open>A quoted name ends at its closing quote, whatever follows, and different names stay different.\<close>

lemma quote_name_closed:
  "rest = [] \<or> hd rest \<noteq> CHR 0x22 \<Longrightarrow> skip_quoted (CHR 0x22) (tl (quote_name name) @ rest) = rest"
  by (simp add: quote_name_def skip_quoted_literal)

lemma double_quotes_inject: "double_quotes q a = double_quotes q b \<longleftrightarrow> a = b"
proof (induction a arbitrary: b)
  case Nil
  show ?case by (cases b) auto
next
  case (Cons x a)
  show ?case by (cases b) (auto simp: Cons.IH)
qed

lemma quote_name_inject: "quote_name a = quote_name b \<longleftrightarrow> a = b"
  by (simp add: quote_name_def double_quotes_inject)

end
