(* ===== verification/Spec2Isabelle.thy ===== *)
theory Spec2Isabelle
  imports Pg_Runtime Client_Replica Server_Router Eval_Scalar Dataflow_State Lsn_Feedback
    Wal_Source Merge_Batcher Server_Limits Client_Sql
begin

text \<open>
  Palimpsest keeps live SQL queries of many clients up to date from the logical replication stream
  of a PostgreSQL server.  A change travels through these parts:

  \<^item> the WAL decoder turns pgoutput frames into typed row events
    (\<^verbatim>\<open>palimpsest-wal\<close>: \<^verbatim>\<open>datum.rs\<close>, \<^verbatim>\<open>catalog.rs\<close>, \<^verbatim>\<open>protocol.rs\<close>);
  \<^item> the PostgreSQL runtime applies them to its mirror of the published tables and to a bounded
    journal from which cursors read (\<^verbatim>\<open>palimpsest-postgres\<close>);
  \<^item> the permission layer rewrites the plan of every query so that a scan of a guarded table passes
    through the filters of its rules (\<^verbatim>\<open>palimpsest-permissions\<close>, \<^verbatim>\<open>palimpsest-sql/src/mir.rs\<close>);
  \<^item> the server groups a cursor's changes by transaction, pairs them into row changes, routes them to
    the bounded channel of each subscription and encodes them for the wire
    (\<^verbatim>\<open>palimpsest-server\<close>, \<^verbatim>\<open>palimpsest-proto\<close>);
  \<^item> the client decodes them, discards replays, maintains a cache, and in its local replica lays
    the user's optimistic mutations over the server's rows (\<^verbatim>\<open>palimpsest-client\<close>).

  \<^bold>\<open>Theories.\<close>

  \<^item> \<open>Palimpsest_Prelude\<close>: results with errors and panics, UTF-8 strings, decimal parsing and
    printing, saturating arithmetic, and ordered maps (\<^verbatim>\<open>BTreeMap\<close>) as the locale \<open>ordered_map\<close> with its
    interpretation on sorted association lists.
  \<^item> \<open>Wal_Datum\<close>: \<^verbatim>\<open>datum.rs\<close>, values in the text and the binary format of PostgreSQL, calendar
    arithmetic at its width; decoded values have the declared type and printing round-trips.
  \<^item> \<open>Wal_Protocol\<close>: \<^verbatim>\<open>catalog.rs\<close> and \<^verbatim>\<open>protocol.rs\<close>, the relation catalog and the frame decoder;
    round trip, prefix-freeness and conformance of decoded rows to the catalog.
  \<^item> \<open>Sql_Mir\<close>: \<^verbatim>\<open>mir.rs\<close>, \<^verbatim>\<open>catalog.rs\<close>, \<^verbatim>\<open>limits.rs\<close> of \<^verbatim>\<open>palimpsest-sql\<close>, the query graph.
  \<^item> \<open>Permissions\<close>: user contexts, rules, the rewriter, rule versions, and the sharing key of
    \<^verbatim>\<open>router.rs\<close>; every scan of a guarded table is filtered, and different contexts never share.
  \<^item> \<open>Wire_Codec\<close>: \<^verbatim>\<open>wire.rs\<close>, \<^verbatim>\<open>codec.rs\<close>, \<^verbatim>\<open>diff.rs\<close> and the encoding functions of \<^verbatim>\<open>grpc.rs\<close>; what the
    server encodes the client decodes to the same rows.
  \<^item> \<open>Server_Cursor\<close>: \<^verbatim>\<open>cursor.rs\<close> and \<^verbatim>\<open>snapshot.rs\<close>; the cursor trait as the locale
    \<open>trace_cursor\<close> with batching proved once against a reference grouping.
  \<^item> \<open>Pg_Runtime\<close>: introspection, mirror, journal, cursors, frames and the snapshot fence of
    \<^verbatim>\<open>palimpsest-postgres\<close>; a snapshot followed by the cursor's batches yields the current table.
  \<^item> \<open>Server_Router\<close>: \<^verbatim>\<open>router.rs\<close> with the subscription registry, the acknowledged positions, the
    shared-subgraph registry and the bounded channels; \<open>router_run\<close> generates the reachable routers, in
    which all the maps agree, and the loop that drains a cursor is proved equal to a fold over the
    reference grouping in the context of \<open>trace_cursor\<close>.
  \<^item> \<open>Eval_Scalar\<close>: \<^verbatim>\<open>eval.rs\<close> of \<^verbatim>\<open>palimpsest-dataflow\<close>, the compiler of scalar expressions to functions on
    rows; the \<^verbatim>\<open>LIKE\<close> matcher is equivalent to the meaning of the pattern, and predicates without
    negation follow SQL's three-valued logic.
  \<^item> \<open>Dataflow_State\<close>: \<^verbatim>\<open>consolidation.rs\<close>, \<^verbatim>\<open>time.rs\<close>, \<^verbatim>\<open>wal.rs\<close>, \<^verbatim>\<open>toast.rs\<close> and \<^verbatim>\<open>materialization.rs\<close> of
    \<^verbatim>\<open>palimpsest-dataflow\<close>; consolidation is proved once for every sort (locale \<open>key_sort\<close>), transactions
    come out of the WAL events one by one, and a partial materialization has one upquery per key in flight.
  \<^item> \<open>Merge_Batcher\<close>: \<^verbatim>\<open>merge_batcher.rs\<close> of the engine, the chains of sorted chunks; a run of pushes and seals
    refines consolidation by frontiers.
  \<^item> \<open>Server_Limits\<close>: \<^verbatim>\<open>security.rs\<close> of \<^verbatim>\<open>palimpsest-server\<close>, the bounds on subscriptions and connection attempts.
  \<^item> \<open>Upquery\<close>: \<^verbatim>\<open>upquery.rs\<close> of \<^verbatim>\<open>palimpsest-dataflow\<close>, the walk that finds the tables behind a query graph and
    the requests for missing keys.
  \<^item> \<open>Wal_Source\<close>: \<^verbatim>\<open>source.rs\<close> and \<^verbatim>\<open>spill.rs\<close> of \<^verbatim>\<open>palimpsest-wal\<close>, the source of decoded events, its restart
    position and the queue that spills segments to files; what is spilled comes back unchanged.
  \<^item> \<open>Lsn_Feedback\<close>: \<^verbatim>\<open>lsn.rs\<close> of the vendored \<^verbatim>\<open>pg-walstream\<close>, the two positions reported to PostgreSQL,
    raised by interleaved compare-and-exchange loops of any number of threads.
  \<^item> \<open>Client_Connection\<close>: cache, reconnect schedule and connection manager of the client, as a step
    relation; the locale \<open>subscription_invariant\<close> carries an invariant of one subscription through
    every step and is interpreted for the order of delivery and for the cache.
  \<^item> \<open>Client_Replica\<close>: the storage trait (locale \<open>reliable_store\<close>, interpreted on the in-memory
    store), the ledger of optimistic mutations and the replica; the visible rows refine the server's
    rows under the pending mutations.
  \<^item> \<open>Client_Sql\<close>: \<^verbatim>\<open>local/sql.rs\<close> of \<^verbatim>\<open>palimpsest-client\<close>, the same storage trait on a SQL engine; on an engine with
    transactions a batch that fails changes nothing.

  \<^bold>\<open>Conventions.\<close>  A byte is a \<open>char\<close> and a string or byte vector a list of them; integers are words
  of their width; a hash map is a map, or an association list whose order stands for the unspecified
  iteration order where the code iterates; a panic is the value \<open>Panic\<close>; an operation under a lock is
  one step, and where the code releases the lock in between (the snapshot of \<open>Pg_Runtime\<close>, the two
  halves of \<open>subscribe\<close>) the model takes two states; where threads share atomic words without a lock
  (\<open>Lsn_Feedback\<close>) every load and exchange is a step.  Loops that may not end are partial functions of the
  option type, so that not returning is the value \<open>None\<close>, and the theorems about them state that they return.

  \<^bold>\<open>Parameters.\<close>  The \<^verbatim>\<open>bincode\<close> serializer is a record of two functions, lossless by the hypothesis
  \<open>bincode_lossless\<close>.  The run of a compiled plan on a snapshot, floating-point arithmetic, parsing and
  printing, the JSON operators, the parsing of an expression, the bounded channel of the spill queue, the
  SQL engine of the local store, the point select of a TOAST value, the chunker of the batcher and the
  lowering of SQL text to a query graph are functions passed to the definitions that use them.  The file
  system is a map from paths to contents with a set of failing paths.

  \<^bold>\<open>Not modelled.\<close>  SQL parsing and lowering and prepared queries (they work on the syntax trees of a
  third-party parser), the plan compiler, the threads of the dataflow host and the rest of the
  differential-dataflow engine (operators of the timely runtime), the rest of the vendored
  \<^verbatim>\<open>pg-walstream\<close> client, authentication, TLS, network transport, the configuration file, the builders that
  wire the parts together, metrics, tracing, the command line, the JavaScript bindings and the test
  support crates.
\<close>

section \<open>From the journal to the subscription's channel\<close>


definition demo_entry :: raw_diff where
  "demo_entry = \<lparr>rd_table = Some 3, rd_row = [DBool True], rd_lsn = 9, rd_diff = 1\<rparr>"

lemma demo_channel: "map_of (ro_channels demo_router) 1 = Some (pp_channel demo_prepared)"
  by (simp add: demo_router_def demo_commit_defs router_new_def registry_new_def shared_new_def watermarks_new_def)


section \<open>A row changed twice in one transaction\<close>

text \<open>The pairing keeps only the last image of each side together.  The images of the first update are
  emitted after the pair, as an insert of the intermediate row and a delete of the first one, and a
  client that folds the changes in order ends without the row, which is still in the table.\<close>

lemma double_update_pairing:
  assumes keys: "primary_key_bytes pk a = k" "primary_key_bytes pk b = k" "primary_key_bytes pk c = k"
  shows "pair_changes [\<lparr>rd_table = t, rd_row = a, rd_lsn = l, rd_diff = - 1\<rparr>, \<lparr>rd_table = t, rd_row = b, rd_lsn = l, rd_diff = 1\<rparr>,
      \<lparr>rd_table = t, rd_row = b, rd_lsn = l, rd_diff = - 1\<rparr>, \<lparr>rd_table = t, rd_row = c, rd_lsn = l, rd_diff = 1\<rparr>] pk =
    [\<lparr>rc_op = OpUpdate, rc_old = Some b, rc_new = Some c\<rparr>, \<lparr>rc_op = OpInsert, rc_old = None, rc_new = Some b\<rparr>,
     \<lparr>rc_op = OpDelete, rc_old = Some a, rc_new = None\<rparr>]"
  using keys by (simp add: pair_changes_def bin_diff_def bin_push_def update_change_def insert_change_def delete_change_def)

lemma double_update_loses_row:
  assumes "cache_key ca a = k" "cache_key ca b = k" "cache_key ca c = k"
  shows "cache_get (cache_apply_transaction
    [\<lparr>wrc_op = POpUpdate, wrc_old = Some b, wrc_new = Some c\<rparr>, \<lparr>wrc_op = POpInsert, wrc_old = None, wrc_new = Some b\<rparr>,
     \<lparr>wrc_op = POpDelete, wrc_old = Some a, wrc_new = None\<rparr>] ca) k = None"
  using assms
  by (simp add: cache_apply_transaction_def cache_apply_change_def cache_put_def cache_drop_def cache_key_def if_some_def cache_get_def)

end
